(* ===== verification/Prelude.thy ===== *)
theory Prelude
  imports Main "HOL-Library.Word"
begin

text \<open>
  Shared vocabulary of the development: the machine-integer types of the C sources, bounds-checked
  access to C arrays, the byte order conversions the packed structures rely on, and the generic
  list and word facts the component theories use.

  A C array or buffer is a list. A load or store outside it is undefined behaviour in C; the model
  makes it visible: \<open>rd\<close> and \<open>wr\<close> return \<^const>\<open>None\<close> there, and the component theories
  prove that the checked accesses of the code never do so (or exhibit the inputs on which they do).
\<close>

unbundle bit_operations_syntax

type_synonym u8 = "8 word"
type_synonym u16 = "16 word"
type_synonym u32 = "32 word"
type_synonym u64 = "64 word"
type_synonym bytes = "8 word list"

named_theorems bounds \<open>facts that a computed index or length stays within its array\<close>
named_theorems preserves \<open>facts that an operation keeps the invariant of its component\<close>

subsection \<open>Checked array access\<close>

definition rd :: "'a list \<Rightarrow> nat \<Rightarrow> 'a option" where
  "rd xs i = (if i < length xs then Some (xs ! i) else None)"

definition wr :: "'a list \<Rightarrow> nat \<Rightarrow> 'a \<Rightarrow> 'a list option" where
  "wr xs i v = (if i < length xs then Some (xs[i := v]) else None)"

lemma rd_eq_Some [simp]: "rd xs i = Some x \<longleftrightarrow> i < length xs \<and> x = xs ! i"
  by (auto simp: rd_def)

lemma rd_eq_None [simp]: "rd xs i = None \<longleftrightarrow> length xs \<le> i"
  by (auto simp: rd_def)

lemma wr_eq_Some [simp]: "wr xs i v = Some ys \<longleftrightarrow> i < length xs \<and> ys = xs[i := v]"
  by (auto simp: wr_def)

lemma wr_eq_None [simp]: "wr xs i v = None \<longleftrightarrow> length xs \<le> i"
  by (auto simp: wr_def)

lemma rd_append [simp]:
  "rd (xs @ ys) (length xs) = rd ys 0" "rd (xs @ ys) (length xs + k) = rd ys k"
  "rd (xs @ ys) (Suc (length xs)) = rd ys 1"
  "rd (xs @ ys) (Suc (Suc (length xs))) = rd ys (Suc 1)"
  "rd (xs @ ys) (Suc (Suc (Suc (length xs)))) = rd ys (Suc (Suc 1))"
  "rd (xs @ ys) (Suc (Suc (Suc (Suc (length xs))))) = rd ys (Suc (Suc (Suc 1)))"
  by (simp_all add: rd_def nth_append numeral_eq_Suc)

lemma rd_Cons [simp]:
  "rd (x # xs) 0 = Some x" "rd (x # xs) (Suc k) = rd xs k" "rd (x # xs) (numeral v) = rd xs (pred_numeral v)"
  "rd (x # xs) 1 = rd xs 0"
  by (simp_all add: rd_def numeral_eq_Suc)

text \<open>\<open>store xs off ys\<close> is \<^verbatim>\<open>memcpy(xs + off, ys, |ys|)\<close> on a list.\<close>

definition store :: "'a list \<Rightarrow> nat \<Rightarrow> 'a list \<Rightarrow> 'a list" where
  "store xs off ys = take off xs @ ys @ drop (off + length ys) xs"

definition bslice :: "'a list \<Rightarrow> nat \<Rightarrow> nat \<Rightarrow> 'a list" where
  "bslice xs off n = take n (drop off xs)"

lemma length_store [simp]: "off + length ys \<le> length xs \<Longrightarrow> length (store xs off ys) = length xs"
  by (simp add: store_def)

lemma length_bslice [simp]: "off + n \<le> length xs \<Longrightarrow> length (bslice xs off n) = n"
  by (simp add: bslice_def)

lemma nth_store:
  "off + length ys \<le> length xs \<Longrightarrow> i < length xs \<Longrightarrow>
   store xs off ys ! i = (if off \<le> i \<and> i < off + length ys then ys ! (i - off) else xs ! i)"
  by (auto simp: store_def nth_append min_def)

lemma nth_bslice: "off + n \<le> length xs \<Longrightarrow> i < n \<Longrightarrow> bslice xs off n ! i = xs ! (off + i)"
  by (simp add: bslice_def)

lemma bslice_store_same:
  "off + length ys \<le> length xs \<Longrightarrow> bslice (store xs off ys) off (length ys) = ys"
  by (simp add: store_def bslice_def)

lemma bslice_store_other:
  assumes "off + length ys \<le> length xs" and "off' + n \<le> length xs"
    and "off' + n \<le> off \<or> off + length ys \<le> off'"
  shows "bslice (store xs off ys) off' n = bslice xs off' n"
proof (rule nth_equalityI)
  show "length (bslice (store xs off ys) off' n) = length (bslice xs off' n)"
    using assms by simp
  fix i assume "i < length (bslice (store xs off ys) off' n)"
  then have "i < n" using assms by simp
  then show "bslice (store xs off ys) off' n ! i = bslice xs off' n ! i"
    using assms by (auto simp: nth_bslice nth_store)
qed

subsection \<open>Bounded loops\<close>

text \<open>\<^verbatim>\<open>for (i = 0; i < n; i++)\<close> with an early return is \<^const>\<open>find\<close> or \<^const>\<open>list_all\<close> on
  \<open>[0..<n]\<close>.\<close>

lemma list_all_upt: "list_all P [0..<n] \<longleftrightarrow> (\<forall>i<n. P i)"
  by (auto simp: list_all_iff)

lemma find_upt_Some:
  "find P [0..<n] = Some i \<longleftrightarrow> i < n \<and> P i \<and> (\<forall>j<i. \<not> P j)"
  by (auto simp: find_Some_iff)

lemma find_upt_None: "find P [0..<n] = None \<longleftrightarrow> (\<forall>i<n. \<not> P i)"
  by (auto simp: find_None_iff)

subsection \<open>Words\<close>

lemma unat_u8_lt: "unat (c :: u8) < 256"
  using unsigned_less [of c, where ?'a = nat] by simp

lemma unat_u16_lt: "unat (c :: u16) < 65536"
  using unsigned_less [of c, where ?'a = nat] by simp

lemma unat_u32_lt: "unat (c :: u32) < 4294967296"
  using unsigned_less [of c, where ?'a = nat] by simp

lemma unat_u64_lt: "unat (c :: u64) < 18446744073709551616"
  using unsigned_less [of c, where ?'a = nat] by simp

text \<open>Arithmetic that does not overflow.\<close>

lemma unat_add_small:
  "unat (a :: 'a::len word) + unat b < 2 ^ LENGTH('a) \<Longrightarrow> unat (a + b) = unat a + unat b"
  by (simp add: unat_add_lem)

lemma unat_mult_small:
  "unat (a :: 'a::len word) * unat b < 2 ^ LENGTH('a) \<Longrightarrow> unat (a * b) = unat a * unat b"
  by (simp add: unat_mult_lem)

lemma unat_sub_small: "unat b \<le> unat (a :: 'a::len word) \<Longrightarrow> unat (a - b) = unat a - unat b"
  by (simp add: unat_sub word_le_nat_alt)

lemma unat_of_nat_small: "n < 2 ^ LENGTH('a) \<Longrightarrow> unat (of_nat n :: 'a::len word) = n"
  by (simp add: unat_of_nat)

lemma unat_ucast_small:
  "unat (w :: 'a::len word) < 2 ^ LENGTH('b) \<Longrightarrow> unat (ucast w :: 'b::len word) = unat w"
  by (simp add: unsigned_ucast_eq take_bit_nat_eq_self)

lemma unat_ucast_up [simp]:
  "LENGTH('a) \<le> LENGTH('b) \<Longrightarrow> unat (ucast (w :: 'a::len word) :: 'b::len word) = unat w"
  by (rule unat_ucast_small) (meson unsigned_less less_le_trans power_increasing one_le_numeral)

lemma unat_max_u32 [simp]: "unat (- 1 :: u32) = 4294967295"
proof -
  have "unat (- 1 :: u32) = unat (4294967295 :: u32)" by (rule arg_cong) simp
  also have "\<dots> = 4294967295" by (subst unat_numeral) simp
  finally show ?thesis .
qed

text \<open>A signed \<^verbatim>\<open>char\<close> in terms of its byte.\<close>

lemma sint_u8: "sint (c :: u8) = (if unat c < 128 then int (unat c) else int (unat c) - 256)"
proof -
  have "bit (uint c) 7 \<longleftrightarrow> 128 \<le> uint c"
  proof -
    have "uint c < 256" "0 \<le> uint c" using uint_lt2p [of c] by simp_all
    then have "uint c div 128 = (if 128 \<le> uint c then 1 else 0)" by auto
    then show ?thesis by (simp add: bit_iff_odd)
  qed
  moreover have "take_bit 8 (uint c) = uint c"
    using uint_lt2p [of c] by (simp add: take_bit_int_eq_self)
  moreover have "unat c < 128 \<longleftrightarrow> uint c < 128"
    by (simp add: uint_nat del: of_nat_unat)
  ultimately show ?thesis
    by (auto simp: sint_uint signed_take_bit_eq_take_bit_minus)
qed

lemma unat_sub_u8: "unat k \<le> unat c \<Longrightarrow> unat ((c :: u8) - k) = unat c - unat k"
  by (simp add: unat_sub word_le_nat_alt)

subsection \<open>Byte order\<close>

text \<open>Big-endian (network) order, as \<^verbatim>\<open>htons\<close>/\<^verbatim>\<open>htonl\<close> lay fields out on the wire.\<close>

definition be16 :: "u8 \<Rightarrow> u8 \<Rightarrow> u16" where
  "be16 a b = push_bit 8 (ucast a) OR ucast b"

definition be32 :: "u8 \<Rightarrow> u8 \<Rightarrow> u8 \<Rightarrow> u8 \<Rightarrow> u32" where
  "be32 a b c d = push_bit 24 (ucast a) OR push_bit 16 (ucast b) OR push_bit 8 (ucast c) OR ucast d"

definition be16_bytes :: "u16 \<Rightarrow> bytes" where
  "be16_bytes w = [ucast (drop_bit 8 w), ucast w]"

definition be32_bytes :: "u32 \<Rightarrow> bytes" where
  "be32_bytes w = [ucast (drop_bit 24 w), ucast (drop_bit 16 w), ucast (drop_bit 8 w), ucast w]"

text \<open>Little-endian order, as the packed on-disk structures and x86 loads have it.\<close>

definition le16_bytes :: "u16 \<Rightarrow> bytes" where
  "le16_bytes w = [ucast w, ucast (drop_bit 8 w)]"

definition le32_bytes :: "u32 \<Rightarrow> bytes" where
  "le32_bytes w = [ucast w, ucast (drop_bit 8 w), ucast (drop_bit 16 w), ucast (drop_bit 24 w)]"

lemma length_be16_bytes [simp]: "length (be16_bytes w) = 2"
  by (simp add: be16_bytes_def)

lemma length_be32_bytes [simp]: "length (be32_bytes w) = 4"
  by (simp add: be32_bytes_def)

lemma length_le16_bytes [simp]: "length (le16_bytes w) = 2"
  by (simp add: le16_bytes_def)

lemma length_le32_bytes [simp]: "length (le32_bytes w) = 4"
  by (simp add: le32_bytes_def)

lemma no_bit_u8 [simp]: "8 \<le> n \<Longrightarrow> \<not> bit (b :: u8) n"
  using bit_imp_le_length [of b n] by auto

lemma be16_roundtrip [simp]: "be16 (ucast (drop_bit 8 w)) (ucast w) = w"
  unfolding be16_def
  by (rule bit_word_eqI) (auto simp: bit_simps)

lemma be16_inverse [simp]: "be16_bytes (be16 a b) = [a, b]"
  unfolding be16_def be16_bytes_def
  by (auto intro!: bit_word_eqI simp: bit_simps)

lemma byte_lanes32:
  fixes n :: nat
  assumes "n < 32"
  obtains "n < 8" | "8 \<le> n" "n < 16" | "16 \<le> n" "n < 24" | "24 \<le> n" "n < 32"
  using assms by linarith

lemma be32_roundtrip [simp]:
  "be32 (ucast (drop_bit 24 w)) (ucast (drop_bit 16 w)) (ucast (drop_bit 8 w)) (ucast w) = w"
proof (rule bit_word_eqI)
  fix n assume "n < LENGTH(32)"
  then have "n < 32" by simp
  then show "bit (be32 (ucast (drop_bit 24 w)) (ucast (drop_bit 16 w)) (ucast (drop_bit 8 w)) (ucast w)) n
      \<longleftrightarrow> bit w n"
    unfolding be32_def by (cases rule: byte_lanes32) (auto simp: bit_simps)
qed

lemma be32_inverse [simp]: "be32_bytes (be32 a b c d) = [a, b, c, d]"
  unfolding be32_def be32_bytes_def
  by (auto intro!: bit_word_eqI simp: bit_simps)

definition le16 :: "u8 \<Rightarrow> u8 \<Rightarrow> u16" where
  "le16 a b = be16 b a"

definition le32 :: "u8 \<Rightarrow> u8 \<Rightarrow> u8 \<Rightarrow> u8 \<Rightarrow> u32" where
  "le32 a b c d = be32 d c b a"

lemma le16_roundtrip [simp]: "le16 (ucast w) (ucast (drop_bit 8 w)) = w"
  by (simp add: le16_def)

lemma le32_roundtrip [simp]:
  "le32 (ucast w) (ucast (drop_bit 8 w)) (ucast (drop_bit 16 w)) (ucast (drop_bit 24 w)) = w"
  by (simp add: le32_def)

lemma unat_be16: "unat (be16 a b) = 256 * unat a + unat b"
proof -
  have "be16 a b = 256 * ucast a + ucast b"
  proof -
    have "push_bit 8 (ucast a) OR ucast b = (push_bit 8 (ucast a) + ucast b :: u16)"
      by (subst disjunctive_add) (auto simp: bit_simps)
    then show ?thesis by (simp add: be16_def push_bit_eq_mult mult.commute)
  qed
  moreover have "unat (256 * ucast a + ucast b :: u16) = 256 * unat a + unat b"
    using unat_u8_lt [of a] unat_u8_lt [of b]
    by (subst unat_add_small; (subst unat_mult_small)?; (subst unat_mult_small)?; simp)
  ultimately show ?thesis by simp
qed

lemma unat_le16: "unat (le16 a b) = unat a + 256 * unat b"
  by (simp add: le16_def unat_be16)

text \<open>Fields of a packed structure, read at an offset.\<close>

definition get_be16 :: "bytes \<Rightarrow> nat \<Rightarrow> u16 option" where
  "get_be16 p i = (if i + 1 < length p then Some (be16 (p ! i) (p ! (i + 1))) else None)"

definition get_be32 :: "bytes \<Rightarrow> nat \<Rightarrow> u32 option" where
  "get_be32 p i = (if i + 3 < length p then Some (be32 (p ! i) (p ! (i + 1)) (p ! (i + 2)) (p ! (i + 3))) else None)"

definition get_le16 :: "bytes \<Rightarrow> nat \<Rightarrow> u16 option" where
  "get_le16 p i = (if i + 1 < length p then Some (le16 (p ! i) (p ! (i + 1))) else None)"

definition get_le32 :: "bytes \<Rightarrow> nat \<Rightarrow> u32 option" where
  "get_le32 p i = (if i + 3 < length p then Some (le32 (p ! i) (p ! (i + 1)) (p ! (i + 2)) (p ! (i + 3))) else None)"

definition get_bytes :: "bytes \<Rightarrow> nat \<Rightarrow> nat \<Rightarrow> bytes option" where
  "get_bytes p i n = (if i + n \<le> length p then Some (bslice p i n) else None)"

subsection \<open>Bits of the constants used as masks and flags\<close>

text \<open>The simplifier reduces a bit of a word constant to a bit of the integer.\<close>

lemma bit_pow2_const: "c = (2 :: int) ^ k \<Longrightarrow> bit c n \<longleftrightarrow> n = k"
  by (auto simp: bit_exp_iff)

lemma bit_mask_const: "c = (mask k :: int) \<Longrightarrow> bit c n \<longleftrightarrow> n < k"
  by (simp add: bit_mask_iff)

lemma bit_consts:
  "bit (0x80 :: int) n \<longleftrightarrow> n = 7"
  "bit (0x100 :: int) n \<longleftrightarrow> n = 8"
  "bit (0x7F :: int) n \<longleftrightarrow> n < 7"
  "bit (0xFF :: int) n \<longleftrightarrow> n < 8"
  by (rule bit_pow2_const, simp)+ (rule bit_mask_const, simp add: mask_eq_exp_minus_1)+

end
