(* ===== verification/Str.thy ===== *)
theory Str
  imports Prelude
begin

text \<open>
  The string-view library (\<^verbatim>\<open>include/str.h\<close>, \<^verbatim>\<open>src/str.c\<close>).

  A view is a pointer and a length. The pointer is modelled by the list of bytes that are readable
  from it on, so that pointer arithmetic \<^verbatim>\<open>s.data + n\<close> is \<^const>\<open>drop\<close>. A view is well formed
  (\<open>str_ok\<close>) when its length does not exceed what is readable; \<open>chars\<close> is the text it denotes.
\<close>

record str =
  str_data :: bytes
  str_len :: nat

definition str_ok :: "str \<Rightarrow> bool" where
  "str_ok s \<longleftrightarrow> str_len s \<le> length (str_data s)"

definition chars :: "str \<Rightarrow> bytes" where
  "chars s = take (str_len s) (str_data s)"

subsection \<open>Operations\<close>

text \<open>\<^verbatim>\<open>while (s[n]) n++\<close>: running past the readable bytes is \<^const>\<open>None\<close>.\<close>

fun str_scan :: "bytes \<Rightarrow> nat option" where
  "str_scan [] = None"
| "str_scan (c # cs) = (if c = 0 then Some 0 else map_option Suc (str_scan cs))"

definition str_from :: "bytes \<Rightarrow> str option" where
  "str_from s = map_option (\<lambda>n. \<lparr>str_data = s, str_len = n\<rparr>) (str_scan s)"

definition str_span :: "bytes \<Rightarrow> nat \<Rightarrow> str" where
  "str_span p n = \<lparr>str_data = p, str_len = n\<rparr>"

text \<open>\<^verbatim>\<open>char\<close> is signed on x86-64, hence \<^const>\<open>sint\<close> in the comparisons.\<close>

definition to_lower :: "u8 \<Rightarrow> u8" where
  "to_lower c = (if sint c \<ge> 65 \<and> sint c \<le> 90 then c + 32 else c)"

definition str_eq :: "str \<Rightarrow> str \<Rightarrow> bool" where
  "str_eq a b \<longleftrightarrow>
     (if str_len a \<noteq> str_len b then False
      else list_all (\<lambda>i. str_data a ! i = str_data b ! i) [0..<str_len a])"

definition str_eq_ci :: "str \<Rightarrow> str \<Rightarrow> bool" where
  "str_eq_ci a b \<longleftrightarrow>
     (if str_len a \<noteq> str_len b then False
      else list_all (\<lambda>i. to_lower (str_data a ! i) = to_lower (str_data b ! i)) [0..<str_len a])"

definition str_has_prefix :: "str \<Rightarrow> str \<Rightarrow> bool" where
  "str_has_prefix s p \<longleftrightarrow>
     (if str_len s < str_len p then False
      else list_all (\<lambda>i. str_data s ! i = str_data p ! i) [0..<str_len p])"

definition str_has_suffix :: "str \<Rightarrow> str \<Rightarrow> bool" where
  "str_has_suffix s x \<longleftrightarrow>
     (if str_len s < str_len x then False
      else let off = str_len s - str_len x in
        list_all (\<lambda>i. str_data s ! (off + i) = str_data x ! i) [0..<str_len x])"

definition str_trim_prefix :: "str \<Rightarrow> str \<Rightarrow> str" where
  "str_trim_prefix s p =
     (if str_has_prefix s p
      then \<lparr>str_data = drop (str_len p) (str_data s), str_len = str_len s - str_len p\<rparr>
      else s)"

text \<open>The result is the return value together with \<^verbatim>\<open>*before\<close> and \<^verbatim>\<open>*after\<close>.\<close>

definition str_cut_ch :: "str \<Rightarrow> u8 \<Rightarrow> bool \<times> str \<times> str" where
  "str_cut_ch s sep =
     (case find (\<lambda>i. str_data s ! i = sep) [0..<str_len s] of
        Some i \<Rightarrow> (True, str_span (str_data s) i,
                   str_span (drop (i + 1) (str_data s)) (str_len s - i - 1))
      | None \<Rightarrow> (False, s, str_span (drop (str_len s) (str_data s)) 0))"

fun u32_loop :: "bytes \<Rightarrow> u32 \<Rightarrow> u32 option" where
  "u32_loop [] v = Some v"
| "u32_loop (c # cs) v =
     (if sint c < 48 \<or> sint c > 57 then None
      else u32_loop cs (v * 10 + ucast (c - 48)))"

definition str_to_u32 :: "str \<Rightarrow> u32 option" where
  "str_to_u32 s = (if str_len s = 0 then None else u32_loop (chars s) 0)"

text \<open>The updated destination and the number of bytes written before the terminator.\<close>

definition str_copy :: "bytes \<Rightarrow> nat \<Rightarrow> str \<Rightarrow> bytes \<times> nat" where
  "str_copy dst cap s =
     (if cap = 0 then (dst, 0)
      else let n = (if str_len s < cap - 1 then str_len s else cap - 1) in
        (store dst 0 (take n (str_data s) @ [0]), n))"

subsection \<open>What the operations compute\<close>

lemma length_chars [simp]: "str_ok s \<Longrightarrow> length (chars s) = str_len s"
  by (simp add: str_ok_def chars_def)

lemma nth_chars [simp]: "i < str_len s \<Longrightarrow> chars s ! i = str_data s ! i"
  by (simp add: chars_def)

lemma str_ok_span [simp]: "str_ok (str_span p n) \<longleftrightarrow> n \<le> length p"
  by (simp add: str_ok_def str_span_def)

lemma chars_span [simp]: "chars (str_span p n) = take n p"
  by (simp add: chars_def str_span_def)

lemma len_span [simp]: "str_len (str_span p n) = n"
  by (simp add: str_span_def)

lemma data_span [simp]: "str_data (str_span p n) = p"
  by (simp add: str_span_def)

lemma str_scan_Some:
  "str_scan s = Some n \<longleftrightarrow> n < length s \<and> s ! n = 0 \<and> (\<forall>i<n. s ! i \<noteq> 0)"
proof (induction s arbitrary: n)
  case Nil
  then show ?case by simp
next
  case (Cons c cs)
  show ?case
    by (cases n) (auto simp: Cons.IH less_Suc_eq_0_disj nth_Cons')
qed

lemma str_scan_terminated: "0 \<notin> set xs \<Longrightarrow> str_scan (xs @ 0 # ys) = Some (length xs)"
  by (induction xs) auto

lemma str_from_terminated:
  "0 \<notin> set xs \<Longrightarrow> str_from (xs @ 0 # ys) = Some \<lparr>str_data = xs @ 0 # ys, str_len = length xs\<rparr>"
  by (simp add: str_from_def str_scan_terminated)

lemma str_from_ok: "str_from s = Some v \<Longrightarrow> str_ok v \<and> 0 \<notin> set (chars v)"
  by (auto simp: str_from_def str_scan_Some str_ok_def chars_def in_set_conv_nth)

lemma str_eq_iff [simp]: "str_ok a \<Longrightarrow> str_ok b \<Longrightarrow> str_eq a b \<longleftrightarrow> chars a = chars b"
  by (auto simp: str_eq_def list_all_upt list_eq_iff_nth_eq)

lemma str_eq_ci_iff:
  "str_ok a \<Longrightarrow> str_ok b \<Longrightarrow> str_eq_ci a b \<longleftrightarrow> map to_lower (chars a) = map to_lower (chars b)"
  by (auto simp: str_eq_ci_def list_all_upt list_eq_iff_nth_eq)

lemma str_has_prefix_iff:
  assumes "str_ok s" and "str_ok p"
  shows "str_has_prefix s p \<longleftrightarrow> take (str_len p) (chars s) = chars p"
  using assms by (auto simp: str_has_prefix_def list_all_upt list_eq_iff_nth_eq)

lemma str_has_suffix_iff:
  assumes "str_ok s" and "str_ok x"
  shows "str_has_suffix s x \<longleftrightarrow>
    str_len x \<le> str_len s \<and> drop (str_len s - str_len x) (chars s) = chars x"
  using assms by (auto simp: str_has_suffix_def list_all_upt list_eq_iff_nth_eq Let_def)

lemma str_trim_prefix_ok [preserves]: "str_ok s \<Longrightarrow> str_ok p \<Longrightarrow> str_ok (str_trim_prefix s p)"
  by (auto simp: str_trim_prefix_def str_has_prefix_def str_ok_def)

lemma str_trim_prefix_chars:
  "str_ok s \<Longrightarrow> str_ok p \<Longrightarrow>
   chars (str_trim_prefix s p) = (if str_has_prefix s p then drop (str_len p) (chars s) else chars s)"
  by (auto simp: str_trim_prefix_def chars_def drop_take)

lemma str_cut_ch_found:
  assumes "str_ok s" and "str_cut_ch s sep = (True, b, a)"
  shows "str_ok b \<and> str_ok a \<and> chars s = chars b @ sep # chars a \<and> sep \<notin> set (chars b)"
proof -
  obtain i where i: "i < str_len s" "str_data s ! i = sep" "\<forall>j<i. str_data s ! j \<noteq> sep"
    and b: "b = str_span (str_data s) i"
    and a: "a = str_span (drop (i + 1) (str_data s)) (str_len s - i - 1)"
    using assms(2) by (auto simp: str_cut_ch_def find_upt_Some split: option.splits)
  have len: "i < length (chars s)" "str_len s \<le> length (str_data s)"
    using assms(1) i(1) by (simp_all add: str_ok_def)
  have "chars s = take i (chars s) @ chars s ! i # drop (Suc i) (chars s)"
    using len(1) by (rule id_take_nth_drop)
  moreover have "take i (chars s) = chars b"
    using i(1) by (simp add: b chars_def min_def)
  moreover have "drop (Suc i) (chars s) = chars a"
    by (simp add: a chars_def drop_take)
  moreover have "sep \<notin> set (chars b)"
    using i(3) len i(1) by (auto simp: b in_set_conv_nth)
  ultimately show ?thesis
    using i(1,2) len(2) by (simp add: a b)
qed

lemma str_cut_ch_missing:
  assumes "str_ok s" and "str_cut_ch s sep = (False, b, a)"
  shows "b = s \<and> str_ok a \<and> chars a = [] \<and> sep \<notin> set (chars s)"
  using assms
  by (auto simp: str_cut_ch_def find_upt_None in_set_conv_nth str_ok_def split: option.splits)

lemma str_cut_ch_append:
  assumes "sep \<notin> set xs"
  shows "str_cut_ch (str_span (xs @ sep # ys) (length xs + 1 + n)) sep =
     (True, str_span (xs @ sep # ys) (length xs), str_span ys n)"
proof -
  have "find (\<lambda>i. (xs @ sep # ys) ! i = sep) [0..<length xs + 1 + n] = Some (length xs)"
    using assms by (subst find_upt_Some) (auto simp: nth_append in_set_conv_nth)
  then show ?thesis
    by (simp add: str_cut_ch_def)
qed

subsection \<open>Decimal numbers\<close>

definition is_digit :: "u8 \<Rightarrow> bool" where
  "is_digit c \<longleftrightarrow> 48 \<le> unat c \<and> unat c \<le> 57"

text \<open>The value of a digit string, unbounded.\<close>

definition decimal :: "bytes \<Rightarrow> nat" where
  "decimal cs = foldl (\<lambda>v c. v * 10 + (unat c - 48)) 0 cs"

lemma sint_digit: "sint c < 48 \<or> sint c > 57 \<longleftrightarrow> \<not> is_digit c"
  using unat_u8_lt [of c] by (auto simp: is_digit_def sint_u8 uint_nat simp del: of_nat_unat)

lemma digit_step:
  assumes "is_digit c"
  shows "of_nat n * 10 + ucast (c - 48) = (of_nat (n * 10 + (unat c - 48)) :: u32)"
proof -
  have "unat (c - 48) = unat c - 48"
    using assms by (simp add: is_digit_def unat_sub_u8)
  then have "(ucast (c - 48) :: u32) = of_nat (unat c - 48)"
    by (metis of_nat_unat)
  then show ?thesis by simp
qed

lemma u32_loop_eq:
  "u32_loop cs (of_nat n) =
     (if list_all is_digit cs
      then Some (of_nat (foldl (\<lambda>v c. v * 10 + (unat c - 48)) n cs)) else None)"
proof (induction cs arbitrary: n)
  case Nil
  then show ?case by simp
next
  case (Cons c cs)
  then show ?case
    using sint_digit [of c] digit_step [of c n] by (auto simp del: of_nat_add of_nat_mult)
qed

lemma str_to_u32_eq:
  assumes "str_ok s"
  shows "str_to_u32 s =
     (if str_len s \<noteq> 0 \<and> list_all is_digit (chars s) then Some (of_nat (decimal (chars s))) else None)"
  using u32_loop_eq [of "chars s" 0] by (simp add: str_to_u32_def decimal_def)

subsection \<open>Properties\<close>



text \<open>C40. \<^const>\<open>str_to_u32\<close> accepts exactly the nonempty strings of decimal digits and returns their
  value modulo \<open>2 ^ 32\<close>.\<close>

theorem str_to_u32_value:
  assumes "str_ok s"
  shows "str_to_u32 s =
     (if str_len s \<noteq> 0 \<and> list_all is_digit (chars s) then Some (word_of_nat (decimal (chars s))) else None)"
  by (rule str_to_u32_eq [OF assms])

theorem str_to_u32_value_witness:
  "str_ok (str_span [52, 50, 55] 2) \<and> str_to_u32 (str_span [52, 50, 55] 2) = Some 42"
  using str_to_u32_value [of "str_span [52, 50, 55] 2"]
  by (simp add: str_ok_def str_span_def chars_def is_digit_def decimal_def)

end
