(* ===== verification/Mem.thy ===== *)
theory Mem
  imports Prelude
begin

text \<open>
  Byte-addressed memory, 64-bit loads and stores, and the \<^verbatim>\<open>memset\<close>/\<^verbatim>\<open>memcpy\<close> of
  \<^verbatim>\<open>src/utils.c\<close>, which move eight bytes per iteration and finish with a byte loop. The two
  routines are shown equal to the byte-wise fill and copy their C signatures promise.
\<close>

type_synonym mem = "nat \<Rightarrow> u8"

subsection \<open>64-bit accesses (little endian)\<close>

definition load64 :: "mem \<Rightarrow> nat \<Rightarrow> u64" where
  "load64 m a =
     ucast (m a) OR push_bit 8 (ucast (m (a + 1))) OR push_bit 16 (ucast (m (a + 2)))
     OR push_bit 24 (ucast (m (a + 3))) OR push_bit 32 (ucast (m (a + 4)))
     OR push_bit 40 (ucast (m (a + 5))) OR push_bit 48 (ucast (m (a + 6)))
     OR push_bit 56 (ucast (m (a + 7)))"

definition store64 :: "mem \<Rightarrow> nat \<Rightarrow> u64 \<Rightarrow> mem" where
  "store64 m a w = (\<lambda>x. if a \<le> x \<and> x < a + 8 then ucast (drop_bit (8 * (x - a)) w) else m x)"

subsection \<open>memset and memcpy\<close>

function memset_wide :: "mem \<Rightarrow> nat \<Rightarrow> u64 \<Rightarrow> nat \<Rightarrow> nat \<Rightarrow> mem \<times> nat" where
  "memset_wide m d w i count =
     (if i + 8 \<le> count then memset_wide (store64 m (d + i) w) d w (i + 8) count else (m, i))"
  by pat_completeness auto
termination
  by (relation "measure (\<lambda>(m, d, w, i, count). count - i)") auto

function memset_tail :: "mem \<Rightarrow> nat \<Rightarrow> u8 \<Rightarrow> nat \<Rightarrow> nat \<Rightarrow> mem" where
  "memset_tail m d b i count =
     (if i < count then memset_tail (m(d + i := b)) d b (i + 1) count else m)"
  by pat_completeness auto
termination
  by (relation "measure (\<lambda>(m, d, b, i, count). count - i)") auto

definition memset :: "mem \<Rightarrow> nat \<Rightarrow> u32 \<Rightarrow> nat \<Rightarrow> mem" where
  "memset m d val count =
     (let b = (ucast val :: u8);
          w = (0x0101010101010101 :: u64) * ucast b;
          (m', i) = memset_wide m d w 0 count
      in memset_tail m' d b i count)"

function memcpy_wide :: "mem \<Rightarrow> nat \<Rightarrow> nat \<Rightarrow> nat \<Rightarrow> nat \<Rightarrow> mem \<times> nat" where
  "memcpy_wide m d s i count =
     (if i + 8 \<le> count
      then memcpy_wide (store64 m (d + i) (load64 m (s + i))) d s (i + 8) count else (m, i))"
  by pat_completeness auto
termination
  by (relation "measure (\<lambda>(m, d, s, i, count). count - i)") auto

function memcpy_tail :: "mem \<Rightarrow> nat \<Rightarrow> nat \<Rightarrow> nat \<Rightarrow> nat \<Rightarrow> mem" where
  "memcpy_tail m d s i count =
     (if i < count then memcpy_tail (m(d + i := m (s + i))) d s (i + 1) count else m)"
  by pat_completeness auto
termination
  by (relation "measure (\<lambda>(m, d, s, i, count). count - i)") auto

definition memcpy :: "mem \<Rightarrow> nat \<Rightarrow> nat \<Rightarrow> nat \<Rightarrow> mem" where
  "memcpy m d s count =
     (let (m', i) = memcpy_wide m d s 0 count in memcpy_tail m' d s i count)"

declare memset_wide.simps [simp del] memset_tail.simps [simp del]
declare memcpy_wide.simps [simp del] memcpy_tail.simps [simp del]

subsection \<open>The reference: byte-wise fill and copy\<close>

definition fill :: "mem \<Rightarrow> nat \<Rightarrow> u8 \<Rightarrow> nat \<Rightarrow> mem" where
  "fill m d b n = (\<lambda>x. if d \<le> x \<and> x < d + n then b else m x)"

definition copy :: "mem \<Rightarrow> nat \<Rightarrow> nat \<Rightarrow> nat \<Rightarrow> mem" where
  "copy m d s n = (\<lambda>x. if d \<le> x \<and> x < d + n then m (s + (x - d)) else m x)"

lemma bit_load64_lane:
  assumes "q < 8" and "r < 8"
  shows "bit (load64 m a) (8 * q + r) \<longleftrightarrow> bit (m (a + q)) r"
proof -
  from assms(1) consider "q = 0" | "q = 1" | "q = 2" | "q = 3" | "q = 4" | "q = 5" | "q = 6" | "q = 7"
    by linarith
  then show ?thesis
    by cases (use assms(2) in \<open>simp_all add: load64_def bit_simps\<close>)
qed

lemma bit_load64:
  assumes "n < 64"
  shows "bit (load64 m a) n \<longleftrightarrow> bit (m (a + n div 8)) (n mod 8)"
  using bit_load64_lane [of "n div 8" "n mod 8" m a] assms by simp

lemma load64_store64 [simp]: "load64 (store64 m a w) a = w"
proof (rule bit_word_eqI)
  fix n assume "n < LENGTH(64)"
  then have n: "n < 64" by simp
  have "8 * (n div 8) + n mod 8 = n" by simp
  then show "bit (load64 (store64 m a w) a) n \<longleftrightarrow> bit w n"
    using n less_mult_imp_div_less [of n 8 8] by (simp add: bit_load64 store64_def bit_simps)
qed

lemma load64_cong: "(\<And>k. k < 8 \<Longrightarrow> m (a + k) = m' (a + k)) \<Longrightarrow> load64 m a = load64 m' a"
  by (rule bit_word_eqI) (simp add: bit_load64)

lemma load64_store64_other: "a + 8 \<le> b \<or> b + 8 \<le> a \<Longrightarrow> load64 (store64 m b w) a = load64 m a"
  by (rule load64_cong) (auto simp: store64_def)

lemma store64_load64: "store64 m d (load64 m' s) = (\<lambda>x. if d \<le> x \<and> x < d + 8 then m' (s + (x - d)) else m x)"
proof
  fix x
  have "ucast (drop_bit (8 * (x - d)) (load64 m' s)) = m' (s + (x - d))" if "d \<le> x" "x < d + 8"
  proof (rule bit_word_eqI)
    fix n assume "n < LENGTH(8)"
    then have "n < 8" by simp
    with that have "bit (load64 m' s) (8 * (x - d) + n) \<longleftrightarrow> bit (m' (s + (x - d))) n"
      by (intro bit_load64_lane) auto
    then show "bit (ucast (drop_bit (8 * (x - d)) (load64 m' s)) :: u8) n \<longleftrightarrow> bit (m' (s + (x - d))) n"
      using \<open>n < 8\<close> by (simp add: bit_simps)
  qed
  then show "store64 m d (load64 m' s) x = (if d \<le> x \<and> x < d + 8 then m' (s + (x - d)) else m x)"
    by (simp add: store64_def)
qed

text \<open>Every byte of \<^verbatim>\<open>0x0101010101010101 * b\<close> is \<open>b\<close>.\<close>

lemma or_push8: "(ucast (b :: u8) :: u64) OR push_bit 8 w = ucast b + 256 * w"
proof -
  have "(ucast b :: u64) OR push_bit 8 w = ucast b + push_bit 8 w"
    by (rule disjunctive_add [symmetric]) (auto simp: bit_simps)
  then show ?thesis by (simp add: push_bit_eq_mult mult.commute)
qed

lemma splat_load: "load64 (\<lambda>_. b) a = 0x0101010101010101 * ucast b"
proof -
  have "load64 (\<lambda>_. b) a = ucast b OR push_bit 8 (ucast b OR push_bit 8 (ucast b OR push_bit 8 (ucast b
      OR push_bit 8 (ucast b OR push_bit 8 (ucast b OR push_bit 8 (ucast b OR push_bit 8 (ucast b)))))))"
    by (simp add: load64_def push_bit_or)
  then show ?thesis by (simp add: or_push8 algebra_simps)
qed

lemma store64_splat: "store64 m d (0x0101010101010101 * ucast b) = fill m d b 8"
  unfolding splat_load [of b d, symmetric] store64_load64 by (auto simp: fill_def)

subsection \<open>The optimised routines are the reference\<close>

lemma fill_fill: "fill (fill m d b i) (d + i) b k = fill m d b (i + k)"
  by (auto simp: fill_def fun_eq_iff)

lemma memset_wide_fill:
  "i \<le> count \<Longrightarrow> \<exists>j. memset_wide (fill m d b i) d (0x0101010101010101 * ucast b) i count = (fill m d b j, j)
      \<and> i \<le> j \<and> j \<le> count"
proof (induction "count - i" arbitrary: i rule: less_induct)
  case less
  show ?case
  proof (cases "i + 8 \<le> count")
    case True
    then have "count - (i + 8) < count - i" by simp
    then obtain j where "memset_wide (fill m d b (i + 8)) d (0x0101010101010101 * ucast b) (i + 8) count
        = (fill m d b j, j)" "i + 8 \<le> j" "j \<le> count"
      using less.hyps [of "i + 8"] True by blast
    with True show ?thesis
      by (subst memset_wide.simps) (auto simp: store64_splat fill_fill)
  next
    case False
    with less.prems show ?thesis
      by (subst memset_wide.simps) auto
  qed
qed

lemma memset_tail_fill:
  "i \<le> count \<Longrightarrow> memset_tail (fill m d b i) d b i count = fill m d b count"
proof (induction "count - i" arbitrary: i)
  case 0
  then show ?case by (subst memset_tail.simps) simp
next
  case (Suc k)
  have "(fill m d b i)(d + i := b) = fill m d b (i + 1)"
    by (auto simp: fill_def fun_eq_iff)
  with Suc show ?case
    by (subst memset_tail.simps) auto
qed

lemma memset_eq_fill: "memset m d val count = fill m d (ucast val) count"
proof -
  have "fill m d (ucast val :: u8) 0 = m" by (auto simp: fill_def fun_eq_iff)
  then obtain j where "memset_wide m d (0x0101010101010101 * ucast (ucast val :: u8)) 0 count
      = (fill m d (ucast val) j, j)" "j \<le> count"
    using memset_wide_fill [of 0 count m d "ucast val"] by auto
  then show ?thesis
    by (simp add: memset_def Let_def memset_tail_fill)
qed

text \<open>Copying forward is right when the areas are disjoint, and also when the destination starts at
  or below the source.\<close>

definition forward_ok :: "nat \<Rightarrow> nat \<Rightarrow> nat \<Rightarrow> bool" where
  "forward_ok d s n \<longleftrightarrow> d \<le> s \<or> s + n \<le> d"

lemma copy_prefix_src:
  assumes "forward_ok d s n" and "i \<le> k" and "k < n"
  shows "copy m d s i (s + k) = m (s + k)"
  using assms by (auto simp: copy_def forward_ok_def)

lemma memcpy_wide_copy:
  assumes "forward_ok d s count" and "i \<le> count"
  shows "\<exists>j. memcpy_wide (copy m d s i) d s i count = (copy m d s j, j) \<and> i \<le> j \<and> j \<le> count"
  using assms(2)
proof (induction "count - i" arbitrary: i rule: less_induct)
  case less
  show ?case
  proof (cases "i + 8 \<le> count")
    case True
    have "copy m d s i (s + i + (x - (d + i))) = m (s + (x - d))" if "d + i \<le> x" "x < d + i + 8" for x
      using copy_prefix_src [OF assms(1), of i "x - d" m] that True by (simp add: add.commute)
    then have "store64 (copy m d s i) (d + i) (load64 (copy m d s i) (s + i)) = copy m d s (i + 8)"
      unfolding store64_load64 by (auto simp: fun_eq_iff) (auto simp: copy_def)
    moreover have "count - (i + 8) < count - i" using True by simp
    then obtain j where "memcpy_wide (copy m d s (i + 8)) d s (i + 8) count = (copy m d s j, j)"
      "i + 8 \<le> j" "j \<le> count"
      using less.hyps [of "i + 8"] True by blast
    ultimately show ?thesis
      using True by (subst memcpy_wide.simps) auto
  next
    case False
    with less.prems show ?thesis
      by (subst memcpy_wide.simps) auto
  qed
qed

lemma memcpy_tail_copy:
  assumes "forward_ok d s count" and "i \<le> count"
  shows "memcpy_tail (copy m d s i) d s i count = copy m d s count"
  using assms(2)
proof (induction "count - i" arbitrary: i)
  case 0
  then show ?case by (subst memcpy_tail.simps) simp
next
  case (Suc k)
  have "copy m d s i (s + i) = m (s + i)"
    using copy_prefix_src [OF assms(1), of i i m] Suc by simp
  then have "(copy m d s i)(d + i := copy m d s i (s + i)) = copy m d s (i + 1)"
    by (auto simp: copy_def fun_eq_iff)
  with Suc show ?case
    by (subst memcpy_tail.simps) auto
qed

lemma memcpy_eq_copy:
  assumes "forward_ok d s count"
  shows "memcpy m d s count = copy m d s count"
proof -
  have "copy m d s 0 = m" by (auto simp: copy_def fun_eq_iff)
  then obtain j where "memcpy_wide m d s 0 count = (copy m d s j, j)" "j \<le> count"
    using memcpy_wide_copy [OF assms, of 0 m] by auto
  then show ?thesis
    using memcpy_tail_copy [OF assms] by (simp add: memcpy_def)
qed

subsection \<open>Properties\<close>

text \<open>C14. \<^const>\<open>memset\<close>, which writes eight bytes at a time and then a byte tail, sets exactly the
  \<open>count\<close> bytes at \<open>d\<close> to the low byte of the value and leaves every other byte alone.\<close>

theorem memset_fills:
  "memset m d val count x = (if d \<le> x \<and> x < d + count then ucast val else m x)"
  by (simp add: memset_eq_fill fill_def)

text \<open>C16. \<^const>\<open>memcpy\<close> copies exactly \<open>count\<close> bytes of the old memory when the areas do not overlap,
  and also when the destination starts at or below the source, although it moves eight bytes at a
  time.\<close>

theorem memcpy_copies:
  assumes "forward_ok d s count"
  shows "memcpy m d s count x = (if d \<le> x \<and> x < d + count then m (s + (x - d)) else m x)"
  by (simp add: memcpy_eq_copy [OF assms] copy_def)

theorem memcpy_copies_witness:
  "forward_ok 2 5 11 \<and> memcpy of_nat 2 5 11 7 = 10 \<and> memcpy of_nat 2 5 11 13 = 13"
  using memcpy_copies [of 2 5 11 of_nat 7] memcpy_copies [of 2 5 11 of_nat 13] by (simp add: forward_ok_def)

end
