(* ===== verification/Bitset.thy ===== *)
theory Bitset
  imports Prelude
begin

text \<open>
  The bitmap of \<^verbatim>\<open>include/bitset.h\<close> and \<^verbatim>\<open>src/bitset.c\<close>.

  The memory the bitmap occupies is the list of its 32-bit words; \<open>bs_size\<close> counts words. The
  abstract value is the set of indices whose bit is set (\<open>used_bits\<close>), and the operations are
  shown to act on it as insertion, removal and search for the least free index.
\<close>

record bitset =
  bs_start :: "u32 list"
  bs_size :: u32

definition DWORD_SZ :: u32 where
  "DWORD_SZ = 32"

text \<open>\<^verbatim>\<open>memset(start, 0, n)\<close> on a region seen as little-endian 32-bit words: the first \<open>n\<close>
  bytes become zero, which may end inside a word.\<close>

definition zero_bytes :: "u32 list \<Rightarrow> nat \<Rightarrow> u32 list" where
  "zero_bytes ws n =
     map (\<lambda>i. if 4 * i + 4 \<le> n then 0
              else if n \<le> 4 * i then ws ! i
              else ws ! i AND NOT (mask (8 * (n - 4 * i)))) [0..<length ws]"

definition bitset_init :: "u32 list \<Rightarrow> u32 \<Rightarrow> bitset" where
  "bitset_init mem sz =
     (let nwords = (sz + DWORD_SZ - 1) div DWORD_SZ;
          ws = zero_bytes mem (unat (sz div 8));
          ws' = (if sz mod DWORD_SZ \<noteq> 0
                 then ws[unat (sz div DWORD_SZ) := NOT (push_bit (unat (sz mod DWORD_SZ)) 1 - 1)]
                 else ws)
      in \<lparr>bs_start = ws', bs_size = nwords\<rparr>)"

definition bitset_set :: "bitset \<Rightarrow> u32 \<Rightarrow> bitset" where
  "bitset_set b index =
     (if index \<ge> DWORD_SZ * bs_size b then b
      else let w = unat (index div DWORD_SZ) in
        b\<lparr>bs_start := (bs_start b)[w := bs_start b ! w OR push_bit (unat (index mod DWORD_SZ)) 1]\<rparr>)"

definition bitset_clear :: "bitset \<Rightarrow> u32 \<Rightarrow> bitset" where
  "bitset_clear b index =
     (if index \<ge> DWORD_SZ * bs_size b then b
      else let w = unat (index div DWORD_SZ) in
        b\<lparr>bs_start := (bs_start b)[w := bs_start b ! w AND NOT (push_bit (unat (index mod DWORD_SZ)) 1)]\<rparr>)"

text \<open>The two nested loops of \<^verbatim>\<open>bitset_search\<close>.\<close>

definition search_word :: "u32 \<Rightarrow> nat option" where
  "search_word word = find (\<lambda>k. word AND push_bit k 1 = 0) [0..<32]"

fun search_from :: "u32 list \<Rightarrow> nat \<Rightarrow> u32" where
  "search_from [] i = -1"
| "search_from (w # ws) i =
     (if w \<noteq> 0xFFFFFFFF
      then (case search_word w of
              Some k \<Rightarrow> of_nat i * DWORD_SZ + of_nat k
            | None \<Rightarrow> search_from ws (Suc i))
      else search_from ws (Suc i))"

definition bitset_search :: "bitset \<Rightarrow> u32" where
  "bitset_search b = search_from (take (unat (bs_size b)) (bs_start b)) 0"

subsection \<open>The set a bitmap denotes\<close>

text \<open>A bitmap is well formed when its words are all there and its indices fit in 32 bits below
  the \<^verbatim>\<open>(uint32_t)-1\<close> sentinel.\<close>

definition nbits :: "bitset \<Rightarrow> nat" where
  "nbits b = 32 * unat (bs_size b)"

definition bitset_ok :: "bitset \<Rightarrow> bool" where
  "bitset_ok b \<longleftrightarrow> unat (bs_size b) \<le> length (bs_start b) \<and> nbits b < 2 ^ 32"

definition used_bits :: "bitset \<Rightarrow> nat set" where
  "used_bits b = {i. i < nbits b \<and> bit (bs_start b ! (i div 32)) (i mod 32)}"

definition free_bits :: "bitset \<Rightarrow> nat set" where
  "free_bits b = {i. i < nbits b \<and> \<not> bit (bs_start b ! (i div 32)) (i mod 32)}"

lemma free_bits_eq: "free_bits b = {..<nbits b} - used_bits b"
  by (auto simp: free_bits_def used_bits_def)

lemma finite_free_bits [simp]: "finite (free_bits b)"
  by (simp add: free_bits_eq)

lemma index_guard:
  assumes "bitset_ok b"
  shows "index \<ge> DWORD_SZ * bs_size b \<longleftrightarrow> nbits b \<le> unat index"
proof -
  have "unat (DWORD_SZ * bs_size b) = nbits b"
    using assms by (simp add: bitset_ok_def nbits_def DWORD_SZ_def unat_word_ariths)
  then show ?thesis by (simp add: word_le_nat_alt)
qed

lemma word_index: "unat (index div DWORD_SZ) = unat index div 32" "unat (index mod DWORD_SZ) = unat index mod 32"
  by (simp_all add: DWORD_SZ_def unat_div unat_mod)

lemma word_in_range: "bitset_ok b \<Longrightarrow> i < nbits b \<Longrightarrow> i div 32 < length (bs_start b)"
  by (auto simp: bitset_ok_def nbits_def)

lemma set_fields [simp]: "bs_size (bitset_set b i) = bs_size b" "bs_size (bitset_clear b i) = bs_size b"
  "length (bs_start (bitset_set b i)) = length (bs_start b)"
  "length (bs_start (bitset_clear b i)) = length (bs_start b)"
  by (simp_all add: bitset_set_def bitset_clear_def Let_def)

lemma nbits_set [simp]: "nbits (bitset_set b i) = nbits b" "nbits (bitset_clear b i) = nbits b"
  by (simp_all add: nbits_def)

lemma bitset_ok_set [preserves]: "bitset_ok b \<Longrightarrow> bitset_ok (bitset_set b i)"
  by (simp add: bitset_ok_def)

lemma bitset_ok_clear [preserves]: "bitset_ok b \<Longrightarrow> bitset_ok (bitset_clear b i)"
  by (simp add: bitset_ok_def)

lemma bit_power: "k < 32 \<Longrightarrow> bit (2 ^ k :: u32) n \<longleftrightarrow> n = k"
  by (auto simp: bit_simps)

lemma div_mod_eq_iff: "(i :: nat) = j \<longleftrightarrow> i div 32 = j div 32 \<and> i mod 32 = j mod 32"
  by (metis div_mult_mod_eq)

lemma bit_at_set:
  assumes "bitset_ok b" and "unat i < nbits b" and "n < nbits b"
  shows "bit (bs_start (bitset_set b i) ! (n div 32)) (n mod 32) \<longleftrightarrow>
     n = unat i \<or> bit (bs_start b ! (n div 32)) (n mod 32)"
  using assms word_in_range [OF assms(1,2)] word_in_range [OF assms(1,3)]
  by (auto simp: bitset_set_def index_guard Let_def word_index bit_or_iff bit_power nth_list_update
      div_mod_eq_iff [of n "unat i"])

lemma bit_at_clear:
  assumes "bitset_ok b" and "unat i < nbits b" and "n < nbits b"
  shows "bit (bs_start (bitset_clear b i) ! (n div 32)) (n mod 32) \<longleftrightarrow>
     n \<noteq> unat i \<and> bit (bs_start b ! (n div 32)) (n mod 32)"
  using assms word_in_range [OF assms(1,2)] word_in_range [OF assms(1,3)]
  by (auto simp: bitset_clear_def index_guard Let_def word_index bit_and_iff bit_not_iff bit_power
      nth_list_update div_mod_eq_iff [of n "unat i"])

lemma used_bits_set:
  "bitset_ok b \<Longrightarrow> unat i < nbits b \<Longrightarrow> used_bits (bitset_set b i) = insert (unat i) (used_bits b)"
  by (auto simp: used_bits_def bit_at_set)

lemma used_bits_clear:
  "bitset_ok b \<Longrightarrow> unat i < nbits b \<Longrightarrow> used_bits (bitset_clear b i) = used_bits b - {unat i}"
  by (auto simp: used_bits_def bit_at_clear)

lemma used_bits_out_of_range:
  "bitset_ok b \<Longrightarrow> nbits b \<le> unat i \<Longrightarrow> bitset_set b i = b \<and> bitset_clear b i = b"
  by (simp add: bitset_set_def bitset_clear_def index_guard)

subsection \<open>Search\<close>

lemma word_bit_test: "(word :: u32) AND 2 ^ k = 0 \<longleftrightarrow> \<not> bit word k"
  by (rule and_exp_eq_0_iff_not_bit)

lemma search_word_None: "search_word w = None \<longleftrightarrow> w = 0xFFFFFFFF"
proof -
  have "search_word w = None \<longleftrightarrow> (\<forall>k<32. bit w k)"
    by (auto simp: search_word_def find_upt_None word_bit_test)
  also have "\<dots> \<longleftrightarrow> w = -1"
    by (auto simp: bit_simps intro!: bit_word_eqI)
  also have "(-1 :: u32) = 0xFFFFFFFF" by simp
  finally show ?thesis .
qed

lemma search_word_Some:
  "search_word w = Some k \<longleftrightarrow> k < 32 \<and> \<not> bit w k \<and> (\<forall>j<k. bit w j)"
  by (auto simp: search_word_def find_upt_Some word_bit_test)

lemma search_from_full: "(\<forall>w\<in>set ws. w = 0xFFFFFFFF) \<Longrightarrow> search_from ws i = -1"
  by (induction ws arbitrary: i) auto

lemma search_from_free:
  assumes "j < length ws" and "k < 32" and "\<not> bit (ws ! j) k"
    and "\<forall>n < 32 * j + k. bit (ws ! (n div 32)) (n mod 32)"
  shows "search_from ws i = of_nat (32 * (i + j) + k)"
  using assms
proof (induction ws arbitrary: i j)
  case Nil
  then show ?case by simp
next
  case (Cons w ws)
  show ?case
  proof (cases j)
    case 0
    have "\<forall>n<k. bit w n"
      using Cons.prems 0 by auto
    with Cons.prems 0 have "search_word w = Some k"
      by (simp add: search_word_Some)
    then show ?thesis
      using 0 search_word_None [of w] by (simp add: DWORD_SZ_def)
  next
    case (Suc j')
    have full: "bit w n" if "n < 32" for n
      using Cons.prems(4) that Suc by (auto dest!: spec [of _ n])
    then have "search_word w = None"
      by (auto simp: search_word_def find_None_iff word_bit_test)
    moreover have "\<forall>n < 32 * j' + k. bit (ws ! (n div 32)) (n mod 32)"
    proof (intro allI impI)
      fix n assume "n < 32 * j' + k"
      with Cons.prems(4) Suc have "bit ((w # ws) ! ((n + 32) div 32)) ((n + 32) mod 32)"
        by (auto dest!: spec [of _ "n + 32"])
      moreover have "(n + 32) div 32 = Suc (n div 32)" by simp
      ultimately show "bit (ws ! (n div 32)) (n mod 32)" by simp
    qed
    ultimately show ?thesis
      using Cons.IH [of j' "Suc i"] Cons.prems Suc by (simp add: search_word_None)
  qed
qed

lemma bitset_search_full:
  assumes "bitset_ok b" and "free_bits b = {}"
  shows "bitset_search b = -1"
proof -
  have "w = 0xFFFFFFFF" if "w \<in> set (take (unat (bs_size b)) (bs_start b))" for w
  proof -
    from that obtain j where j: "j < unat (bs_size b)" "j < length (bs_start b)" "w = bs_start b ! j"
      by (auto simp: in_set_conv_nth)
    have "bit w k" if "k < 32" for k
    proof -
      have "32 * j + k < nbits b" using j that by (simp add: nbits_def)
      then have "bit (bs_start b ! ((32 * j + k) div 32)) ((32 * j + k) mod 32)"
        using assms(2) by (auto simp: free_bits_def)
      then show ?thesis using j that by simp
    qed
    then have "search_word w = None"
      by (auto simp: search_word_def find_None_iff word_bit_test)
    then show ?thesis by (simp add: search_word_None)
  qed
  then show ?thesis
    by (simp add: bitset_search_def search_from_full)
qed

lemma bitset_search_least:
  assumes "bitset_ok b" and "free_bits b \<noteq> {}"
  shows "unat (bitset_search b) = Min (free_bits b)"
proof -
  define m where "m = Min (free_bits b)"
  have m: "m \<in> free_bits b" using assms(2) by (simp add: m_def)
  have less: "n \<notin> free_bits b" if "n < m" for n
    using that by (auto simp: m_def dest: Min_le [OF finite_free_bits])
  have ws: "m div 32 < length (take (unat (bs_size b)) (bs_start b))"
    using m assms(1) by (auto simp: free_bits_def nbits_def bitset_ok_def)
  have "search_from (take (unat (bs_size b)) (bs_start b)) 0 = of_nat (32 * (0 + m div 32) + m mod 32)"
  proof (rule search_from_free)
    show "\<not> bit (take (unat (bs_size b)) (bs_start b) ! (m div 32)) (m mod 32)"
      using m ws by (simp add: free_bits_def)
    show "\<forall>n<32 * (m div 32) + m mod 32. bit (take (unat (bs_size b)) (bs_start b) ! (n div 32)) (n mod 32)"
    proof (intro allI impI)
      fix n assume "n < 32 * (m div 32) + m mod 32"
      then have "n < m" by simp
      moreover from this m have "n < nbits b" by (simp add: free_bits_def)
      ultimately show "bit (take (unat (bs_size b)) (bs_start b) ! (n div 32)) (n mod 32)"
        using less [of n] by (auto simp: free_bits_def nbits_def)
    qed
  qed (use ws in simp_all)
  then have "bitset_search b = of_nat m"
    by (simp add: bitset_search_def del: of_nat_add of_nat_mult)
  moreover have "m < 2 ^ 32"
    using m assms(1) by (simp add: free_bits_def bitset_ok_def)
  ultimately show ?thesis
    by (simp add: m_def unat_of_nat)
qed

subsection \<open>Initialisation\<close>

lemma length_zero_bytes [simp]: "length (zero_bytes ws n) = length ws"
  by (simp add: zero_bytes_def)

lemma zero_bytes_whole: "j < length ws \<Longrightarrow> 4 * j + 4 \<le> n \<Longrightarrow> zero_bytes ws n ! j = 0"
  by (simp add: zero_bytes_def)

lemma init_size:
  assumes "unat sz + 31 < 2 ^ 32"
  shows "unat (bs_size (bitset_init mem sz)) = (unat sz + 31) div 32"
proof -
  have "unat (31 + sz) = unat sz + 31"
    using assms by (simp add: unat_word_ariths)
  then show ?thesis
    by (simp add: bitset_init_def Let_def DWORD_SZ_def unat_div)
qed

lemma nbits_init: "unat sz + 31 < 2 ^ 32 \<Longrightarrow> nbits (bitset_init mem sz) = 32 * ((unat sz + 31) div 32)"
  by (simp add: nbits_def init_size)

lemma bitset_ok_init:
  assumes "unat sz + 31 < 2 ^ 32" and "(unat sz + 31) div 32 \<le> length mem"
  shows "bitset_ok (bitset_init mem sz)"
proof -
  have "unat (bs_size (bitset_init mem sz)) \<le> length (bs_start (bitset_init mem sz))"
    using assms by (simp add: init_size) (simp add: bitset_init_def Let_def)
  then show ?thesis
    using assms by (simp add: bitset_ok_def nbits_init)
qed

lemma ceil_div32: "((n :: nat) + 31) div 32 = n div 32 + (if n mod 32 = 0 then 0 else 1)"
proof -
  obtain q r where "n = 32 * q + r" "r < 32"
    by (metis mod_less_divisor mult_div_mod_eq zero_less_numeral)
  then show ?thesis by (cases "r = 0") auto
qed

lemma bit_tail_word: "k < 32 \<Longrightarrow> bit (NOT (2 ^ r - 1) :: u32) k \<longleftrightarrow> r \<le> k"
  by (auto simp: bit_simps simp flip: mask_eq_exp_minus_1)

text \<open>Exactly the padding bits of the last word start out used, whatever the memory held before.\<close>

lemma used_bits_init:
  assumes "unat sz + 31 < 2 ^ 32" and "(unat sz + 31) div 32 \<le> length mem"
  shows "used_bits (bitset_init mem sz) = {unat sz..<nbits (bitset_init mem sz)}"
proof -
  have "bit (bs_start (bitset_init mem sz) ! (i div 32)) (i mod 32) \<longleftrightarrow> unat sz \<le> i"
    if i: "i < nbits (bitset_init mem sz)" for i
  proof -
    have j: "i div 32 < length mem"
      using i assms by (simp add: nbits_init)
    have szs: "unat (sz mod DWORD_SZ) = unat sz mod 32" "unat (sz div DWORD_SZ) = unat sz div 32"
      "unat (sz div 8) = unat sz div 8"
      by (simp_all add: word_index) (simp add: unat_div)
    have z: "sz mod DWORD_SZ = 0 \<longleftrightarrow> unat sz mod 32 = 0"
      by (metis szs(1) unat_eq_0)
    show ?thesis
    proof (cases "i div 32 < unat sz div 32")
      case True
      then have "4 * (i div 32) + 4 \<le> unat sz div 8" by linarith
      moreover have "i < unat sz" using True by linarith
      ultimately show ?thesis
        using True j by (simp add: bitset_init_def Let_def szs zero_bytes_whole)
    next
      case False
      have "i div 32 < (unat sz + 31) div 32"
        using i assms(1) by (simp add: nbits_init less_mult_imp_div_less mult.commute)
      with False have eq: "i div 32 = unat sz div 32" "unat sz mod 32 \<noteq> 0"
        by (simp_all add: ceil_div32 split: if_splits)
      then have "unat sz \<le> i \<longleftrightarrow> unat sz mod 32 \<le> i mod 32"
        by (metis add_le_cancel_left div_mult_mod_eq)
      then show ?thesis
        using eq j by (simp add: bitset_init_def Let_def szs z bit_tail_word)
    qed
  qed
  then show ?thesis by (auto simp: used_bits_def)
qed

lemma free_bits_init:
  assumes "unat sz + 31 < 2 ^ 32" and "(unat sz + 31) div 32 \<le> length mem"
  shows "free_bits (bitset_init mem sz) = {..<unat sz}"
proof -
  have "unat sz \<le> nbits (bitset_init mem sz)"
    using assms(1) by (simp add: nbits_init)
  then show ?thesis
    by (auto simp: free_bits_eq used_bits_init [OF assms])
qed

subsection \<open>Properties\<close>

text \<open>C29. \<^const>\<open>bitset_search\<close> returns the least free index of a bitmap, and \<^verbatim>\<open>(uint32_t)-1\<close> exactly
  when every bit is used.\<close>

theorem bitset_search_first_free:
  assumes "bitset_ok b"
  shows "if free_bits b = {} then bitset_search b = -1 else unat (bitset_search b) = Min (free_bits b)"
  using bitset_search_full [OF assms] bitset_search_least [OF assms] by simp

theorem bitset_search_first_free_witness:
  "bitset_ok \<lparr>bs_start = [0xFFFFFFFF, 5], bs_size = 2\<rparr>
     \<and> bitset_search \<lparr>bs_start = [0xFFFFFFFF, 5], bs_size = 2\<rparr> = 33
     \<and> Min (free_bits \<lparr>bs_start = [0xFFFFFFFF, 5], bs_size = 2\<rparr>) = 33"
proof -
  define b where "b = \<lparr>bs_start = [0xFFFFFFFF :: u32, 5], bs_size = 2 :: u32\<rparr>"
  have ok: "bitset_ok b" by (simp add: b_def bitset_ok_def nbits_def)
  have s: "bitset_search b = 33"
    by (simp add: b_def bitset_search_def search_word_def upt_rec DWORD_SZ_def)
  have "bit (5 :: u32) 1 = False" by simp
  then have "33 \<in> free_bits b" by (simp add: b_def free_bits_def used_bits_def nbits_def)
  then show ?thesis using ok s bitset_search_first_free [OF ok] by (auto simp: b_def split: if_splits)
qed

end
