(* ===== verification/Frames.thy ===== *)
theory Frames
  imports Bitset
begin

text \<open>
  The physical frame allocator (\<^verbatim>\<open>include/frames.h\<close>, \<^verbatim>\<open>src/frames.c\<close>): a bitmap over one
  contiguous physical region, stored in the first frames of that region.

  The file's static variables are the fields of \<open>frames\<close>. \<^verbatim>\<open>kernel_panic\<close> does not return; it is
  the left side of the result type.
\<close>

type_synonym 'a outcome = "string + 'a"

record frames =
  fr_b :: bitset
  mem_start :: u64
  total_count :: u32
  managed_count :: u32

definition FRAME_SZ :: u64 where
  "FRAME_SZ = 0x1000"

definition FRAME_ALIGN :: "u64 \<Rightarrow> u64" where
  "FRAME_ALIGN x = (x + FRAME_SZ - 1) AND NOT 0xFFF"

text \<open>\<open>region\<close> is the memory at the start of the region, where the bitmap goes.\<close>

definition frames_init :: "u32 list \<Rightarrow> u64 \<Rightarrow> u64 \<Rightarrow> frames" where
  "frames_init region phys_base len =
     (let base = FRAME_ALIGN phys_base;
          nframes = (ucast (len div FRAME_SZ) :: u32);
          b = bitset_init region nframes;
          meta_bytes = (4 * ucast (bs_size b) :: u64);
          needed = (ucast ((meta_bytes + FRAME_SZ - 1) div FRAME_SZ) :: u32);
          b' = fold (\<lambda>i b. bitset_set b (of_nat i)) [0..<unat needed] b
      in \<lparr>fr_b = b', mem_start = base,
          total_count = nframes - needed, managed_count = nframes - needed\<rparr>)"

definition frames_total :: "frames \<Rightarrow> u64" where
  "frames_total f = ucast (managed_count f)"

definition frame_alloc :: "frames \<Rightarrow> (u64 \<times> frames) outcome" where
  "frame_alloc f =
     (let offset = bitset_search (fr_b f) in
      if offset = -1 then Inl ''No frames available to use''
      else Inr (mem_start f + FRAME_SZ * ucast offset,
                f\<lparr>fr_b := bitset_set (fr_b f) offset, total_count := total_count f - 1\<rparr>))"

definition frame_free :: "frames \<Rightarrow> u64 \<Rightarrow> frames outcome" where
  "frame_free f frame =
     (if frame < mem_start f then Inl ''Attempted to free an invalid frame''
      else let offset = (ucast ((frame - mem_start f) div FRAME_SZ) :: u32) in
        Inr (f\<lparr>fr_b := bitset_clear (fr_b f) offset, total_count := total_count f + 1\<rparr>))"

definition frames_available :: "frames \<Rightarrow> u64" where
  "frames_available f = ucast (total_count f)"

subsection \<open>Invariant\<close>

text \<open>The bitmap is well formed, every frame address fits below \<open>2 ^ 64\<close>, and the counter agrees
  with the bitmap.\<close>

definition frames_ok :: "frames \<Rightarrow> bool" where
  "frames_ok f \<longleftrightarrow> bitset_ok (fr_b f)
     \<and> unat (mem_start f) + 4096 * nbits (fr_b f) \<le> 2 ^ 64
     \<and> unat (total_count f) = card (free_bits (fr_b f))"

text \<open>The physical address of frame \<open>i\<close>.\<close>

definition frame_addr :: "frames \<Rightarrow> nat \<Rightarrow> u64" where
  "frame_addr f i = mem_start f + FRAME_SZ * of_nat i"

lemma unat_frame_scale: "4096 * i < 2 ^ 64 \<Longrightarrow> unat (FRAME_SZ * of_nat i :: u64) = 4096 * i"
  by (simp add: FRAME_SZ_def unat_mult_small unat_of_nat_small)

lemma unat_frame_addr:
  assumes "frames_ok f" and "i < nbits (fr_b f)"
  shows "unat (frame_addr f i) = unat (mem_start f) + 4096 * i"
proof -
  have "unat (mem_start f) + 4096 * i < 2 ^ 64"
    using assms by (auto simp: frames_ok_def)
  then show ?thesis
    by (simp add: frame_addr_def unat_add_small unat_frame_scale)
qed

lemma frame_addr_offset:
  assumes "frames_ok f" and "i < nbits (fr_b f)"
  shows "(ucast ((frame_addr f i - mem_start f) div FRAME_SZ) :: u32) = of_nat i"
    and "\<not> frame_addr f i < mem_start f"
proof -
  have "unat (mem_start f) + 4096 * i < 2 ^ 64"
    using assms by (auto simp: frames_ok_def)
  then have "unat (FRAME_SZ * of_nat i) = 4096 * i"
    by (simp add: unat_frame_scale)
  then have "unat ((FRAME_SZ * of_nat i) div FRAME_SZ) = i"
    by (simp add: FRAME_SZ_def unat_div)
  then have "unat ((frame_addr f i - mem_start f) div FRAME_SZ) = i"
    by (simp add: frame_addr_def)
  then show "(ucast ((frame_addr f i - mem_start f) div FRAME_SZ) :: u32) = of_nat i"
    by (metis of_nat_unat)
  show "\<not> frame_addr f i < mem_start f"
    using unat_frame_addr [OF assms] by (simp add: word_less_nat_alt)
qed

lemma free_bits_set:
  "bitset_ok b \<Longrightarrow> unat i < nbits b \<Longrightarrow> free_bits (bitset_set b i) = free_bits b - {unat i}"
  by (auto simp: free_bits_eq used_bits_set)

lemma free_bits_clear:
  "bitset_ok b \<Longrightarrow> unat i < nbits b \<Longrightarrow> free_bits (bitset_clear b i) = insert (unat i) (free_bits b)"
  by (auto simp: free_bits_eq used_bits_clear)

subsection \<open>Allocation and release\<close>

lemma search_in_free:
  assumes "bitset_ok b" and "free_bits b \<noteq> {}"
  shows "unat (bitset_search b) \<in> free_bits b" and "bitset_search b \<noteq> -1"
proof -
  show mem: "unat (bitset_search b) \<in> free_bits b"
    using assms by (simp add: bitset_search_least)
  have "unat (bitset_search b) < 2 ^ 32 - 31"
    using mem assms(1) by (auto simp: free_bits_def bitset_ok_def nbits_def)
  then show "bitset_search b \<noteq> -1" by auto
qed

lemma frame_alloc_panics:
  "frames_ok f \<Longrightarrow> (\<exists>m. frame_alloc f = Inl m) \<longleftrightarrow> free_bits (fr_b f) = {}"
  using search_in_free [of "fr_b f"] bitset_search_full [of "fr_b f"]
  by (auto simp: frame_alloc_def Let_def frames_ok_def)

lemma frame_alloc_Inr:
  assumes "frames_ok f" and "frame_alloc f = Inr (a, f')"
  shows "\<exists>i. i = Min (free_bits (fr_b f)) \<and> i \<in> free_bits (fr_b f) \<and> a = frame_addr f i
      \<and> free_bits (fr_b f') = free_bits (fr_b f) - {i} \<and> nbits (fr_b f') = nbits (fr_b f)
      \<and> mem_start f' = mem_start f"
proof -
  have ok: "bitset_ok (fr_b f)" using assms(1) by (simp add: frames_ok_def)
  have ne: "free_bits (fr_b f) \<noteq> {}"
    using assms frame_alloc_panics [OF assms(1)] by fastforce
  note s = search_in_free [OF ok ne]
  have "a = frame_addr f (unat (bitset_search (fr_b f)))"
    and "f' = f\<lparr>fr_b := bitset_set (fr_b f) (bitset_search (fr_b f)), total_count := total_count f - 1\<rparr>"
    using assms(2) s(2) by (auto simp: frame_alloc_def Let_def frame_addr_def)
  moreover have "unat (bitset_search (fr_b f)) < nbits (fr_b f)"
    using s(1) by (simp add: free_bits_def)
  ultimately show ?thesis
    using s(1) ok bitset_search_least [OF ok ne] by (simp add: free_bits_set)
qed

lemma frames_ok_alloc [preserves]:
  assumes "frames_ok f" and "frame_alloc f = Inr (a, f')"
  shows "frames_ok f'"
proof -
  obtain i where i: "i \<in> free_bits (fr_b f)" "free_bits (fr_b f') = free_bits (fr_b f) - {i}"
    using frame_alloc_Inr [OF assms] by blast
  have f': "fr_b f' = bitset_set (fr_b f) (bitset_search (fr_b f))" "total_count f' = total_count f - 1"
    "mem_start f' = mem_start f"
    using assms(2) by (auto simp: frame_alloc_def Let_def split: if_splits)
  have "0 < unat (total_count f)"
    using assms(1) i(1) by (auto simp: frames_ok_def card_gt_0_iff)
  then have "unat (total_count f') = unat (total_count f) - 1"
    unfolding f'(2) by (metis gr_implies_not0 unat_eq_0 unat_minus_one)
  then show ?thesis
    using assms(1) i by (simp add: frames_ok_def f' bitset_ok_set)
qed

lemma frame_free_Inr:
  assumes "frames_ok f" and "i < nbits (fr_b f)"
  shows "\<exists>f'. frame_free f (frame_addr f i) = Inr f'
      \<and> free_bits (fr_b f') = insert i (free_bits (fr_b f)) \<and> mem_start f' = mem_start f
      \<and> nbits (fr_b f') = nbits (fr_b f) \<and> total_count f' = total_count f + 1 \<and> bitset_ok (fr_b f')"
proof -
  have "i < 2 ^ 32" and ok: "bitset_ok (fr_b f)"
    using assms by (simp_all add: frames_ok_def bitset_ok_def)
  then have "unat (of_nat i :: u32) = i" by (simp add: unat_of_nat)
  then show ?thesis
    using assms ok
    by (simp add: frame_free_def frame_addr_offset Let_def free_bits_clear bitset_ok_clear)
qed

lemma frames_ok_free [preserves]:
  assumes "frames_ok f" and "i < nbits (fr_b f)" and "i \<notin> free_bits (fr_b f)"
    and "frame_free f (frame_addr f i) = Inr f'"
  shows "frames_ok f'"
proof -
  have free: "free_bits (fr_b f') = insert i (free_bits (fr_b f))" "mem_start f' = mem_start f"
    "nbits (fr_b f') = nbits (fr_b f)" "total_count f' = total_count f + 1" "bitset_ok (fr_b f')"
    using frame_free_Inr [OF assms(1,2)] assms(4) by auto
  have "card (free_bits (fr_b f')) \<le> card {..<nbits (fr_b f)}"
    by (rule card_mono) (auto simp: free_bits_def free(3) [symmetric])
  then have "Suc (unat (total_count f)) < 2 ^ 32"
    using assms(1,3) free(1) by (simp add: frames_ok_def bitset_ok_def)
  then have "unat (total_count f + 1) = Suc (unat (total_count f))"
    by (simp add: unat_word_ariths)
  then show ?thesis
    using assms(1,3) free by (simp add: frames_ok_def)
qed

subsection \<open>Initialisation\<close>

lemma fold_set_bits:
  assumes "bitset_ok b" and "n \<le> nbits b"
  shows "bitset_ok (fold (\<lambda>i b. bitset_set b (of_nat i)) [0..<n] b)
    \<and> nbits (fold (\<lambda>i b. bitset_set b (of_nat i)) [0..<n] b) = nbits b
    \<and> free_bits (fold (\<lambda>i b. bitset_set b (of_nat i)) [0..<n] b) = free_bits b - {..<n}"
  using assms(2)
proof (induction n)
  case 0
  then show ?case using assms(1) by simp
next
  case (Suc n)
  define b' where "b' = fold (\<lambda>i b. bitset_set b (of_nat i)) [0..<n] b"
  have b': "bitset_ok b'" "nbits b' = nbits b" "free_bits b' = free_bits b - {..<n}"
    using Suc by (simp_all add: b'_def)
  have "n < 2 ^ 32" using Suc.prems assms(1) by (simp add: bitset_ok_def)
  then have n: "unat (of_nat n :: u32) = n" by (simp add: unat_of_nat_small)
  have "free_bits (bitset_set b' (of_nat n)) = free_bits b' - {n}"
    using free_bits_set [of b' "of_nat n"] b'(1,2) Suc.prems by (simp only: n)
  then show ?case
    using b' by (simp add: bitset_ok_set lessThan_Suc flip: b'_def) blast
qed

definition init_frames :: "u64 \<Rightarrow> nat" where
  "init_frames len = unat len div 4096"

definition init_meta :: "u64 \<Rightarrow> nat" where
  "init_meta len = (4 * ((init_frames len + 31) div 32) + 4095) div 4096"

lemma frames_init_state:
  assumes "init_frames len + 31 < 2 ^ 32" and "(init_frames len + 31) div 32 \<le> length region"
    and "init_meta len \<le> init_frames len"
  shows "bitset_ok (fr_b (frames_init region phys_base len))"
    and "free_bits (fr_b (frames_init region phys_base len)) = {init_meta len..<init_frames len}"
    and "nbits (fr_b (frames_init region phys_base len)) = 32 * ((init_frames len + 31) div 32)"
    and "unat (total_count (frames_init region phys_base len)) = init_frames len - init_meta len"
    and "mem_start (frames_init region phys_base len) = FRAME_ALIGN phys_base"
proof -
  define nframes where "nframes = (ucast (len div FRAME_SZ) :: u32)"
  have nf: "unat nframes = init_frames len"
    unfolding nframes_def
    by (subst unat_ucast_small) (use assms(1) in \<open>simp_all add: init_frames_def FRAME_SZ_def unat_div\<close>)
  define b where "b = bitset_init region nframes"
  have b: "bitset_ok b" "free_bits b = {..<init_frames len}"
    "unat (bs_size b) = (init_frames len + 31) div 32" "nbits b = 32 * ((init_frames len + 31) div 32)"
    using assms(1,2) nf bitset_ok_init [of nframes region] free_bits_init [of nframes region]
      init_size [of nframes region] nbits_init [of nframes region] by (simp_all add: b_def)
  have "unat (4 * ucast (bs_size b) :: u64) = 4 * unat (bs_size b)"
    by (subst unat_mult_small) (use unat_u32_lt [of "bs_size b"] in simp_all)
  then have sum: "unat (4 * ucast (bs_size b) + 4095 :: u64) = 4 * unat (bs_size b) + 4095"
    by (subst unat_add_small) (use unat_u32_lt [of "bs_size b"] in simp_all)
  have "unat ((4 * ucast (bs_size b) + 4095 :: u64) div FRAME_SZ) = init_meta len"
    unfolding unat_div sum b(3) by (simp add: FRAME_SZ_def init_meta_def)
  moreover have "4 * ucast (bs_size b) + FRAME_SZ - 1 = (4 * ucast (bs_size b) + 4095 :: u64)"
    by (simp add: FRAME_SZ_def)
  ultimately have m: "unat ((4 * ucast (bs_size b) + FRAME_SZ - 1 :: u64) div FRAME_SZ) = init_meta len"
    by (simp only:)
  have need: "unat (ucast ((4 * ucast (bs_size b) + FRAME_SZ - 1 :: u64) div FRAME_SZ) :: u32) = init_meta len"
    by (subst unat_ucast_small) (use m assms(1,3) in simp_all)
  have le: "init_meta len \<le> nbits b"
    using assms(3) b(4) by simp
  note f = fold_set_bits [OF b(1) le]
  have eq: "frames_init region phys_base len =
      \<lparr>fr_b = fold (\<lambda>i b. bitset_set b (of_nat i)) [0..<init_meta len] b, mem_start = FRAME_ALIGN phys_base,
       total_count = nframes - ucast ((4 * ucast (bs_size b) + FRAME_SZ - 1 :: u64) div FRAME_SZ),
       managed_count = nframes - ucast ((4 * ucast (bs_size b) + FRAME_SZ - 1 :: u64) div FRAME_SZ)\<rparr>"
    by (simp add: frames_init_def Let_def need flip: nframes_def b_def)
  show "bitset_ok (fr_b (frames_init region phys_base len))"
    and "free_bits (fr_b (frames_init region phys_base len)) = {init_meta len..<init_frames len}"
    and "nbits (fr_b (frames_init region phys_base len)) = 32 * ((init_frames len + 31) div 32)"
    and "mem_start (frames_init region phys_base len) = FRAME_ALIGN phys_base"
    using f b by (auto simp: eq)
  show "unat (total_count (frames_init region phys_base len)) = init_frames len - init_meta len"
    using assms(3) nf need by (simp add: eq unat_sub word_le_nat_alt)
qed

lemma frames_ok_init:
  assumes "init_frames len + 31 < 2 ^ 32" and "(init_frames len + 31) div 32 \<le> length region"
    and "init_meta len \<le> init_frames len"
    and "unat (FRAME_ALIGN phys_base) + 4096 * (init_frames len + 31) \<le> 2 ^ 64"
  shows "frames_ok (frames_init region phys_base len)"
proof -
  have "32 * ((init_frames len + 31) div 32) \<le> init_frames len + 31" by simp
  then have "4096 * (32 * ((init_frames len + 31) div 32)) \<le> 4096 * (init_frames len + 31)"
    by (rule mult_le_mono2)
  then have "unat (FRAME_ALIGN phys_base) + 4096 * (32 * ((init_frames len + 31) div 32)) \<le> 2 ^ 64"
    by (rule order_trans [OF add_left_mono assms(4)])
  then show ?thesis
    using frames_init_state [OF assms(1-3)] by (simp add: frames_ok_def)
qed

subsection \<open>The contract of a frame source\<close>

text \<open>What the paging code relies on when it calls \<^verbatim>\<open>frame_alloc\<close>: the address returned was
  available and is not handed out again, allocation succeeds while anything is available, and a
  frame given back becomes available.\<close>

locale frame_source =
  fixes ok :: "'s \<Rightarrow> bool"
    and avail :: "'s \<Rightarrow> u64 set"
    and region :: "'s \<Rightarrow> u64 set"
    and get :: "'s \<Rightarrow> (u64 \<times> 's) outcome"
    and put :: "'s \<Rightarrow> u64 \<Rightarrow> 's outcome"
  assumes get_ok: "ok s \<Longrightarrow> get s = Inr (a, s') \<Longrightarrow> ok s'"
    and get_fresh: "ok s \<Longrightarrow> get s = Inr (a, s') \<Longrightarrow> a \<in> avail s \<and> avail s' = avail s - {a}"
    and get_region: "ok s \<Longrightarrow> get s = Inr (a, s') \<Longrightarrow> region s' = region s"
    and get_succeeds: "ok s \<Longrightarrow> avail s \<noteq> {} \<Longrightarrow> \<exists>a s'. get s = Inr (a, s')"
    and put_back: "ok s \<Longrightarrow> a \<in> region s - avail s \<Longrightarrow>
      \<exists>s'. put s a = Inr s' \<and> ok s' \<and> avail s' = insert a (avail s) \<and> region s' = region s"
    and avail_region: "ok s \<Longrightarrow> avail s \<subseteq> region s"
    and avail_finite: "ok s \<Longrightarrow> finite (avail s)"

text \<open>Allocating \<open>n\<close> frames one after the other, as the loops of \<^verbatim>\<open>paging_init\<close> do.\<close>

fun get_many :: "('s \<Rightarrow> (u64 \<times> 's) outcome) \<Rightarrow> nat \<Rightarrow> 's \<Rightarrow> (u64 list \<times> 's) outcome" where
  "get_many get 0 s = Inr ([], s)"
| "get_many get (Suc n) s =
     (case get s of Inl e \<Rightarrow> Inl e
      | Inr (a, s') \<Rightarrow> (case get_many get n s' of Inl e \<Rightarrow> Inl e
                       | Inr (as, s'') \<Rightarrow> Inr (a # as, s'')))"

context frame_source
begin

lemma get_many_fresh:
  "ok s \<Longrightarrow> get_many get n s = Inr (as, s') \<Longrightarrow>
   ok s' \<and> distinct as \<and> length as = n \<and> set as \<subseteq> avail s \<and> avail s' = avail s - set as"
proof (induction n arbitrary: s as)
  case 0
  then show ?case by simp
next
  case (Suc n)
  then obtain a s1 bs where step: "get s = Inr (a, s1)" "get_many get n s1 = Inr (bs, s')" "as = a # bs"
    by (auto split: sum.splits prod.splits)
  from Suc.prems(1) step(1) have s1: "ok s1" "a \<in> avail s" "avail s1 = avail s - {a}"
    using get_ok get_fresh by blast+
  with Suc.IH [OF s1(1) step(2)] show ?case
    by (auto simp: step(3))
qed

lemma get_many_succeeds:
  "ok s \<Longrightarrow> n \<le> card (avail s) \<Longrightarrow> \<exists>as s'. get_many get n s = Inr (as, s')"
proof (induction n arbitrary: s)
  case 0
  then show ?case by simp
next
  case (Suc n)
  then have "avail s \<noteq> {}" by auto
  then obtain a s1 where g: "get s = Inr (a, s1)" using get_succeeds Suc.prems(1) by blast
  then have "ok s1" "a \<in> avail s" "avail s1 = avail s - {a}"
    using get_ok get_fresh Suc.prems(1) by blast+
  moreover from this have "n \<le> card (avail s1)"
    using Suc.prems avail_finite by simp
  ultimately obtain as s' where "get_many get n s1 = Inr (as, s')"
    using Suc.IH by blast
  then show ?case using g by simp
qed

end

definition avail_frames :: "frames \<Rightarrow> u64 set" where
  "avail_frames f = frame_addr f ` free_bits (fr_b f)"

definition all_frames :: "frames \<Rightarrow> u64 set" where
  "all_frames f = frame_addr f ` {..<nbits (fr_b f)}"

lemma frame_addr_inj:
  assumes "frames_ok f"
  shows "inj_on (frame_addr f) {..<nbits (fr_b f)}"
proof (rule inj_onI)
  fix i j assume "i \<in> {..<nbits (fr_b f)}" "j \<in> {..<nbits (fr_b f)}"
    and eq: "frame_addr f i = frame_addr f j"
  then have "unat (frame_addr f i) = unat (mem_start f) + 4096 * i"
    and "unat (frame_addr f j) = unat (mem_start f) + 4096 * j"
    using assms unat_frame_addr by blast+
  with arg_cong [OF eq, of unat] show "i = j" by simp
qed

lemma frame_addr_cong: "mem_start f' = mem_start f \<Longrightarrow> frame_addr f' = frame_addr f"
  by (simp add: frame_addr_def fun_eq_iff)

lemma free_bits_subset: "free_bits b \<subseteq> {..<nbits b}"
  by (auto simp: free_bits_def)

lemma image_remove_inj:
  "inj_on h A \<Longrightarrow> B \<subseteq> A \<Longrightarrow> i \<in> B \<Longrightarrow> h ` (B - {i}) = h ` B - {h i}"
  unfolding inj_on_def by blast

interpretation fsrc: frame_source frames_ok avail_frames all_frames frame_alloc frame_free
proof
  fix f f' :: frames and a
  assume ok: "frames_ok f" and al: "frame_alloc f = Inr (a, f')"
  show "frames_ok f'" using ok al by (rule frames_ok_alloc)
  obtain i where i: "i \<in> free_bits (fr_b f)" "a = frame_addr f i"
    "free_bits (fr_b f') = free_bits (fr_b f) - {i}" "mem_start f' = mem_start f"
    "nbits (fr_b f') = nbits (fr_b f)"
    using frame_alloc_Inr [OF ok al] by blast
  have "frame_addr f ` (free_bits (fr_b f) - {i}) = frame_addr f ` free_bits (fr_b f) - {frame_addr f i}"
    by (rule image_remove_inj [OF frame_addr_inj [OF ok] free_bits_subset i(1)])
  then show "a \<in> avail_frames f \<and> avail_frames f' = avail_frames f - {a}"
    using i by (simp add: avail_frames_def frame_addr_cong [of f' f])
  show "all_frames f' = all_frames f"
    using i by (simp add: all_frames_def frame_addr_cong [of f' f])
next
  fix f :: frames
  assume "frames_ok f" and "avail_frames f \<noteq> {}"
  then show "\<exists>a f'. frame_alloc f = Inr (a, f')"
    using frame_alloc_panics [of f] by (cases "frame_alloc f") (auto simp: avail_frames_def)
next
  fix f :: frames and a
  assume ok: "frames_ok f" and a: "a \<in> all_frames f - avail_frames f"
  then obtain i where i: "i < nbits (fr_b f)" "a = frame_addr f i" "i \<notin> free_bits (fr_b f)"
    by (auto simp: all_frames_def avail_frames_def)
  obtain f' where f': "frame_free f a = Inr f'" "free_bits (fr_b f') = insert i (free_bits (fr_b f))"
    "mem_start f' = mem_start f" "nbits (fr_b f') = nbits (fr_b f)"
    using frame_free_Inr [OF ok i(1)] i(2) by blast
  moreover have "frames_ok f'"
    using frames_ok_free [OF ok i(1,3)] f'(1) i(2) by simp
  ultimately show "\<exists>f'. frame_free f a = Inr f' \<and> frames_ok f' \<and> avail_frames f' = insert a (avail_frames f)
      \<and> all_frames f' = all_frames f"
    using i(2) by (auto simp: avail_frames_def all_frames_def frame_addr_cong [of f' f])
next
  fix f :: frames
  show "avail_frames f \<subseteq> all_frames f" and "finite (avail_frames f)"
    using free_bits_subset by (auto simp: avail_frames_def all_frames_def)
qed

subsection \<open>Properties\<close>



text \<open>C26. A series of \<^const>\<open>frame_alloc\<close> calls returns pairwise distinct frames, all of them available
  before, and takes exactly those out of the available ones; the invariant is kept.\<close>

theorem frame_alloc_series:
  assumes "frames_ok f" and "get_many frame_alloc n f = Inr (as, f')"
  shows "frames_ok f' \<and> distinct as \<and> length as = n \<and> set as \<subseteq> avail_frames f \<and> avail_frames f' = avail_frames f - set as"
  using assms by (rule fsrc.get_many_fresh)

theorem frame_alloc_series_witness:
  "\<exists>as f'. get_many frame_alloc 2 (frames_init [7] 0x1000 0x3000) = Inr (as, f') \<and> distinct as \<and> length as = 2
     \<and> avail_frames f' = {}"
proof -
  let ?f = "frames_init [7] 0x1000 0x3000"
  have i: "init_frames 0x3000 = 3" "init_meta 0x3000 = 1" by (simp_all add: init_frames_def init_meta_def)
  have a: "FRAME_ALIGN 0x1000 = 0x1000" by (simp add: FRAME_ALIGN_def FRAME_SZ_def)
  have ok: "frames_ok ?f" by (rule frames_ok_init) (simp_all add: i a)
  have "avail_frames ?f = (\<lambda>i. 0x1000 + 4096 * of_nat i) ` {1..<3}"
    using frames_init_state [of "0x3000" "[7]" "0x1000"] by (simp add: i a avail_frames_def frame_addr_def FRAME_SZ_def)
  also have "{1..<3} = {1, 2 :: nat}" by auto
  finally have av: "card (avail_frames ?f) = 2" by simp
  then obtain as f' where g: "get_many frame_alloc 2 ?f = Inr (as, f')" using fsrc.get_many_succeeds [OF ok, of 2] by auto
  note s = frame_alloc_series [OF ok g]
  then have "avail_frames f' = {}"
    using av by (metis (no_types, lifting) Diff_eq_empty_iff card_subset_eq distinct_card fsrc.avail_finite [OF ok] order_refl)
  then show ?thesis using g s by blast
qed

end
