(* ===== verification/Alloc.thy ===== *)
theory Alloc
  imports Mem Frames
begin

text \<open>
  The allocation interface of \<^verbatim>\<open>include/alloc.h\<close>: an allocation is (size, align, count), the memory
  returned is zeroed, and running out of memory is a kernel panic. The contract is a locale over an
  invariant \<open>inv s L\<close> that says which blocks \<open>L\<close> (address and usable size) the allocator has handed
  out; what a client gets from a series of allocations is proved once, here.
\<close>

text \<open>A series of allocations, each with the state the one before left.\<close>

fun alloc_many :: "('s \<Rightarrow> int \<Rightarrow> int \<Rightarrow> int \<Rightarrow> (nat \<times> 's) outcome) \<Rightarrow> 's \<Rightarrow> (int \<times> int \<times> int) list \<Rightarrow> (nat list \<times> 's) outcome" where
  "alloc_many al s [] = Inr ([], s)"
| "alloc_many al s ((sz, algn, n) # rs) =
     (case al s sz algn n of
        Inl e \<Rightarrow> Inl e
      | Inr (p, s1) \<Rightarrow> (case alloc_many al s1 rs of Inl e \<Rightarrow> Inl e | Inr (ps, s2) \<Rightarrow> Inr (p # ps, s2)))"

definition apart :: "(nat \<times> nat) set \<Rightarrow> nat \<Rightarrow> nat \<Rightarrow> bool" where
  "apart L p k \<longleftrightarrow> (\<forall>(b, j)\<in>L. p + k \<le> b \<or> b + j \<le> p)"

definition kept :: "(nat \<times> nat) set \<Rightarrow> mem \<Rightarrow> mem \<Rightarrow> bool" where
  "kept L m m' \<longleftrightarrow> (\<forall>(b, j)\<in>L. \<forall>i<j. m' (b + i) = m (b + i))"

lemma kept_trans: "kept L m m' \<Longrightarrow> kept L m' m'' \<Longrightarrow> kept L m m''"
  by (fastforce simp: kept_def)

lemma kept_mono: "kept L m m' \<Longrightarrow> L' \<subseteq> L \<Longrightarrow> kept L' m m'"
  by (auto simp: kept_def)

lemma apart_mono: "apart L p k \<Longrightarrow> L' \<subseteq> L \<Longrightarrow> apart L' p k"
  by (auto simp: apart_def)

text \<open>\<open>req\<close> is what a caller owes: sizes and alignments the implementation documents.\<close>

locale allocator =
  fixes inv :: "'s \<Rightarrow> (nat \<times> nat) set \<Rightarrow> bool"
    and mem_of :: "'s \<Rightarrow> mem"
    and req :: "int \<Rightarrow> int \<Rightarrow> int \<Rightarrow> bool"
    and al :: "'s \<Rightarrow> int \<Rightarrow> int \<Rightarrow> int \<Rightarrow> (nat \<times> 's) outcome"
  assumes al_fresh: "inv s L \<Longrightarrow> req sz algn n \<Longrightarrow> al s sz algn n = Inr (p, s') \<Longrightarrow>
      \<exists>k. nat (sz * n) \<le> k \<and> inv s' (insert (p, k) L) \<and> apart L p k \<and> p mod nat algn = 0
        \<and> (\<forall>i < nat (sz * n). mem_of s' (p + i) = 0) \<and> kept L (mem_of s) (mem_of s')"
begin

text \<open>After a series of allocations every block is still zeroed, the blocks are pairwise apart and
  apart from all blocks handed out before, whose contents are kept.\<close>

lemma alloc_many_fresh:
  assumes "inv s L" and "list_all (\<lambda>(sz, algn, n). req sz algn n) rs" and "alloc_many al s rs = Inr (ps, s')"
  shows "\<exists>ks. length ks = length rs \<and> length ps = length rs
     \<and> list_all2 (\<lambda>k (sz, _, n). nat (sz * n) \<le> k) ks rs
     \<and> inv s' (set (zip ps ks) \<union> L) \<and> kept L (mem_of s) (mem_of s')
     \<and> (\<forall>i<length rs. apart L (ps ! i) (ks ! i))
     \<and> (\<forall>i<length rs. \<forall>j<i. ps ! i + ks ! i \<le> ps ! j \<or> ps ! j + ks ! j \<le> ps ! i)
     \<and> (\<forall>i<length rs. \<forall>x < nat (fst (rs ! i) * snd (snd (rs ! i))). mem_of s' (ps ! i + x) = 0)"
  using assms
proof (induction rs arbitrary: s L ps)
  case Nil
  then show ?case by (simp add: kept_def)
next
  case (Cons r rs)
  obtain sz algn n where r: "r = (sz, algn, n)" by (cases r)
  from Cons.prems(3) obtain p s1 qs where p: "al s sz algn n = Inr (p, s1)"
    and qs: "alloc_many al s1 rs = Inr (qs, s')" "ps = p # qs"
    by (auto simp: r split: sum.splits)
  from al_fresh [OF Cons.prems(1) _ p] Cons.prems(2) obtain k where
    k: "nat (sz * n) \<le> k" "inv s1 (insert (p, k) L)" "apart L p k"
      "\<forall>i < nat (sz * n). mem_of s1 (p + i) = 0" "kept L (mem_of s) (mem_of s1)"
    by (auto simp: r)
  from Cons.IH [OF k(2) _ qs(1)] Cons.prems(2) obtain ks where
    ks: "length ks = length rs" "length qs = length rs" "list_all2 (\<lambda>k (sz, _, n). nat (sz * n) \<le> k) ks rs"
      "inv s' (set (zip qs ks) \<union> insert (p, k) L)" "kept (insert (p, k) L) (mem_of s1) (mem_of s')"
      "\<forall>i<length rs. apart (insert (p, k) L) (qs ! i) (ks ! i)"
      "\<forall>i<length rs. \<forall>j<i. qs ! i + ks ! i \<le> qs ! j \<or> qs ! j + ks ! j \<le> qs ! i"
      "\<forall>i<length rs. \<forall>x < nat (fst (rs ! i) * snd (snd (rs ! i))). mem_of s' (qs ! i + x) = 0"
    by auto
  have "mem_of s' (p + x) = 0" if "x < nat (sz * n)" for x
    using ks(5) k(1,4) that by (simp add: kept_def)
  moreover have "kept L (mem_of s) (mem_of s')"
    using kept_trans [OF k(5)] kept_mono [OF ks(5)] by blast
  moreover have "insert (p, k) (set (zip qs ks) \<union> L) = set (zip qs ks) \<union> insert (p, k) L" by blast
  ultimately show ?case
    by (intro exI [of _ "k # ks"])
      (use k ks in \<open>auto simp: r qs(2) nth_Cons' All_less_Suc2 apart_def split: if_splits\<close>)
qed

end

text \<open>An allocator that also takes blocks back.\<close>

locale heap_allocator = allocator inv mem_of req al
  for inv :: "'s \<Rightarrow> (nat \<times> nat) set \<Rightarrow> bool" and mem_of req al +
  fixes fr :: "'s \<Rightarrow> nat \<Rightarrow> 's" and usable :: "'s \<Rightarrow> nat \<Rightarrow> nat"
  assumes fr_inv: "inv s L \<Longrightarrow> (p, k) \<in> L \<Longrightarrow> inv (fr s p) (L - {(p, k)})"
    and fr_kept: "inv s L \<Longrightarrow> (p, k) \<in> L \<Longrightarrow> kept (L - {(p, k)}) (mem_of s) (mem_of (fr s p))"
    and usable_eq: "inv s L \<Longrightarrow> (p, k) \<in> L \<Longrightarrow> usable s p = k"
begin

text \<open>Allocating a block and giving it back leaves the blocks of everybody else as they were.\<close>

lemma alloc_free_restores:
  assumes "inv s L" and "req sz algn n" and "al s sz algn n = Inr (p, s')" and "0 < usable s' p"
  shows "inv (fr s' p) L" and "kept L (mem_of s) (mem_of (fr s' p))"
proof -
  from al_fresh [OF assms(1-3)] obtain k where
    k: "inv s' (insert (p, k) L)" "apart L p k" "kept L (mem_of s) (mem_of s')" by blast
  have "usable s' p = k" by (rule usable_eq [OF k(1)]) simp
  then have "(p, k) \<notin> L" using k(2) assms(4) by (auto simp: apart_def)
  then have "insert (p, k) L - {(p, k)} = L" by blast
  with fr_inv [OF k(1), of p k] fr_kept [OF k(1), of p k] k(3)
  show "inv (fr s' p) L" "kept L (mem_of s) (mem_of (fr s' p))"
    using kept_trans by auto
qed

end

end
