(* ===== verification/Arena.thy ===== *)
theory Arena
  imports Alloc "HOL-Library.Signed_Division"
begin

text \<open>
  The arena allocator (\<^verbatim>\<open>include/arena.h\<close>, \<^verbatim>\<open>src/arena.c\<close>): allocation bumps \<^verbatim>\<open>beg\<close> past the
  alignment padding and the block. Pointers are 64-bit words; pointer differences and the sizes,
  which the code keeps as \<^verbatim>\<open>ptrdiff_t\<close>, are integers.
\<close>

record arena =
  ar_beg :: u64
  ar_end :: u64
  ar_mem :: mem

definition arena_init :: "mem \<Rightarrow> u64 \<Rightarrow> int \<Rightarrow> arena" where
  "arena_init m beg sz = \<lparr>ar_beg = beg, ar_end = beg + word_of_int sz, ar_mem = m\<rparr>"

text \<open>A division by zero is reported as an outcome of its own: the code divides by the size before
  looking at it.\<close>

definition arena_alloc :: "arena \<Rightarrow> int \<Rightarrow> int \<Rightarrow> int \<Rightarrow> (nat \<times> arena) outcome" where
  "arena_alloc ar sz align count =
     (let padding = sint (- ar_beg ar AND word_of_int (align - 1));
          available = sint (ar_end ar - ar_beg ar) - padding in
      if available < 0 then Inl ''Arena out of memory''
      else if sz = 0 then Inl ''Division by zero''
      else if count > available sdiv sz then Inl ''Arena out of memory''
      else let p = ar_beg ar + word_of_int padding in
        Inr (unat p, ar\<lparr>ar_beg := ar_beg ar + word_of_int (padding + count * sz),
                        ar_mem := memset (ar_mem ar) (unat p) 0 (unat (word_of_int (count * sz) :: u64))\<rparr>))"

text \<open>The blocks handed out lie below \<^verbatim>\<open>beg\<close>, and the region is smaller than half the address space,
  as a pointer difference has to be.\<close>

definition arena_inv :: "arena \<Rightarrow> (nat \<times> nat) set \<Rightarrow> bool" where
  "arena_inv ar L \<longleftrightarrow> unat (ar_beg ar) \<le> unat (ar_end ar) \<and> unat (ar_end ar) < unat (ar_beg ar) + 2 ^ 63
     \<and> (\<forall>(b, k)\<in>L. b + k \<le> unat (ar_beg ar))"

definition arena_req :: "int \<Rightarrow> int \<Rightarrow> int \<Rightarrow> bool" where
  "arena_req sz align count \<longleftrightarrow> 0 < sz \<and> 0 \<le> count \<and> align \<in> (\<lambda>k. 2 ^ k) ` {..<12}"

lemma sint_small:
  fixes w :: u64
  assumes "unat w < 2 ^ 63"
  shows "sint w = int (unat w)"
proof -
  have "uint w < 2 ^ 63" using assms by (simp add: uint_nat del: of_nat_unat)
  moreover have "- (2 ^ 63) \<le> uint w" by (rule order_trans [OF _ uint_ge_0]) simp
  ultimately have "signed_take_bit 63 (uint w) = uint w" by (intro signed_take_bit_int_eq_self)
  then show ?thesis by (simp add: sint_uint)
qed

lemma pad_facts:
  fixes x :: u64
  assumes "k < 12"
  defines "pad \<equiv> - x AND word_of_int (2 ^ k - 1)"
  shows "unat pad < 2 ^ k" "sint pad = int (unat pad)" "unat (x + pad) mod 2 ^ k = 0"
proof -
  have "(word_of_int (2 ^ k - 1) :: u64) = mask k" by (simp add: mask_eq_exp_minus_1)
  then have pad: "pad = take_bit k (- x)" unfolding pad_def by (simp add: take_bit_eq_mask)
  have tb: "unat (take_bit k w) = unat w mod 2 ^ k" for w :: u64
    unfolding unsigned_take_bit_eq by (simp add: take_bit_eq_mod)
  show lt: "unat pad < 2 ^ k" unfolding pad tb by simp
  have dv: "(2::nat) ^ k dvd 2 ^ LENGTH(64)" using assms(1) by (intro le_imp_power_dvd) simp
  have "(unat x + unat (- x)) mod 2 ^ LENGTH(64) = 0"
    using unat_word_ariths(1) [of x "- x"] by simp
  then have "(unat x + unat (- x)) mod 2 ^ k = 0" using dv by (meson dvd_trans mod_eq_0_iff_dvd)
  then have "(unat x + unat pad) mod 2 ^ k = 0" unfolding pad tb by (simp add: mod_simps)
  then show "unat (x + pad) mod 2 ^ k = 0"
    unfolding unat_word_ariths(1) mod_mod_cancel [OF dv] .
  have "(2::nat) ^ k \<le> 2 ^ 12" using assms(1) by (intro power_increasing) auto
  then have "unat pad < 2 ^ 63" using lt by simp
  then show "sint pad = int (unat pad)" by (rule sint_small)
qed

text \<open>What a successful allocation computes, in numbers.\<close>

lemma arena_alloc_Inr:
  assumes inv: "arena_inv ar L" and req: "0 < sz" "0 \<le> n" "k < 12"
    and al: "arena_alloc ar sz (2 ^ k) n = Inr (p, ar')"
  defines "P \<equiv> - ar_beg ar AND word_of_int (2 ^ k - 1)" and "N \<equiv> nat (sz * n)"
  shows "p = unat (ar_beg ar) + unat P" "unat (ar_beg ar') = p + N" "ar_end ar' = ar_end ar"
    "ar_mem ar' = fill (ar_mem ar) p 0 N" "p + N \<le> unat (ar_end ar)" "p mod 2 ^ k = 0"
proof -
  note pf = pad_facts [OF req(3), of "ar_beg ar", folded P_def]
  have ord: "unat (ar_beg ar) \<le> unat (ar_end ar)" "unat (ar_end ar) < unat (ar_beg ar) + 2 ^ 63"
    using inv by (auto simp: arena_inv_def)
  have diff: "sint (ar_end ar - ar_beg ar) = int (unat (ar_end ar)) - int (unat (ar_beg ar))"
    using ord by (subst sint_small) (simp_all add: unat_sub_small of_nat_diff)
  define avail where "avail = int (unat (ar_end ar)) - int (unat (ar_beg ar)) - int (unat P)"
  note al' = al [unfolded arena_alloc_def Let_def, folded P_def, unfolded diff pf(2), folded avail_def]
  have a0: "0 \<le> avail" and an: "n \<le> avail sdiv sz" and p: "p = unat (ar_beg ar + word_of_int (int (unat P)))"
    and ar': "ar' = ar\<lparr>ar_beg := ar_beg ar + word_of_int (int (unat P) + n * sz),
      ar_mem := memset (ar_mem ar) p 0 (unat (word_of_int (n * sz) :: u64))\<rparr>"
    using al' req(1) by (auto split: if_splits)
  have "avail sdiv sz = avail div sz" using a0 req(1) by (simp add: signed_divide_int_def sgn_if abs_if)
  then have "n * sz \<le> avail div sz * sz" using an req(1) by (simp add: mult_right_mono)
  also have "\<dots> \<le> avail" using req(1) by (simp add: minus_mod_eq_div_mult [symmetric])
  finally have le: "int N \<le> avail" using req by (simp add: N_def mult.commute)
  have N: "n * sz = int N" using req by (simp add: N_def mult.commute)
  have bnd: "unat (ar_beg ar) + unat P + N \<le> unat (ar_end ar)" using le a0 unfolding avail_def by linarith
  have E: "unat (ar_end ar) < 2 ^ 64" using unat_u64_lt [of "ar_end ar"] by simp
  have small: "word_of_int (int x) = (of_nat x :: u64)" for x by simp
  have "unat (of_nat N :: u64) = N" using bnd E by (intro unat_of_nat_small) simp
  then show "ar_mem ar' = fill (ar_mem ar) p 0 N" by (simp only: ar' N small arena.simps memset_eq_fill) simp
  show pp: "p = unat (ar_beg ar) + unat P"
    unfolding p using bnd E by (subst unat_add_small) simp_all
  then show "p + N \<le> unat (ar_end ar)" using bnd by simp
  show "p mod 2 ^ k = 0" using pf(3) by (simp add: p)
  show "ar_end ar' = ar_end ar" by (simp add: ar')
  have "unat (of_nat (unat P + N) :: u64) = unat P + N" using bnd E by (intro unat_of_nat_small) simp
  then have "unat (ar_beg ar + of_nat (unat P + N)) = unat (ar_beg ar) + (unat P + N)"
    using bnd E by (subst unat_add_small) simp_all
  then show "unat (ar_beg ar') = p + N"
    by (simp only: ar' N pp small arena.simps of_nat_add [symmetric]) simp
qed

interpretation ar: allocator arena_inv ar_mem arena_req arena_alloc
proof (unfold_locales, goal_cases)
  case (1 ar L sz algn n p ar')
  then obtain k where k: "k < 12" "algn = 2 ^ k" and req: "0 < sz" "0 \<le> n" by (auto simp: arena_req_def)
  note f = arena_alloc_Inr [OF 1(1) req k(1) 1(3) [unfolded k(2)]]
  let ?N = "nat (sz * n)"
  have L: "b + j \<le> unat (ar_beg ar)" if "(b, j) \<in> L" for b j using 1(1) that by (auto simp: arena_inv_def)
  have "arena_inv ar' (insert (p, ?N) L)"
    using f(1,2,3,5) L 1(1) by (auto simp: arena_inv_def) (fastforce dest: L)
  moreover have "apart L p ?N" using L f(1) by (force simp: apart_def)
  moreover have "kept L (ar_mem ar) (ar_mem ar')"
    using L f(1) by (force simp: kept_def f(4) fill_def)
  ultimately show ?case
    using f(6) by (intro exI [of _ ?N]) (simp add: k(2) f(4) fill_def nat_power_eq)
qed

subsection \<open>Properties\<close>

text \<open>C22. A series of arena allocations returns zeroed blocks that are pairwise apart and apart from the
  blocks handed out before; the arena invariant is kept.\<close>

theorem arena_alloc_series:
  assumes "arena_inv ar L" and "list_all (\<lambda>(sz, algn, n). arena_req sz algn n) rs"
    and "alloc_many arena_alloc ar rs = Inr (ps, ar')"
  shows "\<exists>ks. length ks = length rs \<and> length ps = length rs
     \<and> list_all2 (\<lambda>k (sz, _, n). nat (sz * n) \<le> k) ks rs
     \<and> arena_inv ar' (set (zip ps ks) \<union> L) \<and> kept L (ar_mem ar) (ar_mem ar')
     \<and> (\<forall>i<length rs. apart L (ps ! i) (ks ! i))
     \<and> (\<forall>i<length rs. \<forall>j<i. ps ! i + ks ! i \<le> ps ! j \<or> ps ! j + ks ! j \<le> ps ! i)
     \<and> (\<forall>i<length rs. \<forall>x < nat (fst (rs ! i) * snd (snd (rs ! i))). ar_mem ar' (ps ! i + x) = 0)"
  using assms by (rule ar.alloc_many_fresh)

theorem arena_alloc_series_witness:
  "\<exists>m. alloc_many arena_alloc (arena_init (\<lambda>_. 7) 0x1001 64) [(4, 4, 2), (1, 1, 3), (8, 8, 1)]
       = Inr ([0x1004, 0x100C, 0x1010], \<lparr>ar_beg = 0x1018, ar_end = 0x1041, ar_mem = m\<rparr>)
     \<and> (\<forall>x<8. m (0x1004 + x) = 0)"
proof -
  let ?ar = "arena_init (\<lambda>_. 7) 0x1001 64"
  let ?rs = "[(4, 4, 2), (1, 1, 3), (8, 8, 1)] :: (int \<times> int \<times> int) list"
  obtain m where m: "alloc_many arena_alloc ?ar ?rs
      = Inr ([0x1004, 0x100C, 0x1010], \<lparr>ar_beg = 0x1018, ar_end = 0x1041, ar_mem = m\<rparr>)"
    by (simp add: arena_init_def arena_alloc_def signed_divide_int_def Let_def)
  have 1: "arena_inv ?ar {}" by (simp add: arena_inv_def arena_init_def)
  have "(4::int) \<in> (\<lambda>k. 2 ^ k) ` {..<12}" "(1::int) \<in> (\<lambda>k. 2 ^ k) ` {..<12}" "(8::int) \<in> (\<lambda>k. 2 ^ k) ` {..<12}"
    by (rule image_eqI [of _ _ 2], simp, simp) (rule image_eqI [of _ _ 0], simp, simp, rule image_eqI [of _ _ 3], simp, simp)
  then have 2: "list_all (\<lambda>(sz, algn, n). arena_req sz algn n) ?rs"
    by (simp add: arena_req_def)
  from arena_alloc_series [OF 1 2 m] have z: "\<forall>i<length ?rs. \<forall>x < nat (fst (?rs ! i) * snd (snd (?rs ! i))). m ([0x1004, 0x100C, 0x1010] ! i + x) = 0"
    by auto
  have "m (0x1004 + x) = 0" if "x < 8" for x using z [rule_format, of 0 x] that by simp
  with m show ?thesis by blast
qed

end
