(* ===== verification/Links.thy ===== *)
theory Links
  imports Prelude
begin

text \<open>
  Intrusive linked lists. A list threaded through its elements by a link field is described by
  \<open>chain nxt p xs\<close>: starting at \<open>p\<close> and following \<open>nxt\<close> visits exactly \<open>xs\<close> and ends in NULL
  (\<^const>\<open>None\<close>). A doubly linked list is a chain forwards and, from the tail, a chain backwards.
  The slab lists of the kernel heap, the intra-slab free lists, the hash buckets and the LRU list
  of the block cache are all instances.
\<close>

primrec chain :: "('a \<Rightarrow> 'a option) \<Rightarrow> 'a option \<Rightarrow> 'a list \<Rightarrow> bool" where
  "chain nxt p [] \<longleftrightarrow> p = None"
| "chain nxt p (x # xs) \<longleftrightarrow> p = Some x \<and> chain nxt (nxt x) xs"

lemma chain_None [simp]: "chain nxt None xs \<longleftrightarrow> xs = []"
  by (cases xs) auto

lemma chain_Some: "chain nxt (Some x) xs \<longleftrightarrow> (\<exists>ys. xs = x # ys \<and> chain nxt (nxt x) ys)"
  by (cases xs) auto

lemma chain_cong: "(\<And>x. x \<in> set xs \<Longrightarrow> nxt x = nxt' x) \<Longrightarrow> chain nxt p xs \<longleftrightarrow> chain nxt' p xs"
  by (induction xs arbitrary: p) auto

lemma chain_upd [simp]: "y \<notin> set xs \<Longrightarrow> chain (nxt(y := q)) p xs \<longleftrightarrow> chain nxt p xs"
  by (rule chain_cong) auto

lemma chain_unique: "chain nxt p xs \<Longrightarrow> chain nxt p ys \<Longrightarrow> xs = ys"
proof (induction xs arbitrary: p ys)
  case Nil
  then show ?case by simp
next
  case (Cons x xs)
  then show ?case by (cases ys) auto
qed

lemma chain_append:
  "chain nxt p (xs @ y # ys) \<longleftrightarrow>
     (if xs = [] then p = Some y else nxt (last xs) = Some y \<and> p = Some (hd xs))
     \<and> (\<forall>i < length xs - 1. nxt (xs ! i) = Some (xs ! Suc i)) \<and> chain nxt (nxt y) ys"
proof (induction xs arbitrary: p)
  case Nil
  then show ?case by simp
next
  case (Cons x xs)
  then show ?case
    by (cases xs) (auto simp: nth_Cons less_Suc_eq_0_disj split: nat.splits)
qed

lemma chain_suffix: "chain nxt p (xs @ y # ys) \<Longrightarrow> chain nxt (Some y) (y # ys)"
  by (induction xs arbitrary: p) auto

lemma chain_distinct: "chain nxt p xs \<Longrightarrow> distinct xs"
proof (induction xs arbitrary: p)
  case Nil
  then show ?case by simp
next
  case (Cons x xs)
  have "x \<notin> set xs"
  proof
    assume "x \<in> set xs"
    then obtain as bs where xs: "xs = as @ x # bs" by (auto simp: in_set_conv_decomp)
    with Cons.prems have "chain nxt (Some x) (x # bs)"
      using chain_suffix [of nxt _ "x # as" x bs] by auto
    moreover have "chain nxt (Some x) (x # xs)" using Cons.prems by simp
    ultimately have "x # bs = x # xs" by (rule chain_unique)
    then show False using xs by simp
  qed
  with Cons show ?case by auto
qed

lemma chain_head_upd: "x \<notin> set xs \<Longrightarrow> chain nxt p xs \<Longrightarrow> chain (nxt(x := p)) (Some x) (x # xs)"
  by simp

text \<open>Unlinking the element \<open>x\<close> from the middle of a chain.\<close>

lemma chain_remove:
  assumes "chain nxt p (as @ x # bs)"
  shows "chain (if as = [] then nxt else nxt(last as := nxt x)) (if as = [] then nxt x else p) (as @ bs)"
proof -
  have dist: "distinct (as @ x # bs)" using assms by (rule chain_distinct)
  show ?thesis
  proof (cases as rule: rev_cases)
    case Nil
    with assms show ?thesis by simp
  next
    case (snoc cs c)
    have "chain (nxt(c := nxt x)) q (ds @ c # bs)"
      if "chain nxt q (ds @ c # x # bs)" "c \<notin> set ds" for q ds
      using that
    proof (induction ds arbitrary: q)
      case Nil
      then show ?case
        using dist snoc chain_upd [of c bs nxt "nxt x" "nxt x"] by (simp del: chain_upd fun_upd_apply add: fun_upd_same)
    next
      case (Cons d ds)
      then show ?case by auto
    qed
    with assms dist snoc show ?thesis by auto
  qed
qed

text \<open>Appending at the end of a chain.\<close>

lemma chain_snoc:
  assumes "chain nxt p xs" and "x \<notin> set xs"
  shows "chain ((if xs = [] then nxt else nxt(last xs := Some x))(x := None))
     (if xs = [] then Some x else p) (xs @ [x])"
proof -
  have dist: "distinct xs" using assms(1) by (rule chain_distinct)
  have "chain ((nxt(last xs := Some x))(x := None)) q (ys @ [x])"
    if "chain nxt q ys" "ys \<noteq> []" "last ys = last xs" "x \<notin> set ys" "distinct ys" for q ys
    using that
  proof (induction ys arbitrary: q)
    case Nil
    then show ?case by simp
  next
    case (Cons y ys)
    show ?case
    proof (cases "ys = []")
      case True
      with Cons show ?thesis by auto
    next
      case False
      with Cons.prems have "last xs \<in> set ys" by (metis last_ConsR last_in_set)
      with Cons False show ?thesis by auto
    qed
  qed
  with assms dist show ?thesis by auto
qed

subsection \<open>Doubly linked lists\<close>

definition dll :: "('a \<Rightarrow> 'a option) \<Rightarrow> ('a \<Rightarrow> 'a option) \<Rightarrow> 'a option \<Rightarrow> 'a option \<Rightarrow> 'a list \<Rightarrow> bool" where
  "dll prv nxt head tail xs \<longleftrightarrow> chain nxt head xs \<and> chain prv tail (rev xs)"

lemma dll_distinct: "dll prv nxt head tail xs \<Longrightarrow> distinct xs"
  by (auto simp: dll_def dest: chain_distinct)

lemma dll_Nil [simp]: "dll prv nxt head tail [] \<longleftrightarrow> head = None \<and> tail = None"
  by (simp add: dll_def)

lemma dll_head: "dll prv nxt head tail xs \<Longrightarrow> head = (if xs = [] then None else Some (hd xs))"
  by (cases xs) (auto simp: dll_def)

lemma dll_tail: "dll prv nxt head tail xs \<Longrightarrow> tail = (if xs = [] then None else Some (last xs))"
  by (cases xs rule: rev_cases) (auto simp: dll_def)

lemma chain_prev_of:
  assumes "dll prv nxt head tail (as @ x # bs)"
  shows "prv x = (if as = [] then None else Some (last as))"
    and "nxt x = (if bs = [] then None else Some (hd bs))"
proof -
  have "chain nxt (Some x) (x # bs)" using assms chain_suffix [of nxt head as x bs] by (auto simp: dll_def)
  then show "nxt x = (if bs = [] then None else Some (hd bs))" by (cases bs) auto
  have "chain prv tail (rev bs @ x # rev as)" using assms by (simp add: dll_def)
  then have "chain prv (Some x) (x # rev as)" by (rule chain_suffix)
  then show "prv x = (if as = [] then None else Some (last as))"
    by (cases as rule: rev_cases) auto
qed

text \<open>The three edits of a doubly linked list, on the link fields as the C code writes them.\<close>

definition unlink_prv :: "('a \<Rightarrow> 'a option) \<Rightarrow> ('a \<Rightarrow> 'a option) \<Rightarrow> 'a \<Rightarrow> 'a \<Rightarrow> 'a option" where
  "unlink_prv prv nxt x = (case nxt x of Some b \<Rightarrow> prv(b := prv x) | None \<Rightarrow> prv)(x := None)"

definition unlink_nxt :: "('a \<Rightarrow> 'a option) \<Rightarrow> ('a \<Rightarrow> 'a option) \<Rightarrow> 'a \<Rightarrow> 'a \<Rightarrow> 'a option" where
  "unlink_nxt prv nxt x = (case prv x of Some a \<Rightarrow> nxt(a := nxt x) | None \<Rightarrow> nxt)(x := None)"

lemma dll_unlink:
  assumes "dll prv nxt head tail (as @ x # bs)"
  shows "dll (unlink_prv prv nxt x) (unlink_nxt prv nxt x)
     (if prv x = None then nxt x else head) (if nxt x = None then prv x else tail) (as @ bs)"
proof -
  have dist: "distinct (as @ x # bs)" using assms by (rule dll_distinct)
  note px = chain_prev_of [OF assms]
  have fw: "chain (if as = [] then nxt else nxt(last as := nxt x)) (if as = [] then nxt x else head) (as @ bs)"
    using assms by (intro chain_remove) (simp add: dll_def)
  have "chain prv tail (rev bs @ x # rev as)" using assms by (simp add: dll_def)
  then have bw: "chain (if rev bs = [] then prv else prv(last (rev bs) := prv x))
      (if rev bs = [] then prv x else tail) (rev bs @ rev as)"
    by (rule chain_remove)
  show ?thesis
    using fw bw dist px
    by (auto simp: dll_def unlink_prv_def unlink_nxt_def last_rev split: if_splits)
qed

lemma dll_push_front:
  assumes "dll prv nxt head tail xs" and "x \<notin> set xs"
  shows "dll ((case head of Some h \<Rightarrow> prv(h := Some x) | None \<Rightarrow> prv)(x := None)) (nxt(x := head))
     (Some x) (if tail = None then Some x else tail) (x # xs)"
proof -
  have h: "head = (if xs = [] then None else Some (hd xs))" and t: "tail = (if xs = [] then None else Some (last xs))"
    using assms(1) by (rule dll_head, rule dll_tail)
  have "chain ((if rev xs = [] then prv else prv(last (rev xs) := Some x))(x := None))
     (if rev xs = [] then Some x else tail) (rev xs @ [x])"
    by (rule chain_snoc) (use assms in \<open>auto simp: dll_def\<close>)
  then show ?thesis
    using assms by (auto simp: dll_def h t last_rev)
qed

lemma dll_push_back:
  assumes "dll prv nxt head tail xs" and "x \<notin> set xs"
  shows "dll (prv(x := tail)) ((case tail of Some l \<Rightarrow> nxt(l := Some x) | None \<Rightarrow> nxt)(x := None))
     (if head = None then Some x else head) (Some x) (xs @ [x])"
proof -
  have h: "head = (if xs = [] then None else Some (hd xs))" and t: "tail = (if xs = [] then None else Some (last xs))"
    using assms(1) by (rule dll_head, rule dll_tail)
  have "chain ((if xs = [] then nxt else nxt(last xs := Some x))(x := None))
     (if xs = [] then Some x else head) (xs @ [x])"
    by (rule chain_snoc) (use assms in \<open>auto simp: dll_def\<close>)
  then show ?thesis
    using assms by (auto simp: dll_def h t)
qed

end
