(* ===== verification/Heap.thy ===== *)
theory Heap
  imports Alloc Links
begin

text \<open>
  The kernel heap (\<^verbatim>\<open>include/memory.h\<close>, \<^verbatim>\<open>src/memory.c\<close>): small blocks come from 64 KiB slabs
  of one size class each, whose free blocks are threaded through the blocks themselves; larger
  blocks are runs of whole slabs, kept on a free-run list when released.

  Addresses are natural numbers, 0 is NULL, and memory is the byte map of theory \<open>Mem\<close>, so that the
  links inside free blocks and the zeroing of allocated blocks are really written to it. Slab
  descriptors are indexed by slab number, as the code's \<^verbatim>\<open>descs\<close> array is.
\<close>

record slab =
  sl_next :: "nat option"
  sl_free_list :: nat
  sl_class :: nat
  sl_free_count :: nat
  sl_nslabs :: nat

record heap =
  h_base :: nat
  h_bump :: nat
  h_end :: nat
  h_descs :: "nat \<Rightarrow> slab"
  h_partial :: "nat option list"
  h_free_runs :: "nat option"
  h_mem :: mem

definition SLAB_SIZE :: nat where
  "SLAB_SIZE = 65536"

definition MAX_SMALL :: nat where
  "MAX_SMALL = 8192"

definition LARGE_CLASS :: nat where
  "LARGE_CLASS = 0xFFFFFFFF"

definition class_size :: "nat list" where
  "class_size = [16, 32, 48, 64, 96, 128, 192, 256, 384, 512, 768, 1024, 1536, 2048, 3072, 4096, 6144, 8192]"

definition size_to_class :: "nat \<Rightarrow> nat" where
  "size_to_class n =
     (case find (\<lambda>i. class_size ! i \<ge> n) [0..<18] of Some i \<Rightarrow> i | None \<Rightarrow> LARGE_CLASS)"

definition slab_of :: "heap \<Rightarrow> nat \<Rightarrow> nat" where
  "slab_of h p = (p - h_base h) div SLAB_SIZE"

definition slab_base :: "heap \<Rightarrow> nat \<Rightarrow> nat" where
  "slab_base h s = h_base h + s * SLAB_SIZE"

text \<open>Pointers stored in memory.\<close>

definition load_ptr :: "mem \<Rightarrow> nat \<Rightarrow> nat" where
  "load_ptr m a = unat (load64 m a)"

definition store_ptr :: "mem \<Rightarrow> nat \<Rightarrow> nat \<Rightarrow> mem" where
  "store_ptr m a v = store64 m a (of_nat v)"

definition carve :: "heap \<Rightarrow> nat \<Rightarrow> (nat \<times> heap) outcome" where
  "carve h n =
     (if h_bump h + n * SLAB_SIZE > h_end h then Inl ''Kernel heap out of memory''
      else Inr (slab_of h (h_bump h), h\<lparr>h_bump := h_bump h + n * SLAB_SIZE\<rparr>))"

text \<open>\<^verbatim>\<open>for (i = count; i-- > 0;) { blk = base + i * bs; *(void**)blk = fl; fl = blk; }\<close>\<close>

fun thread_blocks :: "mem \<Rightarrow> nat \<Rightarrow> nat \<Rightarrow> nat \<Rightarrow> nat \<Rightarrow> mem \<times> nat" where
  "thread_blocks m base bs 0 fl = (m, fl)"
| "thread_blocks m base bs (Suc i) fl =
     (let blk = base + i * bs in thread_blocks (store_ptr m blk fl) base bs i blk)"

text \<open>The part of \<^verbatim>\<open>alloc_small\<close> that gives slab \<open>s\<close> all its free blocks and makes it the partial
  list of its class.\<close>

definition fresh_slab :: "heap \<Rightarrow> nat \<Rightarrow> nat \<Rightarrow> heap" where
  "fresh_slab h c s =
     (let bs = class_size ! c;
          count = SLAB_SIZE div bs;
          (m, fl) = thread_blocks (h_mem h) (slab_base h s) bs count 0
      in h\<lparr>h_mem := m,
           h_descs := (h_descs h)(s := \<lparr>sl_next = None, sl_free_list = fl, sl_class = c,
                                        sl_free_count = count, sl_nslabs = 1\<rparr>),
           h_partial := (h_partial h)[c := Some s]\<rparr>)"

text \<open>The rest of \<^verbatim>\<open>alloc_small\<close>: pop a block of slab \<open>s\<close>, drop a full slab from the partial list,
  zero the block.\<close>

definition take_block :: "heap \<Rightarrow> nat \<Rightarrow> nat \<Rightarrow> nat \<Rightarrow> nat \<times> heap" where
  "take_block h c s n =
     (let d = h_descs h s;
          blk = sl_free_list d;
          d1 = d\<lparr>sl_free_list := load_ptr (h_mem h) blk, sl_free_count := sl_free_count d - 1\<rparr>;
          full = (sl_free_count d1 = 0);
          h1 = h\<lparr>h_descs := (h_descs h)(s := if full then d1\<lparr>sl_next := None\<rparr> else d1),
                 h_partial := (if full then (h_partial h)[c := sl_next d1] else h_partial h)\<rparr>
      in (blk, h1\<lparr>h_mem := memset (h_mem h1) blk 0 n\<rparr>))"

definition alloc_small :: "heap \<Rightarrow> nat \<Rightarrow> (nat \<times> heap) outcome" where
  "alloc_small h n =
     (let c = size_to_class n in
      case h_partial h ! c of
        Some s \<Rightarrow> Inr (take_block h c s n)
      | None \<Rightarrow> (case carve h 1 of
                   Inl e \<Rightarrow> Inl e
                 | Inr (s, h1) \<Rightarrow> Inr (take_block (fresh_slab h1 c s) c s n)))"

definition free_small :: "heap \<Rightarrow> nat \<Rightarrow> nat \<Rightarrow> heap" where
  "free_small h s p =
     (let d = h_descs h s;
          was_full = (sl_free_count d = 0);
          m = store_ptr (h_mem h) p (sl_free_list d);
          d1 = d\<lparr>sl_free_list := p, sl_free_count := sl_free_count d + 1\<rparr>
      in h\<lparr>h_mem := m,
           h_descs := (h_descs h)(s := if was_full then d1\<lparr>sl_next := h_partial h ! sl_class d\<rparr> else d1),
           h_partial := (if was_full then (h_partial h)[sl_class d := Some s] else h_partial h)\<rparr>)"

text \<open>The first-fit walk over the free-run list: the run found and its predecessor (None when the
  run is the head). The list has at most one node per carved slab, which bounds the walk.\<close>

fun find_run :: "nat \<Rightarrow> (nat \<Rightarrow> slab) \<Rightarrow> nat \<Rightarrow> nat option \<Rightarrow> nat option \<Rightarrow> (nat option \<times> nat) option" where
  "find_run 0 d n prev cur = None"
| "find_run (Suc fuel) d n prev cur =
     (case cur of
        None \<Rightarrow> None
      | Some r \<Rightarrow> if sl_nslabs (d r) < n then find_run fuel d n (Some r) (sl_next (d r))
                  else Some (prev, r))"

definition unlink_run :: "heap \<Rightarrow> nat option \<Rightarrow> nat \<Rightarrow> heap" where
  "unlink_run h prev r =
     (case prev of
        None \<Rightarrow> h\<lparr>h_free_runs := sl_next (h_descs h r)\<rparr>
      | Some p \<Rightarrow> h\<lparr>h_descs := (h_descs h)(p := (h_descs h p)\<lparr>sl_next := sl_next (h_descs h r)\<rparr>)\<rparr>)"

definition split_run :: "heap \<Rightarrow> nat \<Rightarrow> nat \<Rightarrow> heap" where
  "split_run h r n =
     (let h1 = (if sl_nslabs (h_descs h r) > n
                then let rm = r + n in
                  h\<lparr>h_descs := (h_descs h)(rm := (h_descs h rm)\<lparr>sl_nslabs := sl_nslabs (h_descs h r) - n,
                       sl_class := LARGE_CLASS, sl_next := h_free_runs h\<rparr>),
                    h_free_runs := Some rm\<rparr>
                else h)
      in h1\<lparr>h_descs := (h_descs h1)(r := (h_descs h1 r)\<lparr>sl_nslabs := n, sl_class := LARGE_CLASS\<rparr>)\<rparr>)"

definition alloc_large :: "heap \<Rightarrow> nat \<Rightarrow> (nat \<times> heap) outcome" where
  "alloc_large h tot =
     (let n = ((tot + SLAB_SIZE - 1) div SLAB_SIZE) mod 2 ^ 32 in
      case find_run (Suc (slab_of h (h_bump h))) (h_descs h) n None (h_free_runs h) of
        Some (prev, r) \<Rightarrow>
          let h1 = split_run (unlink_run h prev r) r n in
          Inr (slab_base h r, h1\<lparr>h_mem := memset (h_mem h1) (slab_base h r) 0 tot\<rparr>)
      | None \<Rightarrow>
          (case carve h n of
             Inl e \<Rightarrow> Inl e
           | Inr (s, h1) \<Rightarrow>
               Inr (slab_base h s,
                    h1\<lparr>h_descs := (h_descs h1)(s := (h_descs h1 s)\<lparr>sl_class := LARGE_CLASS, sl_nslabs := n\<rparr>),
                       h_mem := memset (h_mem h1) (slab_base h s) 0 tot\<rparr>)))"

definition PTRDIFF_MAX :: int where
  "PTRDIFF_MAX = 2 ^ 63 - 1"

definition heap_alloc :: "heap \<Rightarrow> int \<Rightarrow> int \<Rightarrow> int \<Rightarrow> (nat \<times> heap) outcome" where
  "heap_alloc h sz align count =
     (if align > 16 then Inl ''Heap alignment larger than 16''
      else if sz \<le> 0 \<or> count < 0 \<or> (count > 0 \<and> sz > PTRDIFF_MAX div count)
      then Inl ''Invalid heap allocation size''
      else let tot = (if sz * count = 0 then 1 else nat (sz * count)) in
        if tot \<le> MAX_SMALL then alloc_small h tot else alloc_large h tot)"

text \<open>\<^verbatim>\<open>sizeof(struct slab)\<close> is 32. The descriptor array and the memory are what the region held.\<close>

definition heap_init :: "mem \<Rightarrow> (nat \<Rightarrow> slab) \<Rightarrow> nat \<Rightarrow> nat \<Rightarrow> heap" where
  "heap_init m d beg sz =
     (let max_slabs = (sz div SLAB_SIZE) mod 2 ^ 32;
          after = beg + max_slabs * 32;
          base = (after + SLAB_SIZE - 1) div SLAB_SIZE * SLAB_SIZE
      in \<lparr>h_base = base, h_bump = base, h_end = (beg + sz) div SLAB_SIZE * SLAB_SIZE,
          h_descs = d, h_partial = replicate 18 None, h_free_runs = None, h_mem = m\<rparr>)"

definition heap_free :: "heap \<Rightarrow> nat \<Rightarrow> heap" where
  "heap_free h p =
     (if p = 0 then h
      else let s = slab_of h p in
        if sl_class (h_descs h s) = LARGE_CLASS
        then h\<lparr>h_descs := (h_descs h)(s := (h_descs h s)\<lparr>sl_next := h_free_runs h\<rparr>),
               h_free_runs := Some s\<rparr>
        else free_small h s p)"

definition heap_usable_size :: "heap \<Rightarrow> nat \<Rightarrow> nat" where
  "heap_usable_size h p =
     (let s = slab_of h p in
      if sl_class (h_descs h s) = LARGE_CLASS then sl_nslabs (h_descs h s) * SLAB_SIZE
      else class_size ! sl_class (h_descs h s))"

text \<open>The default heap is a global pointer, null until it is set.\<close>

definition heap_set_default :: "'h option \<Rightarrow> 'h option \<Rightarrow> 'h option" where
  "heap_set_default h g = h"

definition heap_default :: "'h option \<Rightarrow> 'h option" where
  "heap_default g = g"

end
