(* ===== verification/Heap_Inv.thy ===== *)
theory Heap_Inv
  imports Heap
begin

text \<open>
  The representation invariant of the kernel heap and what allocation and release do to the set of
  live blocks. \<open>heap_rep\<close> names the structure the fields encode: the small slabs \<open>S\<close>, the starts of
  the multi-slab runs \<open>R\<close>, the free blocks \<open>FL s\<close> of each small slab in list order, the partial
  list \<open>PL c\<close> of each class and the free-run list \<open>FR\<close>.
\<close>

definition carved :: "heap \<Rightarrow> nat" where
  "carved h = (h_bump h - h_base h) div SLAB_SIZE"

definition ptr :: "nat \<Rightarrow> nat option" where
  "ptr a = (if a = 0 then None else Some a)"

definition next_free :: "mem \<Rightarrow> nat \<Rightarrow> nat option" where
  "next_free m a = ptr (load_ptr m a)"

definition next_slab :: "heap \<Rightarrow> nat \<Rightarrow> nat option" where
  "next_slab h s = sl_next (h_descs h s)"

definition bsize :: "heap \<Rightarrow> nat \<Rightarrow> nat" where
  "bsize h s = class_size ! sl_class (h_descs h s)"

definition nslabs :: "heap \<Rightarrow> nat \<Rightarrow> nat" where
  "nslabs h r = sl_nslabs (h_descs h r)"

definition blocks_of :: "heap \<Rightarrow> nat \<Rightarrow> nat set" where
  "blocks_of h s = (\<lambda>i. slab_base h s + i * bsize h s) ` {..<SLAB_SIZE div bsize h s}"

definition region_ok :: "heap \<Rightarrow> bool" where
  "region_ok h \<longleftrightarrow> 0 < h_base h \<and> h_base h mod SLAB_SIZE = 0 \<and> h_base h \<le> h_bump h
     \<and> (h_bump h - h_base h) mod SLAB_SIZE = 0 \<and> h_bump h \<le> h_end h \<and> h_end h < 2 ^ 64
     \<and> length (h_partial h) = 18"

definition layout_ok :: "heap \<Rightarrow> nat set \<Rightarrow> nat set \<Rightarrow> bool" where
  "layout_ok h S R \<longleftrightarrow> S \<subseteq> {..<carved h}
     \<and> (\<forall>r\<in>R. 0 < nslabs h r \<and> r + nslabs h r \<le> carved h \<and> sl_class (h_descs h r) = LARGE_CLASS)
     \<and> (\<forall>s\<in>S. \<forall>r\<in>R. s < r \<or> r + nslabs h r \<le> s)
     \<and> (\<forall>r\<in>R. \<forall>r'\<in>R. r \<noteq> r' \<longrightarrow> r + nslabs h r \<le> r' \<or> r' + nslabs h r' \<le> r)"

definition slabs_ok :: "heap \<Rightarrow> nat set \<Rightarrow> (nat \<Rightarrow> nat list) \<Rightarrow> bool" where
  "slabs_ok h S FL \<longleftrightarrow> (\<forall>s\<in>S. sl_class (h_descs h s) < 18
     \<and> chain (next_free (h_mem h)) (ptr (sl_free_list (h_descs h s))) (FL s)
     \<and> set (FL s) \<subseteq> blocks_of h s \<and> sl_free_count (h_descs h s) = length (FL s))"

definition partial_ok :: "heap \<Rightarrow> nat set \<Rightarrow> (nat \<Rightarrow> nat list) \<Rightarrow> (nat \<Rightarrow> nat list) \<Rightarrow> bool" where
  "partial_ok h S FL PL \<longleftrightarrow> (\<forall>c<18. chain (next_slab h) (h_partial h ! c) (PL c)
     \<and> set (PL c) = {s \<in> S. sl_class (h_descs h s) = c \<and> FL s \<noteq> []})"

definition runs_ok :: "heap \<Rightarrow> nat set \<Rightarrow> nat list \<Rightarrow> bool" where
  "runs_ok h R FR \<longleftrightarrow> chain (next_slab h) (h_free_runs h) FR \<and> set FR \<subseteq> R"

definition heap_rep :: "heap \<Rightarrow> nat set \<Rightarrow> nat set \<Rightarrow> (nat \<Rightarrow> nat list) \<Rightarrow> (nat \<Rightarrow> nat list) \<Rightarrow> nat list \<Rightarrow> bool" where
  "heap_rep h S R FL PL FR \<longleftrightarrow>
     region_ok h \<and> layout_ok h S R \<and> slabs_ok h S FL \<and> partial_ok h S FL PL \<and> runs_ok h R FR"

text \<open>The live blocks, each with its usable size.\<close>

definition live :: "heap \<Rightarrow> nat set \<Rightarrow> nat set \<Rightarrow> (nat \<Rightarrow> nat list) \<Rightarrow> nat list \<Rightarrow> (nat \<times> nat) set" where
  "live h S R FL FR =
     {(b, bsize h s) | b s. s \<in> S \<and> b \<in> blocks_of h s - set (FL s)}
     \<union> {(slab_base h r, nslabs h r * SLAB_SIZE) | r. r \<in> R - set FR}"

definition heap_inv :: "heap \<Rightarrow> (nat \<times> nat) set \<Rightarrow> bool" where
  "heap_inv h L \<longleftrightarrow> (\<exists>S R FL PL FR. heap_rep h S R FL PL FR \<and> L = live h S R FL FR)"

subsection \<open>Size classes\<close>

lemma class_size_facts:
  assumes "c < 18"
  shows "16 \<le> class_size ! c" "class_size ! c mod 16 = 0" "class_size ! c \<le> 8192"
proof -
  have "list_all (\<lambda>x. 16 \<le> x \<and> x mod 16 = 0 \<and> x \<le> 8192) class_size" and "length class_size = 18"
    by (simp_all add: class_size_def)
  then have "16 \<le> class_size ! c \<and> class_size ! c mod 16 = 0 \<and> class_size ! c \<le> 8192"
    using assms by (simp add: list_all_length)
  then show "16 \<le> class_size ! c" "class_size ! c mod 16 = 0" "class_size ! c \<le> 8192"
    by simp_all
qed

lemma size_to_class_small:
  assumes "n \<le> MAX_SMALL"
  shows "size_to_class n < 18 \<and> n \<le> class_size ! size_to_class n"
proof -
  have "class_size ! 17 = 8192" by (simp add: class_size_def)
  then have "find (\<lambda>i. class_size ! i \<ge> n) [0..<18] \<noteq> None"
    using assms unfolding find_upt_None MAX_SMALL_def by (auto intro: exI [of _ 17])
  then obtain i where i: "find (\<lambda>i. class_size ! i \<ge> n) [0..<18] = Some i" by blast
  then show ?thesis
    unfolding size_to_class_def i using i [unfolded find_upt_Some] by simp
qed

text \<open>No smaller class would do.\<close>

lemma size_to_class_least:
  assumes "n \<le> MAX_SMALL" and "j < size_to_class n"
  shows "class_size ! j < n"
proof -
  obtain i where i: "find (\<lambda>i. class_size ! i \<ge> n) [0..<18] = Some i"
    using assms size_to_class_small [OF assms(1)]
    by (cases "find (\<lambda>i. class_size ! i \<ge> n) [0..<18]") (auto simp: size_to_class_def LARGE_CLASS_def)
  then have "size_to_class n = i" by (simp add: size_to_class_def)
  with i [unfolded find_upt_Some] assms(2) show ?thesis by auto
qed

subsection \<open>Geometry: blocks, slabs and runs do not overlap\<close>

lemma block_in_slab:
  assumes "b \<in> blocks_of h s"
  shows "slab_base h s \<le> b" "b + bsize h s \<le> slab_base h s + SLAB_SIZE"
proof -
  from assms obtain i where b: "b = slab_base h s + i * bsize h s" and i: "i < SLAB_SIZE div bsize h s"
    by (auto simp: blocks_of_def)
  then show "slab_base h s \<le> b" by simp
  have "Suc i * bsize h s \<le> (SLAB_SIZE div bsize h s) * bsize h s"
    using i by (intro mult_le_mono1) simp
  also have "\<dots> \<le> SLAB_SIZE" by simp
  finally show "b + bsize h s \<le> slab_base h s + SLAB_SIZE" by (simp add: b)
qed

lemma slab_before: "s < s' \<Longrightarrow> slab_base h s + SLAB_SIZE \<le> slab_base h s'"
proof -
  assume "s < s'"
  then have "Suc s * SLAB_SIZE \<le> s' * SLAB_SIZE" by (intro mult_le_mono1) simp
  then show ?thesis by (simp add: slab_base_def)
qed

lemma blocks_same_slab:
  assumes "b \<in> blocks_of h s" and "b' \<in> blocks_of h s" and "b \<noteq> b'"
  shows "b + bsize h s \<le> b' \<or> b' + bsize h s \<le> b"
proof -
  from assms obtain i j where "b = slab_base h s + i * bsize h s" "b' = slab_base h s + j * bsize h s" "i \<noteq> j"
    by (auto simp: blocks_of_def)
  moreover have "i < j \<Longrightarrow> Suc i * bsize h s \<le> j * bsize h s" "j < i \<Longrightarrow> Suc j * bsize h s \<le> i * bsize h s"
    by (rule mult_le_mono1, simp)+
  ultimately show ?thesis by (cases "i < j") auto
qed

lemma blocks_disjoint:
  assumes "b \<in> blocks_of h s" and "b' \<in> blocks_of h s'" and "b \<noteq> b'"
  shows "b + bsize h s \<le> b' \<or> b' + bsize h s' \<le> b"
proof (cases "s = s'")
  case True
  with assms blocks_same_slab show ?thesis by blast
next
  case False
  then have "slab_base h s + SLAB_SIZE \<le> slab_base h s' \<or> slab_base h s' + SLAB_SIZE \<le> slab_base h s"
    using slab_before [of s s' h] slab_before [of s' s h] by linarith
  then show ?thesis
    using block_in_slab [OF assms(1)] block_in_slab [OF assms(2)] by linarith
qed

lemma block_outside_run:
  assumes "b \<in> blocks_of h s" and "s < r \<or> r + n \<le> s"
  shows "b + bsize h s \<le> slab_base h r \<or> slab_base h r + n * SLAB_SIZE \<le> b"
proof -
  have "s < r \<Longrightarrow> slab_base h s + SLAB_SIZE \<le> slab_base h r" by (rule slab_before)
  moreover have "r + n \<le> s \<Longrightarrow> slab_base h r + n * SLAB_SIZE \<le> slab_base h s"
    using mult_le_mono1 [of "r + n" s SLAB_SIZE] by (simp add: slab_base_def add_mult_distrib)
  ultimately show ?thesis
    using assms(2) block_in_slab [OF assms(1)] by linarith
qed

lemma run_before: "r + n \<le> r' \<Longrightarrow> slab_base h r + n * SLAB_SIZE \<le> slab_base h r'"
  using mult_le_mono1 [of "r + n" r' SLAB_SIZE] by (simp add: slab_base_def add_mult_distrib)

lemma block_slab:
  assumes "b \<in> blocks_of h s" and "0 < bsize h s"
  shows "slab_of h b = s"
proof -
  have "h_base h + s * SLAB_SIZE \<le> b" "b < h_base h + s * SLAB_SIZE + SLAB_SIZE"
    using block_in_slab [OF assms(1)] assms(2) by (simp_all add: slab_base_def)
  then have "s * SLAB_SIZE \<le> b - h_base h" "b - h_base h < Suc s * SLAB_SIZE" by auto
  then show ?thesis
    unfolding slab_of_def by (intro div_nat_eqI) (simp_all add: mult.commute)
qed

lemma small_not_run: "layout_ok h S R \<Longrightarrow> s \<in> S \<Longrightarrow> s \<notin> R"
  by (fastforce simp: layout_ok_def)

lemma small_block:
  assumes "heap_rep h S R FL PL FR" and "s \<in> S" and "b \<in> blocks_of h s"
  shows "0 < b" "b + bsize h s \<le> h_bump h" "b < 2 ^ 64" "16 \<le> bsize h s"
proof -
  have c: "sl_class (h_descs h s) < 18" and reg: "region_ok h" and s: "s < carved h"
    using assms(1,2) by (auto simp: heap_rep_def slabs_ok_def layout_ok_def)
  show 16: "16 \<le> bsize h s"
    using class_size_facts(1) [OF c] by (simp add: bsize_def)
  have "Suc s * SLAB_SIZE \<le> carved h * SLAB_SIZE"
    using s by (intro mult_le_mono1) simp
  also have "\<dots> \<le> h_bump h - h_base h" by (simp add: carved_def)
  finally have "slab_base h s + SLAB_SIZE \<le> h_bump h"
    using reg by (auto simp: slab_base_def region_ok_def)
  then show "b + bsize h s \<le> h_bump h"
    using block_in_slab(2) [OF assms(3)] by simp
  then show "b < 2 ^ 64" using reg 16 by (simp add: region_ok_def)
  show "0 < b" using block_in_slab(1) [OF assms(3)] reg by (simp add: slab_base_def region_ok_def)
qed

lemma small_block_slab:
  "heap_rep h S R FL PL FR \<Longrightarrow> s \<in> S \<Longrightarrow> b \<in> blocks_of h s \<Longrightarrow> slab_of h b = s"
  using block_slab [of b h s] small_block(4) [of h S R FL PL FR s b] by simp

subsection \<open>Frame rules\<close>

text \<open>Writing outside a set of blocks does not disturb the free lists threaded through them.\<close>

lemma next_free_cong: "(\<And>k. k < 8 \<Longrightarrow> m' (a + k) = m (a + k)) \<Longrightarrow> next_free m' a = next_free m a"
  by (simp add: next_free_def load_ptr_def load64_cong [of m' a m])

lemma chain_next_free_frame:
  assumes "chain (next_free m) p xs" and "\<And>b k. b \<in> set xs \<Longrightarrow> k < 8 \<Longrightarrow> m' (b + k) = m (b + k)"
  shows "chain (next_free m') p xs"
  using assms(1) chain_cong [of xs "next_free m'" "next_free m" p] next_free_cong [of m' _ m] assms(2)
  by blast

lemma chain_next_slab_frame:
  assumes "chain (next_slab h) p xs" and "\<And>t. t \<in> set xs \<Longrightarrow> next_slab h' t = next_slab h t"
  shows "chain (next_slab h') p xs"
  using assms(1) chain_cong [of xs "next_slab h'" "next_slab h" p] assms(2) by blast

text \<open>A step that keeps the class and run length of every descriptor keeps the geometry.\<close>

definition same_shape :: "heap \<Rightarrow> heap \<Rightarrow> bool" where
  "same_shape h h' \<longleftrightarrow> h_base h' = h_base h \<and> h_bump h' = h_bump h \<and> h_end h' = h_end h
     \<and> length (h_partial h') = length (h_partial h)
     \<and> (\<forall>s. sl_class (h_descs h' s) = sl_class (h_descs h s) \<and> sl_nslabs (h_descs h' s) = sl_nslabs (h_descs h s))"

lemma same_shape_simps:
  assumes "same_shape h h'"
  shows "bsize h' = bsize h" "nslabs h' = nslabs h" "slab_base h' = slab_base h"
    "blocks_of h' = blocks_of h" "carved h' = carved h" "region_ok h' = region_ok h"
    "layout_ok h' S R = layout_ok h S R" "live h' S R FL FR = live h S R FL FR"
proof -
  show eqs: "bsize h' = bsize h" "nslabs h' = nslabs h" "slab_base h' = slab_base h"
    "carved h' = carved h"
    using assms by (auto simp: same_shape_def bsize_def nslabs_def slab_base_def carved_def)
  then show blk: "blocks_of h' = blocks_of h" by (auto simp: blocks_of_def fun_eq_iff)
  show "region_ok h' = region_ok h" "layout_ok h' S R = layout_ok h S R"
    using assms eqs by (auto simp: region_ok_def layout_ok_def same_shape_def)
  show "live h' S R FL FR = live h S R FL FR"
    by (simp add: live_def eqs blk)
qed

lemma runs_ok_frame:
  assumes "runs_ok h R FR" and "h_free_runs h' = h_free_runs h"
    and "\<And>t. t \<in> set FR \<Longrightarrow> h_descs h' t = h_descs h t"
  shows "runs_ok h' R FR"
  using assms chain_next_slab_frame [of h "h_free_runs h" FR h'] by (simp add: runs_ok_def next_slab_def)

lemma slabs_ok_other:
  assumes "slabs_ok h S FL" and "same_shape h h'" and "t \<in> S"
    and "h_descs h' t = h_descs h t" and "FL' t = FL t"
    and "\<And>b k. b \<in> set (FL t) \<Longrightarrow> k < 8 \<Longrightarrow> h_mem h' (b + k) = h_mem h (b + k)"
  shows "sl_class (h_descs h' t) < 18
     \<and> chain (next_free (h_mem h')) (ptr (sl_free_list (h_descs h' t))) (FL' t)
     \<and> set (FL' t) \<subseteq> blocks_of h' t \<and> sl_free_count (h_descs h' t) = length (FL' t)"
  using assms chain_next_free_frame [of "h_mem h" "ptr (sl_free_list (h_descs h t))" "FL t" "h_mem h'"]
  by (auto simp: slabs_ok_def same_shape_simps(4))

subsection \<open>Taking a block from a slab with a free one\<close>

lemma load_store_ptr: "v < 2 ^ 64 \<Longrightarrow> load_ptr (store_ptr m a v) a = v"
  by (simp add: load_ptr_def store_ptr_def load64_store64 unat_of_nat_small)

lemma store_ptr_other: "x < a \<or> a + 8 \<le> x \<Longrightarrow> store_ptr m a v x = m x"
  by (auto simp: store_ptr_def store64_def)

lemma rep_partial:
  assumes "heap_rep h S R FL PL FR" and "c < 18"
  shows "chain (next_slab h) (h_partial h ! c) (PL c)"
    and "set (PL c) = {s \<in> S. sl_class (h_descs h s) = c \<and> FL s \<noteq> []}"
  using assms unfolding heap_rep_def partial_ok_def by blast+

lemma rep_slab:
  assumes "heap_rep h S R FL PL FR" and "s \<in> S"
  shows "chain (next_free (h_mem h)) (ptr (sl_free_list (h_descs h s))) (FL s)"
    and "set (FL s) \<subseteq> blocks_of h s" and "sl_free_count (h_descs h s) = length (FL s)"
    and "sl_class (h_descs h s) < 18"
  using assms unfolding heap_rep_def slabs_ok_def by blast+

lemma partial_head:
  assumes rep: "heap_rep h S R FL PL FR" and c: "c < 18" and PL: "PL c = s # ps"
  obtains b bs where "FL s = b # bs" "b \<in> blocks_of h s" "sl_free_list (h_descs h s) = b"
    "chain (next_free (h_mem h)) (ptr (load_ptr (h_mem h) b)) bs" "b \<notin> set bs"
    "sl_free_count (h_descs h s) = Suc (length bs)"
    "s \<in> S" "sl_class (h_descs h s) = c" "h_partial h ! c = Some s"
    "chain (next_slab h) (next_slab h s) ps" "s \<notin> set ps"
proof -
  have part: "chain (next_slab h) (h_partial h ! c) (s # ps)"
    "set (s # ps) = {s \<in> S. sl_class (h_descs h s) = c \<and> FL s \<noteq> []}"
    using rep_partial [OF rep c] unfolding PL .
  then have s: "s \<in> S" "sl_class (h_descs h s) = c" "FL s \<noteq> []" by auto
  then obtain b bs where FL: "FL s = b # bs" by (cases "FL s") auto
  note sl = rep_slab [OF rep s(1)]
  show thesis
    by (rule that [of b bs])
      (use FL s sl part chain_distinct [OF part(1)] chain_distinct [OF sl(1)] in
        \<open>auto simp: ptr_def next_free_def split: if_splits\<close>)
qed

lemma take_block_mem:
  "h_mem (snd (take_block h c s n)) = fill (h_mem h) (sl_free_list (h_descs h s)) 0 n"
  by (simp add: take_block_def Let_def memset_eq_fill)

lemma same_shape_take: "same_shape h (snd (take_block h c s n))"
  by (auto simp: same_shape_def take_block_def Let_def)

lemma take_block_fields:
  assumes "sl_free_count (h_descs h s) = Suc (length bs)" and "h' = snd (take_block h c s n)"
  shows "t \<noteq> s \<Longrightarrow> h_descs h' t = h_descs h t"
    and "sl_free_list (h_descs h' s) = load_ptr (h_mem h) (sl_free_list (h_descs h s))"
    and "sl_free_count (h_descs h' s) = length bs"
    and "bs \<noteq> [] \<Longrightarrow> next_slab h' s = next_slab h s"
    and "h_partial h' = (if bs = [] then (h_partial h)[c := next_slab h s] else h_partial h)"
    and "h_free_runs h' = h_free_runs h"
  using assms by (auto simp: take_block_def Let_def next_slab_def)

lemma take_block_partial:
  assumes rep: "heap_rep h S R FL PL FR" and c: "c < 18" and PL: "PL c = s # ps"
    and FL: "FL s = b # bs" and h': "h' = snd (take_block h c s n)"
  shows "partial_ok h' S (FL(s := bs)) (PL(c := if bs = [] then ps else s # ps))"
  unfolding partial_ok_def
proof (intro allI impI)
  fix c' :: nat assume c': "c' < 18"
  obtain b' bs' where hd: "FL s = b' # bs'" "sl_free_count (h_descs h s) = Suc (length bs')"
    "s \<in> S" "sl_class (h_descs h s) = c" "h_partial h ! c = Some s"
    "chain (next_slab h) (next_slab h s) ps" "s \<notin> set ps"
    by (rule partial_head [OF rep c PL]) blast
  note f = take_block_fields [OF hd(2) h']
  note old = rep_partial [OF rep c']
  have len: "length (h_partial h) = 18"
    using rep by (simp add: heap_rep_def region_ok_def)
  have cls: "sl_class (h_descs h' t) = sl_class (h_descs h t)" for t
    using same_shape_take [of h c s n] by (simp add: same_shape_def h')
  have nx: "next_slab h' t = next_slab h t" if "t \<noteq> s \<or> bs \<noteq> []" for t
    using that f(1) [of t] f(4) FL hd(1) by (cases "t = s") (auto simp: next_slab_def)
  let ?PL = "PL(c := if bs = [] then ps else s # ps)"
  have "chain (next_slab h') (h_partial h' ! c') (?PL c')"
  proof (cases "c' = c")
    case True
    have "chain (next_slab h') (next_slab h s) ps"
      by (rule chain_next_slab_frame [OF hd(6)]) (use hd(7) nx in metis)
    then have "chain (next_slab h') (if bs = [] then next_slab h s else Some s) (?PL c)"
      using nx [of s] by auto
    then show ?thesis using True f(5) FL hd(1,5) len c by auto
  next
    case False
    then have "s \<notin> set (PL c')" using old(2) hd(4) by auto
    then show ?thesis using old(1) False f(5)
      by (auto intro!: chain_next_slab_frame [of h] nx)
  qed
  moreover have "set (?PL c') = {t \<in> S. sl_class (h_descs h' t) = c' \<and> (FL(s := bs)) t \<noteq> []}"
    using old(2) PL hd c' by (cases "c' = c") (auto simp: cls)
  ultimately show "chain (next_slab h') (h_partial h' ! c') (?PL c')
     \<and> set (?PL c') = {t \<in> S. sl_class (h_descs h' t) = c' \<and> (FL(s := bs)) t \<noteq> []}" by blast
qed

lemma take_block_slabs:
  assumes rep: "heap_rep h S R FL PL FR" and c: "c < 18" and PL: "PL c = s # ps"
    and FL: "FL s = b # bs" and n: "n \<le> class_size ! c" and h': "h' = snd (take_block h c s n)"
  shows "slabs_ok h' S (FL(s := bs))"
  unfolding slabs_ok_def
proof
  fix t assume t: "t \<in> S"
  obtain b' bs' where hd: "FL s = b' # bs'" "b' \<in> blocks_of h s" "sl_free_list (h_descs h s) = b'"
    "chain (next_free (h_mem h)) (ptr (load_ptr (h_mem h) b')) bs'" "b' \<notin> set bs'"
    "sl_free_count (h_descs h s) = Suc (length bs')" "s \<in> S" "sl_class (h_descs h s) = c"
    by (rule partial_head [OF rep c PL]) blast
  have b: "b' = b" "bs' = bs" using FL hd(1) by auto
  note f = take_block_fields [OF hd(6) h']
  have shape: "same_shape h h'" unfolding h' by (rule same_shape_take)
  have keep: "h_mem h' (x + k) = h_mem h (x + k)"
    if "x \<in> blocks_of h u" "u \<in> S" "x \<noteq> b" "k < 8" for x k u
  proof -
    have "b + bsize h s \<le> x \<or> x + bsize h u \<le> b"
      using blocks_disjoint [OF hd(2) that(1)] that(3) b by blast
    moreover have "16 \<le> bsize h u" using small_block(4) [OF rep that(2,1)] .
    moreover have "bsize h s = class_size ! c" by (simp add: bsize_def hd(8))
    ultimately show ?thesis
      using that(4) n by (auto simp: h' take_block_mem hd(3) b fill_def)
  qed
  have slabs: "slabs_ok h S FL" using rep by (simp add: heap_rep_def)
  note sub = rep_slab(2) [OF rep]
  show "sl_class (h_descs h' t) < 18
     \<and> chain (next_free (h_mem h')) (ptr (sl_free_list (h_descs h' t))) ((FL(s := bs)) t)
     \<and> set ((FL(s := bs)) t) \<subseteq> blocks_of h' t \<and> sl_free_count (h_descs h' t) = length ((FL(s := bs)) t)"
  proof (cases "t = s")
    case False
    have "x \<noteq> b" if "x \<in> set (FL t)" for x
      using sub [OF t] hd(2) b that small_block_slab [OF rep t, of x] small_block_slab [OF rep hd(7), of b] False
      by (auto simp: subset_iff)
    then have "h_mem h' (x + k) = h_mem h (x + k)" if "x \<in> set (FL t)" "k < 8" for x k
      using keep [OF _ t] sub [OF t] that by blast
    then show ?thesis
      using False by (intro slabs_ok_other [OF slabs shape t f(1) [OF False]]) simp_all
  next
    case True
    have "chain (next_free (h_mem h')) (ptr (load_ptr (h_mem h) b)) bs"
      by (rule chain_next_free_frame [of "h_mem h"])
        (use hd(4,5) b keep [OF _ hd(7)] sub [OF hd(7)] FL in \<open>auto simp: subset_iff\<close>)
    then show ?thesis
      using True f(2,3) hd b c sub [OF hd(7)] FL shape
      by (auto simp: same_shape_def same_shape_simps(4) [OF shape])
  qed
qed

lemma take_block_rep:
  assumes rep: "heap_rep h S R FL PL FR" and c: "c < 18" and PL: "PL c = s # ps"
    and FL: "FL s = b # bs" and n: "n \<le> class_size ! c" and h': "h' = snd (take_block h c s n)"
  shows "heap_rep h' S R (FL(s := bs)) (PL(c := if bs = [] then ps else s # ps)) FR"
proof -
  obtain b' bs' where hd: "FL s = b' # bs'" "sl_free_count (h_descs h s) = Suc (length bs')" "s \<in> S"
    by (rule partial_head [OF rep c PL]) blast
  note f = take_block_fields [OF hd(2) h']
  have shape: "same_shape h h'" unfolding h' by (rule same_shape_take)
  have "s \<notin> set FR"
    using rep hd(3) small_not_run [of h S R s] by (auto simp: heap_rep_def runs_ok_def)
  then have "h_descs h' t = h_descs h t" if "t \<in> set FR" for t using that f(1) by metis
  then have "runs_ok h' R FR"
    using runs_ok_frame [of h R FR h'] f(6) rep by (simp add: heap_rep_def)
  then show ?thesis
    using rep take_block_slabs [OF rep c PL FL n h'] take_block_partial [OF rep c PL FL h']
    by (simp add: heap_rep_def same_shape_simps [OF shape])
qed

lemma take_block_live:
  assumes rep: "heap_rep h S R FL PL FR" and c: "c < 18" and PL: "PL c = s # ps"
    and FL: "FL s = b # bs" and h': "h' = snd (take_block h c s n)"
  shows "fst (take_block h c s n) = b"
    and "live h' S R (FL(s := bs)) FR = insert (b, class_size ! c) (live h S R FL FR)"
    and "h_mem h' = fill (h_mem h) b 0 n"
proof -
  obtain b' bs' where hd: "FL s = b' # bs'" "b' \<in> blocks_of h s" "sl_free_list (h_descs h s) = b'"
    "b' \<notin> set bs'" "s \<in> S" "sl_class (h_descs h s) = c"
    by (rule partial_head [OF rep c PL]) blast
  have b: "b' = b" "bs' = bs" using FL hd(1) by auto
  show "fst (take_block h c s n) = b" by (simp add: take_block_def Let_def hd(3) b)
  show "h_mem h' = fill (h_mem h) b 0 n" by (simp add: h' take_block_mem hd(3) b)
  have shape: "same_shape h h'" unfolding h' by (rule same_shape_take)
  have cs: "bsize h s = class_size ! c" by (simp add: bsize_def hd(6))
  have "{(x, bsize h t) | x t. t \<in> S \<and> x \<in> blocks_of h t - set ((FL(s := bs)) t)}
      = insert (b, bsize h s) {(x, bsize h t) | x t. t \<in> S \<and> x \<in> blocks_of h t - set (FL t)}" (is "?A = ?B")
  proof
    have "(x, bsize h t) \<in> ?B" if "t \<in> S" "x \<in> blocks_of h t" "x \<notin> set ((FL(s := bs)) t)" for x t
      using that FL by (cases "t = s") auto
    then show "?A \<subseteq> ?B" by blast
    show "?B \<subseteq> ?A" using FL hd b by (fastforce split: if_splits)
  qed
  then show "live h' S R (FL(s := bs)) FR = insert (b, class_size ! c) (live h S R FL FR)"
    unfolding same_shape_simps(8) [OF shape] by (simp add: live_def cs)
qed

subsection \<open>Carving a fresh slab\<close>

lemma slab_base_carved: "region_ok h \<Longrightarrow> slab_base h (carved h) = h_bump h"
  by (auto simp: region_ok_def slab_base_def carved_def simp flip: mod_eq_0_iff_dvd)

lemma carve_Inr:
  "carve h n = Inr (s, h1) \<longleftrightarrow> h_bump h + n * SLAB_SIZE \<le> h_end h \<and> s = carved h
     \<and> h1 = h\<lparr>h_bump := h_bump h + n * SLAB_SIZE\<rparr>"
  by (auto simp: carve_def slab_of_def carved_def)

lemma thread_blocks_chain:
  assumes "chain (next_free m) (ptr fl) xs" and "fl < 2 ^ 64" and "\<forall>x\<in>set xs. base + i * bs \<le> x"
    and "0 < base" and "base + i * bs < 2 ^ 64" and "8 \<le> bs" and "thread_blocks m base bs i fl = (m', fl')"
  shows "chain (next_free m') (ptr fl') (map (\<lambda>j. base + j * bs) [0..<i] @ xs)
     \<and> (\<forall>x. x < base \<or> base + i * bs \<le> x \<longrightarrow> m' x = m x)"
  using assms
proof (induction i arbitrary: m fl xs)
  case 0
  then show ?case by simp
next
  case (Suc i)
  let ?blk = "base + i * bs" and ?m = "store_ptr m (base + i * bs) fl"
  have "chain (next_free ?m) (ptr fl) xs"
    by (rule chain_next_free_frame [OF Suc.prems(1)])
      (use Suc.prems(3,6) in \<open>force intro!: store_ptr_other\<close>)
  then have "chain (next_free ?m) (ptr ?blk) (?blk # xs)"
    using Suc.prems(2,4) by (simp add: ptr_def next_free_def load_store_ptr)
  then have "chain (next_free m') (ptr fl') (map (\<lambda>j. base + j * bs) [0..<i] @ ?blk # xs)
      \<and> (\<forall>x. x < base \<or> ?blk \<le> x \<longrightarrow> m' x = ?m x)"
    by (rule Suc.IH) (use Suc.prems in \<open>auto simp: Let_def\<close>)
  moreover have "?m x = m x" if "x < base \<or> base + Suc i * bs \<le> x" for x
    using that Suc.prems(6) by (intro store_ptr_other) auto
  moreover have "x < base \<or> ?blk \<le> x" if "x < base \<or> base + Suc i * bs \<le> x" for x
    using that by auto
  ultimately show ?case by simp
qed

text \<open>The state after \<^const>\<open>fresh_slab\<close> on a freshly carved slab.\<close>

lemma fresh_slab_fields:
  assumes reg: "region_ok h" and c: "c < 18" and room: "h_bump h + SLAB_SIZE \<le> h_end h" and s: "s = carved h"
    and h2: "h2 = fresh_slab (h\<lparr>h_bump := h_bump h + SLAB_SIZE\<rparr>) c s"
  defines "bl \<equiv> map (\<lambda>j. h_bump h + j * class_size ! c) [0..<SLAB_SIZE div class_size ! c]"
  shows "chain (next_free (h_mem h2)) (ptr (sl_free_list (h_descs h2 s))) bl"
    and "set bl = blocks_of h2 s" and "sl_free_count (h_descs h2 s) = length bl" and "bl \<noteq> []"
    and "sl_class (h_descs h2 s) = c" and "sl_next (h_descs h2 s) = None"
    and "\<And>x. x < h_bump h \<Longrightarrow> h_mem h2 x = h_mem h x"
    and "\<And>t. t \<noteq> s \<Longrightarrow> h_descs h2 t = h_descs h t"
    and "h_base h2 = h_base h" "h_bump h2 = h_bump h + SLAB_SIZE" "h_end h2 = h_end h"
    and "h_partial h2 = (h_partial h)[c := Some s]" "h_free_runs h2 = h_free_runs h"
    and "slab_base h2 = slab_base h"
proof -
  let ?bs = "class_size ! c" and ?n = "SLAB_SIZE div class_size ! c"
  have base: "slab_base (h\<lparr>h_bump := h_bump h + SLAB_SIZE\<rparr>) s = h_bump h"
    using slab_base_carved [OF reg] s by (simp add: slab_base_def)
  obtain m fl where tb: "thread_blocks (h_mem h) (h_bump h) ?bs ?n 0 = (m, fl)" by (rule prod.exhaust)
  have eq: "h2 = h\<lparr>h_bump := h_bump h + SLAB_SIZE, h_mem := m,
      h_descs := (h_descs h)(s := \<lparr>sl_next = None, sl_free_list = fl, sl_class = c, sl_free_count = ?n, sl_nslabs = 1\<rparr>),
      h_partial := (h_partial h)[c := Some s]\<rparr>"
    by (simp add: h2 fresh_slab_def Let_def base tb)
  have "h_bump h + ?n * ?bs \<le> h_end h" by (rule le_trans [OF _ room]) simp
  also have "h_end h < 2 ^ 64" using reg by (simp add: region_ok_def)
  finally have "h_bump h + ?n * ?bs < 2 ^ 64" .
  then have ch: "chain (next_free m) (ptr fl) bl \<and> (\<forall>x. x < h_bump h \<or> h_bump h + ?n * ?bs \<le> x \<longrightarrow> m x = h_mem h x)"
    using thread_blocks_chain [OF _ _ _ _ _ _ tb, of "[]"] class_size_facts(1) [OF c] reg
    by (auto simp: bl_def ptr_def region_ok_def)
  show sb: "slab_base h2 = slab_base h" by (simp add: eq slab_base_def fun_eq_iff)
  have "slab_base h2 s = h_bump h" using sb slab_base_carved [OF reg] s by simp
  then show "set bl = blocks_of h2 s" by (simp add: blocks_of_def bl_def bsize_def eq atLeast0LessThan)
  have "?bs \<le> SLAB_SIZE" using class_size_facts(3) [OF c] by (simp add: SLAB_SIZE_def)
  then have "0 < ?n" using class_size_facts(1) [OF c] by (simp add: div_greater_zero_iff)
  then show "bl \<noteq> []" by (simp add: bl_def)
  show "chain (next_free (h_mem h2)) (ptr (sl_free_list (h_descs h2 s))) bl"
    "\<And>x. x < h_bump h \<Longrightarrow> h_mem h2 x = h_mem h x"
    using ch by (simp_all add: eq)
  show "sl_free_count (h_descs h2 s) = length bl" "sl_class (h_descs h2 s) = c" "sl_next (h_descs h2 s) = None"
    "\<And>t. t \<noteq> s \<Longrightarrow> h_descs h2 t = h_descs h t" "h_base h2 = h_base h" "h_bump h2 = h_bump h + SLAB_SIZE"
    "h_end h2 = h_end h" "h_partial h2 = (h_partial h)[c := Some s]" "h_free_runs h2 = h_free_runs h"
    by (simp_all add: eq bl_def)
qed

lemma carved_above: "layout_ok h S R \<Longrightarrow> t \<in> S \<union> R \<Longrightarrow> t < carved h"
  by (fastforce simp: layout_ok_def)

lemma region_grow:
  assumes "region_ok h" and "h_bump h + n * SLAB_SIZE \<le> h_end h"
    and "h_base h' = h_base h" "h_bump h' = h_bump h + n * SLAB_SIZE" "h_end h' = h_end h"
    and "length (h_partial h') = length (h_partial h)"
  shows "region_ok h'" "carved h' = carved h + n"
proof -
  have "(h_bump h + n * SLAB_SIZE - h_base h) = (h_bump h - h_base h) + n * SLAB_SIZE"
    using assms(1) by (auto simp: region_ok_def)
  then have d: "h_bump h' - h_base h' = (h_bump h - h_base h) + n * SLAB_SIZE" using assms by simp
  show "carved h' = carved h + n" unfolding carved_def d by (simp add: SLAB_SIZE_def)
  have "(h_bump h' - h_base h') mod SLAB_SIZE = (h_bump h - h_base h) mod SLAB_SIZE" unfolding d by simp
  with assms show "region_ok h'" unfolding region_ok_def by (intro conjI) simp_all
qed

lemma descs_same:
  assumes "h_descs h' t = h_descs h t"
  shows "bsize h' t = bsize h t" "nslabs h' t = nslabs h t" "next_slab h' t = next_slab h t"
    and "slab_base h' = slab_base h \<Longrightarrow> blocks_of h' t = blocks_of h t"
  using assms by (simp_all add: bsize_def nslabs_def next_slab_def blocks_of_def)

definition fresh_blocks :: "heap \<Rightarrow> nat \<Rightarrow> nat list" where
  "fresh_blocks h c = map (\<lambda>j. h_bump h + j * class_size ! c) [0..<SLAB_SIZE div class_size ! c]"

lemmas fresh_fields = fresh_slab_fields [folded fresh_blocks_def]

lemma fresh_slab_slabs:
  assumes rep: "heap_rep h S R FL PL FR" and c: "c < 18"
    and room: "h_bump h + SLAB_SIZE \<le> h_end h" and s: "s = carved h"
    and h2: "h2 = fresh_slab (h\<lparr>h_bump := h_bump h + SLAB_SIZE\<rparr>) c s"
  shows "slabs_ok h2 (insert s S) (FL(s := fresh_blocks h c))"
  unfolding slabs_ok_def
proof
  have reg: "region_ok h" using rep by (simp add: heap_rep_def)
  note f = fresh_fields [OF reg c room s h2]
  let ?FL = "FL(s := fresh_blocks h c)"
  fix t assume tS: "t \<in> insert s S"
  show "sl_class (h_descs h2 t) < 18 \<and> chain (next_free (h_mem h2)) (ptr (sl_free_list (h_descs h2 t))) (?FL t)
    \<and> set (?FL t) \<subseteq> blocks_of h2 t \<and> sl_free_count (h_descs h2 t) = length (?FL t)"
  proof (cases "t = s")
    case True
    then show ?thesis using f(1-3,5) c by simp
  next
    case False
    then have t: "t \<in> S" using tS by simp
    have "h_mem h2 (b + k) = h_mem h (b + k)" if "b \<in> set (FL t)" "k < 8" for b k
      by (rule f(7)) (use rep_slab(2) [OF rep t] that small_block(2,4) [OF rep t, of b] in auto)
    then have "chain (next_free (h_mem h2)) (ptr (sl_free_list (h_descs h2 t))) (FL t)"
      using chain_next_free_frame rep_slab(1) [OF rep t] f(8) [OF False] by metis
    then show ?thesis
      using rep_slab(2-4) [OF rep t] False by (simp add: f(8) descs_same(4) [OF f(8) f(14)])
  qed
qed

lemma fresh_slab_partial:
  assumes rep: "heap_rep h S R FL PL FR" and c: "c < 18" and PL: "PL c = []"
    and room: "h_bump h + SLAB_SIZE \<le> h_end h" and s: "s = carved h"
    and h2: "h2 = fresh_slab (h\<lparr>h_bump := h_bump h + SLAB_SIZE\<rparr>) c s"
  shows "partial_ok h2 (insert s S) (FL(s := fresh_blocks h c)) (PL(c := [s]))"
  unfolding partial_ok_def
proof (intro allI impI)
  have reg: "region_ok h" and lay: "layout_ok h S R" using rep by (simp_all add: heap_rep_def)
  note f = fresh_fields [OF reg c room s h2]
  let ?FL = "FL(s := fresh_blocks h c)" and ?PL = "PL(c := [s])"
  have new: "t \<noteq> s" if "t \<in> S" for t using carved_above [OF lay] that s by auto
  fix c' :: nat assume c': "c' < 18"
  note old = rep_partial [OF rep c']
  have "chain (next_slab h2) (h_partial h2 ! c') (?PL c')"
  proof (cases "c' = c")
    case False
    have "chain (next_slab h2) (h_partial h ! c') (PL c')"
      by (rule chain_next_slab_frame [OF old(1)]) (use old(2) new descs_same(3) [OF f(8)] in auto)
    then show ?thesis using False by (simp add: f(12))
  qed (use reg c f(6,12) in \<open>auto simp: region_ok_def next_slab_def\<close>)
  moreover have "set (?PL c') = {t \<in> insert s S. sl_class (h_descs h2 t) = c' \<and> ?FL t \<noteq> []}"
    using old(2) PL f(4,5,8) new by (cases "c' = c") auto
  ultimately show "chain (next_slab h2) (h_partial h2 ! c') (?PL c')
     \<and> set (?PL c') = {t \<in> insert s S. sl_class (h_descs h2 t) = c' \<and> ?FL t \<noteq> []}" by blast
qed

lemma fresh_slab_rep:
  assumes rep: "heap_rep h S R FL PL FR" and c: "c < 18" and PL: "PL c = []"
    and room: "h_bump h + SLAB_SIZE \<le> h_end h" and s: "s = carved h"
    and h2: "h2 = fresh_slab (h\<lparr>h_bump := h_bump h + SLAB_SIZE\<rparr>) c s"
  shows "heap_rep h2 (insert s S) R (FL(s := fresh_blocks h c)) (PL(c := [s])) FR"
    and "live h2 (insert s S) R (FL(s := fresh_blocks h c)) FR = live h S R FL FR"
proof -
  have reg: "region_ok h" and lay: "layout_ok h S R" and ro: "runs_ok h R FR"
    using rep by (simp_all add: heap_rep_def)
  note f = fresh_fields [OF reg c room s h2]
  have new: "t \<noteq> s" if "t \<in> S \<union> R" for t using carved_above [OF lay that] s by simp
  note same = descs_same [OF f(8)] descs_same(4) [OF f(8) f(14)]
  have grow: "region_ok h2" "carved h2 = Suc s"
    using region_grow [OF reg, of 1 h2] room f(9-12) s by simp_all
  have "nslabs h2 r = nslabs h r \<and> h_descs h2 r = h_descs h r" if "r \<in> R" for r
    using same(2) f(8) new that by blast
  then have "layout_ok h2 (insert s S) R"
    using lay grow(2) s unfolding layout_ok_def by auto
  moreover have "runs_ok h2 R FR"
    using runs_ok_frame [OF ro f(13)] ro new f(8) by (auto simp: runs_ok_def)
  ultimately show "heap_rep h2 (insert s S) R (FL(s := fresh_blocks h c)) (PL(c := [s])) FR"
    using grow fresh_slab_slabs [OF rep c room s h2] fresh_slab_partial [OF rep c PL room s h2]
    by (simp add: heap_rep_def)
  have "{(b, bsize h2 t) | b t. t \<in> insert s S \<and> b \<in> blocks_of h2 t - set ((FL(s := fresh_blocks h c)) t)}
      = {(b, bsize h t) | b t. t \<in> S \<and> b \<in> blocks_of h t - set (FL t)}"
    using f(2) new same(1,5) by (auto split: if_splits)
  moreover have "{(slab_base h2 r, nslabs h2 r * SLAB_SIZE) | r. r \<in> R - set FR}
      = {(slab_base h r, nslabs h r * SLAB_SIZE) | r. r \<in> R - set FR}"
    using f(14) new same(2) by auto
  ultimately show "live h2 (insert s S) R (FL(s := fresh_blocks h c)) FR = live h S R FL FR"
    by (simp add: live_def)
qed

subsection \<open>Live blocks\<close>

lemma run_bound:
  assumes rep: "heap_rep h S R FL PL FR" and r: "r \<in> R"
  shows "slab_base h r + nslabs h r * SLAB_SIZE \<le> h_bump h"
proof -
  have "region_ok h" "r + nslabs h r \<le> carved h"
    using rep r by (auto simp: heap_rep_def layout_ok_def)
  then show ?thesis using run_before [of r "nslabs h r" "carved h" h] slab_base_carved [of h] by simp
qed

lemma live_cases:
  assumes "(b, k) \<in> live h S R FL FR"
  obtains (small) s where "s \<in> S" "b \<in> blocks_of h s" "b \<notin> set (FL s)" "k = bsize h s"
    | (run) r where "r \<in> R" "r \<notin> set FR" "b = slab_base h r" "k = nslabs h r * SLAB_SIZE"
  using assms unfolding live_def by blast

lemma live_below:
  assumes rep: "heap_rep h S R FL PL FR" and "(b, k) \<in> live h S R FL FR"
  shows "b + k \<le> h_bump h"
  using assms(2) by (cases rule: live_cases) (use small_block(2) [OF rep] run_bound [OF rep] in auto)

lemma small_apart_run:
  assumes rep: "heap_rep h S R FL PL FR" and "s \<in> S" "b \<in> blocks_of h s" "r \<in> R"
  shows "b + bsize h s \<le> slab_base h r \<or> slab_base h r + nslabs h r * SLAB_SIZE \<le> b"
  by (rule block_outside_run [OF assms(3)]) (use rep assms in \<open>auto simp: heap_rep_def layout_ok_def\<close>)

lemma runs_apart:
  assumes rep: "heap_rep h S R FL PL FR" and "r \<in> R" "r' \<in> R" "r \<noteq> r'"
  shows "slab_base h r + nslabs h r * SLAB_SIZE \<le> slab_base h r' \<or> slab_base h r' + nslabs h r' * SLAB_SIZE \<le> slab_base h r"
proof -
  have "r + nslabs h r \<le> r' \<or> r' + nslabs h r' \<le> r"
    using rep assms unfolding heap_rep_def layout_ok_def by blast
  then show ?thesis using run_before by blast
qed

lemma live_disjoint:
  assumes rep: "heap_rep h S R FL PL FR" and "(b, k) \<in> live h S R FL FR" "(b', k') \<in> live h S R FL FR"
    and "(b, k) \<noteq> (b', k')"
  shows "b + k \<le> b' \<or> b' + k' \<le> b"
  using assms(2)
proof (cases rule: live_cases)
  case s: (small s)
  show ?thesis
    using assms(3)
  proof (cases rule: live_cases)
    case (small t)
    then show ?thesis
      using s assms(4) blocks_disjoint [of b h s b' t] small_block_slab [OF rep] by metis
  next
    case (run r)
    then show ?thesis using small_apart_run [OF rep s(1,2) run(1)] s by simp
  qed
next
  case r: (run r)
  show ?thesis
    using assms(3)
  proof (cases rule: live_cases)
    case (small t)
    then show ?thesis using small_apart_run [OF rep small(1,2) r(1)] r by auto
  next
    case (run r')
    then show ?thesis using runs_apart [OF rep r(1) run(1)] r assms(4) by metis
  qed
qed

lemma free_block_not_live:
  assumes rep: "heap_rep h S R FL PL FR" and s: "s \<in> S" and b: "b \<in> set (FL s)"
  shows "(b, bsize h s) \<notin> live h S R FL FR"
proof
  have bl: "b \<in> blocks_of h s" using rep_slab(2) [OF rep s] b by blast
  assume "(b, bsize h s) \<in> live h S R FL FR"
  then show False
  proof (cases rule: live_cases)
    case (small t)
    then show False using b bl small_block_slab [OF rep] s by metis
  next
    case (run r)
    then show False using small_apart_run [OF rep s bl run(1)] small_block(4) [OF rep s bl] by auto
  qed
qed

text \<open>What an allocation promises: a new live block, of at least the size asked, 16-byte aligned,
  apart from every live block, zeroed, and with every live block's contents kept.\<close>

definition fresh_block :: "heap \<Rightarrow> (nat \<times> nat) set \<Rightarrow> nat \<Rightarrow> nat \<Rightarrow> heap \<Rightarrow> bool" where
  "fresh_block h L tot p h' \<longleftrightarrow> (\<exists>k. heap_inv h' (insert (p, k) L) \<and> tot \<le> k \<and> 0 < p \<and> p mod 16 = 0
     \<and> (\<forall>(b, j)\<in>L. p + k \<le> b \<or> b + j \<le> p)
     \<and> (\<forall>i<tot. h_mem h' (p + i) = 0)
     \<and> (\<forall>(b, j)\<in>L. \<forall>i<j. h_mem h' (b + i) = h_mem h (b + i)))"

lemma fresh_blockI:
  assumes rep: "heap_rep h' S R FL PL FR" and L: "live h' S R FL FR = insert (p, k) L" and "(p, k) \<notin> L"
    and "tot \<le> k" "0 < p" "p mod 16 = 0" and m: "h_mem h' = fill m p 0 tot"
    and keep: "\<And>b j i. (b, j) \<in> L \<Longrightarrow> i < j \<Longrightarrow> m (b + i) = h_mem h (b + i)"
  shows "fresh_block h L tot p h'"
proof -
  have inv: "heap_inv h' (insert (p, k) L)" using rep L unfolding heap_inv_def by metis
  have dis: "p + k \<le> b \<or> b + j \<le> p" if "(b, j) \<in> L" for b j
    using live_disjoint [OF rep, of p k b j] that L assms(3) by auto
  have "h_mem h' (b + i) = h_mem h (b + i)" if "(b, j) \<in> L" "i < j" for b j i
    using dis [OF that(1)] keep [OF that] that(2) assms(4) by (auto simp: m fill_def)
  then have "\<forall>(b, j)\<in>L. \<forall>i<j. h_mem h' (b + i) = h_mem h (b + i)" by blast
  moreover have "\<forall>(b, j)\<in>L. p + k \<le> b \<or> b + j \<le> p" using dis by blast
  moreover have "\<forall>i<tot. h_mem h' (p + i) = 0" by (simp add: m fill_def)
  ultimately show ?thesis
    unfolding fresh_block_def using assms(4-6) inv by - (intro exI [of _ k] conjI; assumption)
qed

subsection \<open>Small allocations\<close>

lemma block_aligned:
  assumes rep: "heap_rep h S R FL PL FR" and s: "s \<in> S" and b: "b \<in> blocks_of h s"
  shows "b mod 16 = 0"
proof -
  have "h_base h mod SLAB_SIZE = 0" using rep by (simp add: heap_rep_def region_ok_def)
  moreover have "16 dvd SLAB_SIZE" by (simp add: SLAB_SIZE_def)
  ultimately have "16 dvd h_base h" by (meson dvd_trans mod_eq_0_iff_dvd)
  then have "16 dvd slab_base h s" by (simp add: slab_base_def SLAB_SIZE_def)
  moreover have "16 dvd bsize h s"
    using class_size_facts(2) [OF rep_slab(4) [OF rep s]] by (simp add: bsize_def mod_eq_0_iff_dvd)
  ultimately show ?thesis using b by (auto simp: blocks_of_def)
qed

lemma take_block_fresh:
  assumes rep: "heap_rep h S R FL PL FR" and c: "c < 18" and PL: "PL c = s # ps" and n: "n \<le> class_size ! c"
    and keep: "\<And>b j i. (b, j) \<in> live h S R FL FR \<Longrightarrow> i < j \<Longrightarrow> h_mem h (b + i) = h_mem h0 (b + i)"
  shows "fresh_block h0 (live h S R FL FR) n (fst (take_block h c s n)) (snd (take_block h c s n))"
proof -
  obtain b bs where FL: "FL s = b # bs" and b: "b \<in> blocks_of h s" and s: "s \<in> S"
    and cls: "sl_class (h_descs h s) = c"
    by (rule partial_head [OF rep c PL]) blast
  define h' where "h' = snd (take_block h c s n)"
  note tl = take_block_live [OF rep c PL FL h'_def]
  have bs: "bsize h s = class_size ! c" by (simp add: bsize_def cls)
  have "(b, class_size ! c) \<notin> live h S R FL FR"
    using free_block_not_live [OF rep s, of b] FL bs by simp
  from fresh_blockI [OF take_block_rep [OF rep c PL FL n h'_def] tl(2) this n small_block(1) [OF rep s b]
      block_aligned [OF rep s b] tl(3) keep]
  show ?thesis by (simp add: tl(1) h'_def)
qed

lemma alloc_small_fresh:
  assumes inv: "heap_inv h L" and n: "n \<le> MAX_SMALL" and alloc: "alloc_small h n = Inr (p, h')"
  shows "fresh_block h L n p h'"
proof -
  obtain S R FL PL FR where rep: "heap_rep h S R FL PL FR" and L: "L = live h S R FL FR"
    using inv unfolding heap_inv_def by blast
  define c where "c = size_to_class n"
  have c: "c < 18" "n \<le> class_size ! c" using size_to_class_small [OF n] by (simp_all add: c_def)
  note part = rep_partial [OF rep c(1)]
  show ?thesis
  proof (cases "h_partial h ! c")
    case (Some s)
    then obtain ps where "PL c = s # ps" using part(1) by (auto simp: chain_Some)
    from take_block_fresh [OF rep c(1) this c(2), of h] show ?thesis
      using alloc Some by (simp add: alloc_small_def Let_def flip: c_def) (simp add: L)
  next
    case None
    then have PL: "PL c = []" using part(1) by simp
    define s where "s = carved h"
    define h2 where "h2 = fresh_slab (h\<lparr>h_bump := h_bump h + SLAB_SIZE\<rparr>) c s"
    from alloc None have room: "h_bump h + SLAB_SIZE \<le> h_end h"
      and res: "(p, h') = take_block h2 c s n"
      by (auto simp: alloc_small_def Let_def carve_def h2_def s_def slab_of_def carved_def
          simp flip: c_def split: if_splits)
    note fr = fresh_slab_rep [OF rep c(1) PL room s_def h2_def]
    have "region_ok h" using rep by (simp add: heap_rep_def)
    note mem = fresh_fields(7) [OF this c(1) room s_def h2_def]
    have "h_mem h2 (b + i) = h_mem h (b + i)" if "(b, j) \<in> L" "i < j" for b j i
      by (rule mem) (use live_below [OF rep] that L in fastforce)
    with take_block_fresh [OF fr(1) c(1) _ c(2), of s "[]" h] show ?thesis
      by (simp add: fr(2) flip: res L)
  qed
qed

subsection \<open>Releasing a block\<close>

lemma live_smallI: "s \<in> S \<Longrightarrow> b \<in> blocks_of h s \<Longrightarrow> b \<notin> set (FL s) \<Longrightarrow> (b, bsize h s) \<in> live h S R FL FR"
  unfolding live_def by blast

lemma live_runI: "r \<in> R \<Longrightarrow> r \<notin> set FR \<Longrightarrow> (slab_base h r, nslabs h r * SLAB_SIZE) \<in> live h S R FL FR"
  unfolding live_def by blast

lemma live_free_small:
  assumes rep: "heap_rep h S R FL PL FR" and s: "s \<in> S" and p: "p \<in> blocks_of h s" "p \<notin> set (FL s)"
  shows "live h S R (FL(s := p # FL s)) FR = live h S R FL FR - {(p, bsize h s)}" (is "?A = ?B")
proof (rule set_eqI)
  fix q :: "nat \<times> nat"
  obtain b k where q: "q = (b, k)" by (cases q)
  show "q \<in> ?A \<longleftrightarrow> q \<in> ?B"
  proof
    assume "q \<in> ?A"
    then show "q \<in> ?B"
      unfolding q
    proof (cases rule: live_cases)
      case (small t)
      then have "b \<noteq> p" using small_block_slab [OF rep] s p by (metis fun_upd_same list.set_intros(1))
      moreover have "b \<notin> set (FL t)" using small(3) by (auto split: if_splits)
      ultimately show "(b, k) \<in> ?B" using small live_smallI by blast
    next
      case (run r)
      then have "b \<noteq> p" if "k = bsize h s"
        using small_apart_run [OF rep s p(1) run(1)] small_block(4) [OF rep s p(1)] that by auto
      then show "(b, k) \<in> ?B" using run live_runI by blast
    qed
  next
    assume "q \<in> ?B"
    then have "(b, k) \<in> live h S R FL FR" and ne: "(b, k) \<noteq> (p, bsize h s)" using q by auto
    from this(1) show "q \<in> ?A"
      unfolding q
    proof (cases rule: live_cases)
      case (small t)
      then have "b \<notin> set ((FL(s := p # FL s)) t)" using ne by auto
      then show "(b, k) \<in> ?A" using small live_smallI by blast
    qed (use live_runI in blast)
  qed
qed

lemma live_free_run:
  assumes rep: "heap_rep h S R FL PL FR" and r: "r \<in> R" "r \<notin> set FR"
  shows "live h S R FL (r # FR) = live h S R FL FR - {(slab_base h r, nslabs h r * SLAB_SIZE)}" (is "?A = ?B")
proof (rule set_eqI)
  fix q :: "nat \<times> nat"
  obtain b k where q: "q = (b, k)" by (cases q)
  have pos: "0 < nslabs h r * SLAB_SIZE"
    using rep r by (auto simp: heap_rep_def layout_ok_def SLAB_SIZE_def)
  show "q \<in> ?A \<longleftrightarrow> q \<in> ?B"
  proof
    assume "q \<in> ?A"
    then show "q \<in> ?B"
      unfolding q
    proof (cases rule: live_cases)
      case (small t)
      then have "b \<noteq> slab_base h r"
        using small_apart_run [OF rep small(1,2) r(1)] small_block(4) [OF rep small(1,2)] pos by auto
      then show "(b, k) \<in> ?B" using small live_smallI by blast
    next
      case (run r')
      then have "b \<noteq> slab_base h r" by (auto simp: slab_base_def SLAB_SIZE_def)
      then show "(b, k) \<in> ?B" using run live_runI [of r' R FR] by auto
    qed
  next
    assume "q \<in> ?B"
    then have "(b, k) \<in> live h S R FL FR" and ne: "(b, k) \<noteq> (slab_base h r, nslabs h r * SLAB_SIZE)" using q by auto
    from this(1) show "q \<in> ?A"
      unfolding q
    proof (cases rule: live_cases)
      case (run r')
      then have "r' \<notin> set (r # FR)" using ne by auto
      then show "(b, k) \<in> ?A" using run live_runI by blast
    qed (use live_smallI in blast)
  qed
qed

end
