(* ===== verification/Heap_Ops.thy ===== *)
theory Heap_Ops
  imports Heap_Inv
begin

text \<open>
  The remaining operations of the kernel heap against the invariant of theory \<open>Heap_Inv\<close>: release
  of small blocks and of runs, allocation of runs from the free-run list and from the bump region,
  and the contract of the allocator as a locale.
\<close>

subsection \<open>Release of a small block\<close>

lemma same_shape_free: "same_shape h (free_small h s p)"
  by (auto simp: same_shape_def free_small_def Let_def)

lemma free_small_fields:
  assumes "sl_free_count (h_descs h s) = length (fl)" and "h' = free_small h s p"
  shows "t \<noteq> s \<Longrightarrow> h_descs h' t = h_descs h t"
    and "sl_free_list (h_descs h' s) = p"
    and "sl_free_count (h_descs h' s) = Suc (length (fl))"
    and "next_slab h' s = (if fl = [] then h_partial h ! sl_class (h_descs h s) else next_slab h s)"
    and "h_partial h' = (if fl = [] then (h_partial h)[sl_class (h_descs h s) := Some s] else h_partial h)"
    and "h_free_runs h' = h_free_runs h"
    and "h_mem h' = store_ptr (h_mem h) p (sl_free_list (h_descs h s))"
  using assms by (auto simp: free_small_def Let_def next_slab_def)

lemma free_small_slabs:
  assumes rep: "heap_rep h S R FL PL FR" and s: "s \<in> S" and p: "p \<in> blocks_of h s" "p \<notin> set (FL s)"
    and h': "h' = free_small h s p"
  shows "slabs_ok h' S (FL(s := p # FL s))"
  unfolding slabs_ok_def
proof
  fix t assume t: "t \<in> S"
  note sl = rep_slab [OF rep s] and f = free_small_fields [OF rep_slab(3) [OF rep s] h']
  have shape: "same_shape h h'" unfolding h' by (rule same_shape_free)
  have slabs: "slabs_ok h S FL" using rep by (simp add: heap_rep_def)
  have keep: "h_mem h' (x + k) = h_mem h (x + k)" if "x \<in> set (FL u)" "u \<in> S" "k < 8" for x k u
  proof -
    have x: "x \<in> blocks_of h u" using rep_slab(2) [OF rep that(2)] that(1) by blast
    have "x \<noteq> p" using that(1,2) x p s small_block_slab [OF rep] by metis
    then have "p + bsize h s \<le> x \<or> x + bsize h u \<le> p" using blocks_disjoint [OF p(1) x] by blast
    then show ?thesis
      using small_block(4) [OF rep that(2) x] small_block(4) [OF rep s p(1)] that(3)
      unfolding f(7) by (intro store_ptr_other) auto
  qed
  let ?FL = "FL(s := p # FL s)"
  show "sl_class (h_descs h' t) < 18 \<and> chain (next_free (h_mem h')) (ptr (sl_free_list (h_descs h' t))) (?FL t)
     \<and> set (?FL t) \<subseteq> blocks_of h' t \<and> sl_free_count (h_descs h' t) = length (?FL t)"
  proof (cases "t = s")
    case False
    then show ?thesis
      using keep [OF _ t] by (intro slabs_ok_other [OF slabs shape t f(1) [OF False]]) simp_all
  next
    case True
    have "sl_free_list (h_descs h s) < 2 ^ 64"
      using sl(1,2) small_block(3) [OF rep s] by (cases "FL s") (auto simp: ptr_def split: if_splits)
    then have "next_free (h_mem h') p = ptr (sl_free_list (h_descs h s))"
      by (simp add: f(7) next_free_def load_store_ptr)
    moreover have "chain (next_free (h_mem h')) (ptr (sl_free_list (h_descs h s))) (FL s)"
      using chain_next_free_frame [OF sl(1)] keep [OF _ s] by blast
    ultimately show ?thesis
      using True f(2,3) sl p small_block(1) [OF rep s p(1)] shape
      by (auto simp: ptr_def same_shape_def same_shape_simps(4) [OF shape])
  qed
qed

lemma free_small_partial:
  assumes rep: "heap_rep h S R FL PL FR" and s: "s \<in> S" and h': "h' = free_small h s p"
  defines "c \<equiv> sl_class (h_descs h s)"
  shows "partial_ok h' S (FL(s := p # FL s)) (PL(c := if FL s = [] then s # PL c else PL c))"
  unfolding partial_ok_def
proof (intro allI impI)
  fix c' :: nat assume c': "c' < 18"
  note sl = rep_slab [OF rep s, folded c_def] and f = free_small_fields [OF rep_slab(3) [OF rep s] h', folded c_def]
  note old = rep_partial [OF rep c'] and oldc = rep_partial [OF rep sl(4)]
  have len: "length (h_partial h) = 18" using rep by (simp add: heap_rep_def region_ok_def)
  have cls: "sl_class (h_descs h' t) = sl_class (h_descs h t)" for t
    using same_shape_free [of h s p] by (simp add: same_shape_def h')
  have nx: "next_slab h' t = next_slab h t" if "t \<noteq> s \<or> FL s \<noteq> []" for t
    using that f(1) [of t] f(4) by (cases "t = s") (auto simp: next_slab_def)
  let ?PL = "PL(c := if FL s = [] then s # PL c else PL c)"
  have same: "chain (next_slab h') (h_partial h ! c') (PL c')"
    by (rule chain_next_slab_frame [OF old(1)], rule nx) (use old(2) in auto)
  then have "chain (next_slab h') (h_partial h' ! c') (?PL c')"
    using f(4,5) len c' by auto
  moreover have "set (?PL c') = {t \<in> S. sl_class (h_descs h' t) = c' \<and> (FL(s := p # FL s)) t \<noteq> []}"
    using old(2) s c' by (cases "c' = c") (auto simp: cls c_def)
  ultimately show "chain (next_slab h') (h_partial h' ! c') (?PL c')
     \<and> set (?PL c') = {t \<in> S. sl_class (h_descs h' t) = c' \<and> (FL(s := p # FL s)) t \<noteq> []}" by blast
qed

text \<open>A release removes one live block and keeps the contents of the others.\<close>

definition released :: "heap \<Rightarrow> (nat \<times> nat) set \<Rightarrow> nat \<times> nat \<Rightarrow> heap \<Rightarrow> bool" where
  "released h L q h' \<longleftrightarrow> heap_inv h' (L - {q}) \<and> (\<forall>(b, j)\<in>L - {q}. \<forall>i<j. h_mem h' (b + i) = h_mem h (b + i))"

lemma free_small_released:
  assumes rep: "heap_rep h S R FL PL FR" and s: "s \<in> S" and p: "p \<in> blocks_of h s" "p \<notin> set (FL s)"
  shows "released h (live h S R FL FR) (p, bsize h s) (free_small h s p)"
proof -
  define h' where "h' = free_small h s p"
  note f = free_small_fields [OF rep_slab(3) [OF rep s] h'_def]
  have shape: "same_shape h h'" unfolding h'_def by (rule same_shape_free)
  have "s \<notin> set FR"
    using rep s small_not_run [of h S R s] by (auto simp: heap_rep_def runs_ok_def)
  then have "h_descs h' t = h_descs h t" if "t \<in> set FR" for t using that f(1) by metis
  then have "runs_ok h' R FR" using runs_ok_frame [of h R FR h'] f(6) rep by (simp add: heap_rep_def)
  then have "heap_rep h' S R (FL(s := p # FL s))
     (PL(sl_class (h_descs h s) := if FL s = [] then s # PL (sl_class (h_descs h s)) else PL (sl_class (h_descs h s)))) FR"
    using rep free_small_slabs [OF rep s p h'_def] free_small_partial [OF rep s h'_def]
    by (simp add: heap_rep_def same_shape_simps [OF shape])
  then have "heap_inv h' (live h' S R (FL(s := p # FL s)) FR)" unfolding heap_inv_def by blast
  then have inv: "heap_inv h' (live h S R FL FR - {(p, bsize h s)})"
    by (simp add: same_shape_simps(8) [OF shape] live_free_small [OF rep s p])
  have "h_mem h' (b + i) = h_mem h (b + i)"
    if "(b, j) \<in> live h S R FL FR - {(p, bsize h s)}" "i < j" for b j i
    using live_disjoint [OF rep live_smallI [of s S p h FL R FR, OF s p], of b j] that small_block(4) [OF rep s p(1)]
    unfolding f(7) by (intro store_ptr_other) auto
  then show ?thesis using inv unfolding released_def h'_def by blast
qed

subsection \<open>Changes to runs\<close>

text \<open>A step that leaves the small slabs and their free blocks alone only has to account for the runs.\<close>

lemma rep_change_runs:
  assumes rep: "heap_rep h S R FL PL FR"
    and "h_base h' = h_base h" "h_partial h' = h_partial h"
    and desc: "\<And>t. t \<in> S \<Longrightarrow> h_descs h' t = h_descs h t"
    and mem: "\<And>t b k. t \<in> S \<Longrightarrow> b \<in> blocks_of h t \<Longrightarrow> k < 8 \<Longrightarrow> h_mem h' (b + k) = h_mem h (b + k)"
    and "region_ok h'" "layout_ok h' S R'" "runs_ok h' R' FR'"
  shows "heap_rep h' S R' FL PL FR'"
proof -
  have sb: "slab_base h' = slab_base h" using assms(2) by (simp add: slab_base_def fun_eq_iff)
  note same = descs_same [OF desc] descs_same(4) [OF desc sb]
  have "slabs_ok h' S FL"
    unfolding slabs_ok_def
  proof
    fix t assume t: "t \<in> S"
    have "chain (next_free (h_mem h')) (ptr (sl_free_list (h_descs h' t))) (FL t)"
      unfolding desc [OF t] by (rule chain_next_free_frame [OF rep_slab(1) [OF rep t]])
        (use mem [OF t] rep_slab(2) [OF rep t] in blast)
    then show "sl_class (h_descs h' t) < 18 \<and> chain (next_free (h_mem h')) (ptr (sl_free_list (h_descs h' t))) (FL t)
       \<and> set (FL t) \<subseteq> blocks_of h' t \<and> sl_free_count (h_descs h' t) = length (FL t)"
      using rep_slab(2-4) [OF rep t] desc [OF t] same(5) [OF t] by simp
  qed
  moreover have "partial_ok h' S FL PL"
    unfolding partial_ok_def
  proof (intro allI impI)
    fix c :: nat assume c: "c < 18"
    note old = rep_partial [OF rep c]
    have "chain (next_slab h') (h_partial h' ! c) (PL c)"
      unfolding assms(3) by (rule chain_next_slab_frame [OF old(1)], rule same(3)) (use old(2) in auto)
    then show "chain (next_slab h') (h_partial h' ! c) (PL c) \<and> set (PL c) = {s \<in> S. sl_class (h_descs h' s) = c \<and> FL s \<noteq> []}"
      using old(2) desc by auto
  qed
  ultimately show ?thesis using assms(6-8) by (simp add: heap_rep_def)
qed

lemma live_change_runs:
  assumes "h_base h' = h_base h" and "\<And>t. t \<in> S \<Longrightarrow> h_descs h' t = h_descs h t"
    and runs: "{(r, nslabs h' r) | r. r \<in> R' - set FR'} = insert (r0, n) {(r, nslabs h r) | r. r \<in> R - set FR}"
  shows "live h' S R' FL FR' = insert (slab_base h r0, n * SLAB_SIZE) (live h S R FL FR)"
proof -
  have sb: "slab_base h' = slab_base h" using assms(1) by (simp add: slab_base_def fun_eq_iff)
  note same = descs_same [OF assms(2)] descs_same(4) [OF assms(2) sb]
  have small: "{(b, bsize h' s) | b s. s \<in> S \<and> b \<in> blocks_of h' s - set (FL s)}
      = {(b, bsize h s) | b s. s \<in> S \<and> b \<in> blocks_of h s - set (FL s)}"
    using same(1,5) by auto metis
  have img: "{(slab_base h r, f r * SLAB_SIZE) | r. r \<in> Q} = (\<lambda>(r, k). (slab_base h r, k * SLAB_SIZE)) ` {(r, f r) | r. r \<in> Q}"
    for f :: "nat \<Rightarrow> nat" and Q by auto
  have "{(slab_base h r, nslabs h' r * SLAB_SIZE) | r. r \<in> R' - set FR'}
      = insert (slab_base h r0, n * SLAB_SIZE) {(slab_base h r, nslabs h r * SLAB_SIZE) | r. r \<in> R - set FR}"
    unfolding img runs by simp
  then show ?thesis unfolding live_def sb small by blast
qed

lemma free_run_released:
  assumes rep: "heap_rep h S R FL PL FR" and r: "r \<in> R" "r \<notin> set FR"
    and h': "h' = h\<lparr>h_descs := (h_descs h)(r := (h_descs h r)\<lparr>sl_next := h_free_runs h\<rparr>), h_free_runs := Some r\<rparr>"
  shows "released h (live h S R FL FR) (slab_base h r, nslabs h r * SLAB_SIZE) h'"
proof -
  have shape: "same_shape h h'" by (auto simp: same_shape_def h')
  have lay: "layout_ok h S R" and reg: "region_ok h" and ro: "runs_ok h R FR" using rep by (simp_all add: heap_rep_def)
  have "next_slab h' = (next_slab h)(r := h_free_runs h)" by (auto simp: h' next_slab_def fun_eq_iff)
  then have "runs_ok h' R (r # FR)" using ro r by (simp add: runs_ok_def h')
  moreover have "region_ok h'" "layout_ok h' S R"
    using reg lay by (simp_all add: same_shape_simps [OF shape])
  ultimately have "heap_rep h' S R FL PL (r # FR)"
    by (intro rep_change_runs [OF rep]) (use small_not_run [OF lay] r in \<open>auto simp: h'\<close>)
  then have "heap_inv h' (live h S R FL FR - {(slab_base h r, nslabs h r * SLAB_SIZE)})"
    unfolding heap_inv_def same_shape_simps(8) [OF shape, symmetric]
    by (metis live_free_run [OF rep r] same_shape_simps(8) [OF shape])
  then show ?thesis by (simp add: released_def h')
qed

lemma slab_of_base: "slab_of h (slab_base h r) = r"
  by (simp add: slab_of_def slab_base_def SLAB_SIZE_def)

lemma heap_free_released:
  assumes inv: "heap_inv h L" and p: "(p, k) \<in> L"
  shows "released h L (p, k) (heap_free h p)" and "heap_usable_size h p = k" and "0 < p"
proof -
  obtain S R FL PL FR where rep: "heap_rep h S R FL PL FR" and L: "L = live h S R FL FR"
    using inv unfolding heap_inv_def by blast
  have pos: "0 < h_base h" using rep by (simp add: heap_rep_def region_ok_def)
  have "(p, k) \<in> live h S R FL FR" using p L by simp
  then have "released h L (p, k) (heap_free h p) \<and> heap_usable_size h p = k \<and> 0 < p"
  proof (cases rule: live_cases)
    case (small s)
    then have "slab_of h p = s" "0 < p" "sl_class (h_descs h s) \<noteq> LARGE_CLASS"
      using small_block_slab [OF rep] small_block(1) [OF rep] rep_slab(4) [OF rep small(1)]
      by (auto simp: LARGE_CLASS_def)
    then show ?thesis
      using free_small_released [OF rep small(1-3)] small(4)
      by (simp add: L heap_free_def heap_usable_size_def bsize_def)
  next
    case (run r)
    have "sl_class (h_descs h r) = LARGE_CLASS" using rep run by (auto simp: heap_rep_def layout_ok_def)
    moreover have "0 < p" using run pos by (simp add: slab_base_def)
    ultimately show ?thesis
      using free_run_released [OF rep run(1,2) refl] run slab_of_base [of h r]
      by (simp add: L heap_free_def heap_usable_size_def nslabs_def Let_def)
  qed
  then show "released h L (p, k) (heap_free h p)" "heap_usable_size h p = k" "0 < p" by blast+
qed

subsection \<open>Allocation of runs\<close>

lemma find_run_spec:
  assumes "chain (\<lambda>s. sl_next (d s)) cur xs" and "length xs < fuel"
  shows "case find_run fuel d n prev cur of
      None \<Rightarrow> \<forall>x\<in>set xs. sl_nslabs (d x) < n
    | Some (pv, r) \<Rightarrow> \<exists>as bs. xs = as @ r # bs \<and> n \<le> sl_nslabs (d r)
        \<and> pv = (if as = [] then prev else Some (last as))"
  using assms
proof (induction fuel arbitrary: prev cur xs)
  case (Suc fuel)
  show ?case
  proof (cases xs)
    case (Cons x ys)
    with Suc.prems have cur: "cur = Some x" and ys: "chain (\<lambda>s. sl_next (d s)) (sl_next (d x)) ys" "length ys < fuel"
      by simp_all
    show ?thesis
    proof (cases "sl_nslabs (d x) < n")
      case True
      from Suc.IH [OF ys, of "Some x"] show ?thesis
        using True cur Cons by (fastforce split: option.splits intro: exI [of _ "x # _"])
    next
      case False
      then show ?thesis using cur Cons by (auto intro: exI [of _ "[]"])
    qed
  qed (use Suc.prems in simp)
qed simp

lemma take_run_fields:
  assumes ch: "chain (next_slab h) (h_free_runs h) (as @ r # bs)" and n: "0 < n" "n \<le> nslabs h r"
    and rm: "n < nslabs h r \<longrightarrow> r + n \<notin> set (as @ r # bs)"
    and h2: "h2 = split_run (unlink_run h (if as = [] then None else Some (last as)) r) r n"
  defines "split \<equiv> n < nslabs h r"
  shows "t \<noteq> r \<Longrightarrow> t \<noteq> r + n \<or> \<not> split \<Longrightarrow> sl_class (h_descs h2 t) = sl_class (h_descs h t) \<and> nslabs h2 t = nslabs h t"
    and "t \<notin> set (as @ r # bs) \<Longrightarrow> t \<noteq> r + n \<or> \<not> split \<Longrightarrow> h_descs h2 t = h_descs h t"
    and "nslabs h2 r = n" "sl_class (h_descs h2 r) = LARGE_CLASS"
    and "split \<Longrightarrow> nslabs h2 (r + n) = nslabs h r - n \<and> sl_class (h_descs h2 (r + n)) = LARGE_CLASS"
    and "h_base h2 = h_base h" "h_bump h2 = h_bump h" "h_end h2 = h_end h" "h_partial h2 = h_partial h" "h_mem h2 = h_mem h"
    and "chain (next_slab h2) (h_free_runs h2) (if split then (r + n) # as @ bs else as @ bs)"
proof -
  define h1 where "h1 = unlink_run h (if as = [] then None else Some (last as)) r"
  have dist: "distinct (as @ r # bs)" using ch by (rule chain_distinct)
  have nx: "next_slab h1 = (if as = [] then next_slab h else (next_slab h)(last as := next_slab h r))"
    and hd: "h_free_runs h1 = (if as = [] then next_slab h r else h_free_runs h)"
    and sz: "nslabs h1 = nslabs h"
    by (auto simp: h1_def unlink_run_def next_slab_def nslabs_def fun_eq_iff)
  have c1: "chain (next_slab h1) (h_free_runs h1) (as @ bs)"
    unfolding nx hd by (rule chain_remove [OF ch])
  have nx2: "next_slab h2 t = (if split \<and> t = r + n then h_free_runs h1 else next_slab h1 t)" for t
    using n(1) sz by (auto simp: h2 split_run_def Let_def split_def next_slab_def simp flip: h1_def nslabs_def)
  have hd2: "h_free_runs h2 = (if split then Some (r + n) else h_free_runs h1)"
    using sz by (auto simp: h2 split_run_def Let_def split_def simp flip: h1_def nslabs_def)
  have "chain (next_slab h2) (h_free_runs h1) (as @ bs)"
    by (rule chain_next_slab_frame [OF c1]) (use rm nx2 in \<open>auto simp: split_def\<close>)
  then show "chain (next_slab h2) (h_free_runs h2) (if split then (r + n) # as @ bs else as @ bs)"
    by (simp add: hd2 nx2)
  assume t: "t \<notin> set (as @ r # bs)" "t \<noteq> r + n \<or> \<not> split"
  then have "as \<noteq> [] \<Longrightarrow> t \<noteq> last as" by auto
  with t n show "h_descs h2 t = h_descs h t"
    by (auto simp: h2 split_run_def unlink_run_def Let_def nslabs_def split_def)
qed (use n in \<open>auto simp: h2 split_run_def unlink_run_def Let_def nslabs_def split_def\<close>)

lemma run_tail_unused:
  assumes rep: "heap_rep h S R FL PL FR" and r: "r \<in> R" and n: "0 < n" "n < nslabs h r"
  shows "r + n \<notin> S" "r + n \<notin> R"
proof -
  have lay: "layout_ok h S R" using rep by (simp add: heap_rep_def)
  show "r + n \<notin> S" using lay r n unfolding layout_ok_def by fastforce
  show "r + n \<notin> R"
  proof
    assume "r + n \<in> R"
    moreover have "r \<noteq> r + n" using n(1) by simp
    ultimately have "r + nslabs h r \<le> r + n \<or> r + n + nslabs h (r + n) \<le> r"
      using lay r unfolding layout_ok_def by blast
    then show False using n by simp
  qed
qed

lemma run_not_live:
  assumes rep: "heap_rep h S R FL PL FR" and r: "r \<in> set FR"
  shows "(slab_base h r, k) \<notin> live h S R FL FR"
proof
  have rR: "r \<in> R" and pos: "0 < nslabs h r * SLAB_SIZE"
    using rep r by (auto simp: heap_rep_def runs_ok_def layout_ok_def SLAB_SIZE_def)
  assume "(slab_base h r, k) \<in> live h S R FL FR"
  then show False
  proof (cases rule: live_cases)
    case (small s)
    then show False using small_apart_run [OF rep small(1,2) rR] small_block(4) [OF rep small(1,2)] pos by simp
  next
    case (run r')
    then show False using r by (auto simp: slab_base_def SLAB_SIZE_def)
  qed
qed

lemma layout_split:
  assumes lay: "layout_ok h S R" and r: "r \<in> R" and n: "0 < n" "n \<le> nslabs h r" and "carved h' = carved h"
    and nR: "\<And>t. t \<in> R \<Longrightarrow> nslabs h' t = (if t = r then n else nslabs h t) \<and> sl_class (h_descs h' t) = LARGE_CLASS"
    and nrm: "n < nslabs h r \<Longrightarrow> nslabs h' (r + n) = nslabs h r - n \<and> sl_class (h_descs h' (r + n)) = LARGE_CLASS"
  shows "layout_ok h' S (if n < nslabs h r then insert (r + n) R else R)" (is "layout_ok h' S ?R")
proof -
  have old: "S \<subseteq> {..<carved h}" "\<And>q. q \<in> R \<Longrightarrow> 0 < nslabs h q \<and> q + nslabs h q \<le> carved h"
    "\<And>s q. s \<in> S \<Longrightarrow> q \<in> R \<Longrightarrow> s < q \<or> q + nslabs h q \<le> s"
    "\<And>q q'. q \<in> R \<Longrightarrow> q' \<in> R \<Longrightarrow> q \<noteq> q' \<Longrightarrow> q + nslabs h q \<le> q' \<or> q' + nslabs h q' \<le> q"
    using lay by (simp_all add: layout_ok_def)
  have par: "\<exists>q\<in>R. q \<le> t \<and> t + nslabs h' t \<le> q + nslabs h q \<and> 0 < nslabs h' t
      \<and> sl_class (h_descs h' t) = LARGE_CLASS \<and> (t = q \<or> q = r \<and> t = r + n)" if "t \<in> ?R" for t
  proof (cases "t \<in> R")
    case True
    then show ?thesis using nR [OF True] old(2) [OF True] n by (intro bexI [of _ t]) auto
  next
    case False
    then show ?thesis using that nrm n r by (intro bexI [of _ r]) (auto split: if_splits)
  qed
  have "s < t \<or> t + nslabs h' t \<le> s" if "s \<in> S" "t \<in> ?R" for s t
    using par [OF that(2)] old(3) [OF that(1)] by fastforce
  moreover have "t + nslabs h' t \<le> t' \<or> t' + nslabs h' t' \<le> t" if "t \<in> ?R" "t' \<in> ?R" "t \<noteq> t'" for t t'
  proof -
    from par [OF that(1)] par [OF that(2)] obtain q q' where
      q: "q \<in> R" "q \<le> t" "t + nslabs h' t \<le> q + nslabs h q" "t = q \<or> q = r \<and> t = r + n" and
      q': "q' \<in> R" "q' \<le> t'" "t' + nslabs h' t' \<le> q' + nslabs h q'" "t' = q' \<or> q' = r \<and> t' = r + n" by metis
    show ?thesis
    proof (cases "q = q'")
      case False
      then show ?thesis using old(4) [OF q(1) q'(1)] q q' by linarith
    next
      case True
      then show ?thesis using q(4) q'(4) that(3) nR [OF r] by auto
    qed
  qed
  moreover have "0 < nslabs h' t \<and> t + nslabs h' t \<le> carved h \<and> sl_class (h_descs h' t) = LARGE_CLASS" if "t \<in> ?R" for t
    using par [OF that] old(2) by force
  ultimately show ?thesis using old(1) unfolding layout_ok_def assms(5) by blast
qed

lemma take_run_rep:
  assumes rep: "heap_rep h S R FL PL FR" and FR: "FR = as @ r # bs" and n: "0 < n" "n \<le> nslabs h r"
    and tot: "tot \<le> n * SLAB_SIZE"
    and h2: "h2 = split_run (unlink_run h (if as = [] then None else Some (last as)) r) r n"
    and h': "h' = h2\<lparr>h_mem := fill (h_mem h2) (slab_base h r) 0 tot\<rparr>"
  defines "R' \<equiv> (if n < nslabs h r then insert (r + n) R else R)"
    and "FR' \<equiv> (if n < nslabs h r then (r + n) # as @ bs else as @ bs)"
  shows "heap_rep h' S R' FL PL FR'"
    and "live h' S R' FL FR' = insert (slab_base h r, n * SLAB_SIZE) (live h S R FL FR)"
proof -
  have reg: "region_ok h" and lay: "layout_ok h S R" and ch: "chain (next_slab h) (h_free_runs h) (as @ r # bs)"
    and sub: "set (as @ r # bs) \<subseteq> R"
    using rep by (auto simp: heap_rep_def runs_ok_def FR)
  have r: "r \<in> R" using sub by simp
  have rm: "n < nslabs h r \<longrightarrow> r + n \<notin> S \<and> r + n \<notin> R" using run_tail_unused [OF rep r n(1)] by blast
  have dist: "distinct (as @ r # bs)" using ch by (rule chain_distinct)
  have rmFR: "n < nslabs h r \<longrightarrow> r + n \<notin> set (as @ r # bs)" using rm sub by blast
  note f = take_run_fields [OF ch n rmFR h2]
  have dS: "h_descs h' t = h_descs h t" if "t \<in> S" for t
    using f(2) [of t] small_not_run [OF lay that] that sub rm by (auto simp: h')
  have nR: "nslabs h' t = (if t = r then n else nslabs h t)" "sl_class (h_descs h' t) = LARGE_CLASS"
    if "t \<in> R" for t
    using f(1) [of t] f(3,4) that rm lay by (auto simp: h' nslabs_def layout_ok_def)
  have nrm: "nslabs h' (r + n) = nslabs h r - n" "sl_class (h_descs h' (r + n)) = LARGE_CLASS" if "n < nslabs h r"
    using f(5) [OF that] by (auto simp: h' nslabs_def)
  have geo: "region_ok h'" "carved h' = carved h"
    using reg f(6-9) by (simp_all add: h' region_ok_def carved_def)
  have "next_slab h' = next_slab h2" "h_free_runs h' = h_free_runs h2"
    by (simp_all add: h' next_slab_def fun_eq_iff)
  then have "runs_ok h' R' FR'"
    using f(11) sub by (auto simp: runs_ok_def R'_def FR'_def)
  moreover have "layout_ok h' S R'"
    unfolding R'_def using layout_split [OF lay r n geo(2)] nR nrm rm by blast
  moreover have "h_mem h' (b + k) = h_mem h (b + k)" if "t \<in> S" "b \<in> blocks_of h t" "k < 8" for t b k
    using small_apart_run [OF rep that(1,2) r] small_block(4) [OF rep that(1,2)] that(3)
      le_trans [OF tot mult_le_mono1 [OF n(2)]] f(10)
    by (auto simp: h' fill_def)
  ultimately show "heap_rep h' S R' FL PL FR'"
    using geo dS f(6,9) by (intro rep_change_runs [OF rep]) (auto simp: h')
  have "R' - set FR' = insert r (R - set FR)"
    using sub dist rm by (auto simp: R'_def FR'_def FR)
  then have "{(t, nslabs h' t) | t. t \<in> R' - set FR'} = insert (r, n) {(t, nslabs h t) | t. t \<in> R - set FR}"
    using nR r by (auto simp: FR)
  then show "live h' S R' FL FR' = insert (slab_base h r, n * SLAB_SIZE) (live h S R FL FR)"
    using f(6) dS by (intro live_change_runs) (simp_all add: h')
qed

lemma layout_insert:
  assumes lay: "layout_ok h S R" and s: "s = carved h" and n: "0 < n" and "carved h' = s + n"
    and new: "nslabs h' s = n" "sl_class (h_descs h' s) = LARGE_CLASS"
    and same: "\<And>t. t \<in> R \<Longrightarrow> nslabs h' t = nslabs h t \<and> h_descs h' t = h_descs h t"
  shows "layout_ok h' S (insert s R)"
proof -
  have old: "S \<subseteq> {..<s}" "\<And>q. q \<in> R \<Longrightarrow> 0 < nslabs h q \<and> q + nslabs h q \<le> s \<and> sl_class (h_descs h q) = LARGE_CLASS"
    "\<And>t q. t \<in> S \<Longrightarrow> q \<in> R \<Longrightarrow> t < q \<or> q + nslabs h q \<le> t"
    "\<And>q q'. q \<in> R \<Longrightarrow> q' \<in> R \<Longrightarrow> q \<noteq> q' \<Longrightarrow> q + nslabs h q \<le> q' \<or> q' + nslabs h q' \<le> q"
    using lay by (simp_all add: layout_ok_def s)
  have "0 < nslabs h' q \<and> q + nslabs h' q \<le> s + n \<and> sl_class (h_descs h' q) = LARGE_CLASS" if "q \<in> insert s R" for q
    using that old(2) [of q] same [of q] new n by (cases "q = s") auto
  moreover have "t < q \<or> q + nslabs h' q \<le> t" if "t \<in> S" "q \<in> insert s R" for t q
    using that old(1,3) same by (cases "q = s") auto
  moreover have "q + nslabs h' q \<le> q' \<or> q' + nslabs h' q' \<le> q" if "q \<in> insert s R" "q' \<in> insert s R" "q \<noteq> q'" for q q'
    using that old(2,4) same by (cases "q = s"; cases "q' = s") auto
  ultimately show ?thesis using old(1) unfolding layout_ok_def assms(4) by fastforce
qed

lemma carve_run_rep:
  assumes rep: "heap_rep h S R FL PL FR" and n: "0 < n" and room: "h_bump h + n * SLAB_SIZE \<le> h_end h"
    and s: "s = carved h"
    and h': "h' = h\<lparr>h_bump := h_bump h + n * SLAB_SIZE,
        h_descs := (h_descs h)(s := (h_descs h s)\<lparr>sl_class := LARGE_CLASS, sl_nslabs := n\<rparr>),
        h_mem := fill (h_mem h) (slab_base h s) 0 tot\<rparr>"
  shows "heap_rep h' S (insert s R) FL PL FR"
    and "live h' S (insert s R) FL FR = insert (slab_base h s, n * SLAB_SIZE) (live h S R FL FR)"
    and "(slab_base h s, n * SLAB_SIZE) \<notin> live h S R FL FR"
proof -
  have reg: "region_ok h" and lay: "layout_ok h S R" and ro: "runs_ok h R FR" using rep by (simp_all add: heap_rep_def)
  have base: "slab_base h s = h_bump h" using slab_base_carved [OF reg] s by simp
  have new: "t \<noteq> s" if "t \<in> S \<union> R" for t using carved_above [OF lay that] s by simp
  have dsc: "h_descs h' t = h_descs h t" if "t \<noteq> s" for t using that by (simp add: h')
  have ns: "nslabs h' t = (if t = s then n else nslabs h t)" for t by (simp add: h' nslabs_def)
  have grow: "region_ok h'" "carved h' = s + n"
    using region_grow [OF reg room, of h'] s by (simp_all add: h')
  have lay': "layout_ok h' S (insert s R)"
    by (rule layout_insert [OF lay s n grow(2)]) (use new dsc in \<open>auto simp: ns, simp add: h'\<close>)
  have "h_descs h' t = h_descs h t" if "t \<in> set FR" for t
    using dsc new ro that by (auto simp: runs_ok_def)
  then have "runs_ok h' R FR" by (intro runs_ok_frame [OF ro]) (simp_all add: h')
  then have ro': "runs_ok h' (insert s R) FR" by (auto simp: runs_ok_def)
  have mem: "h_mem h' x = h_mem h x" if "x < h_bump h" for x
    using that base by (simp add: h' fill_def)
  show "heap_rep h' S (insert s R) FL PL FR"
    by (rule rep_change_runs [OF rep _ _ _ _ grow(1) lay' ro'])
      (use dsc new small_block(2,4) [OF rep] in \<open>force simp: h' intro!: mem\<close>)+
  have "insert s R - set FR = insert s (R - set FR)"
    using ro new by (auto simp: runs_ok_def)
  then have "{(t, nslabs h' t) | t. t \<in> insert s R - set FR} = insert (s, n) {(t, nslabs h t) | t. t \<in> R - set FR}"
    using new by (auto simp: ns)
  then show "live h' S (insert s R) FL FR = insert (slab_base h s, n * SLAB_SIZE) (live h S R FL FR)"
    using dsc new by (intro live_change_runs) (simp_all add: h')
  show "(slab_base h s, n * SLAB_SIZE) \<notin> live h S R FL FR"
    using live_below [OF rep, of "slab_base h s" "n * SLAB_SIZE"] n base by (auto simp: SLAB_SIZE_def)
qed

lemma run_length:
  assumes "0 < tot" and "tot \<le> (2 ^ 32 - 1) * SLAB_SIZE"
  defines "n \<equiv> ((tot + SLAB_SIZE - 1) div SLAB_SIZE) mod 2 ^ 32"
  shows "n = (tot + SLAB_SIZE - 1) div SLAB_SIZE" "0 < n" "tot \<le> n * SLAB_SIZE"
proof -
  have "tot + SLAB_SIZE - 1 < 2 ^ 32 * SLAB_SIZE" using assms by (simp add: SLAB_SIZE_def)
  then have "(tot + SLAB_SIZE - 1) div SLAB_SIZE < 2 ^ 32" by (rule less_mult_imp_div_less)
  then show n: "n = (tot + SLAB_SIZE - 1) div SLAB_SIZE" by (simp add: n_def)
  show "0 < n" unfolding n using assms(1) by (simp add: SLAB_SIZE_def div_greater_zero_iff)
  have "tot + SLAB_SIZE - 1 < Suc n * SLAB_SIZE"
    unfolding n using dividend_less_div_times [of SLAB_SIZE "tot + SLAB_SIZE - 1"] by (simp add: SLAB_SIZE_def)
  then show "tot \<le> n * SLAB_SIZE" by (simp add: SLAB_SIZE_def)
qed

lemma free_runs_bounded:
  assumes rep: "heap_rep h S R FL PL FR"
  shows "length FR < Suc (slab_of h (h_bump h))"
proof -
  have "distinct FR" "set FR \<subseteq> {..<carved h}"
    using rep carved_above [of h S R] by (auto simp: heap_rep_def runs_ok_def dest: chain_distinct)
  then have "length FR \<le> carved h"
    using card_mono [of "{..<carved h}" "set FR"] by (simp add: distinct_card)
  then show ?thesis by (simp add: carved_def slab_of_def)
qed

lemma alloc_large_fresh:
  assumes inv: "heap_inv h L" and tot: "0 < tot" "tot \<le> (2 ^ 32 - 1) * SLAB_SIZE"
    and alloc: "alloc_large h tot = Inr (p, h')"
  shows "fresh_block h L tot p h'"
proof -
  obtain S R FL PL FR where rep: "heap_rep h S R FL PL FR" and L: "L = live h S R FL FR"
    using inv unfolding heap_inv_def by blast
  define n where "n = ((tot + SLAB_SIZE - 1) div SLAB_SIZE) mod 2 ^ 32"
  note len = run_length(2,3) [OF tot, folded n_def]
  have reg: "region_ok h" and ch: "chain (\<lambda>s. sl_next (h_descs h s)) (h_free_runs h) FR"
    using rep by (simp_all add: heap_rep_def runs_ok_def next_slab_def [abs_def])
  have pos: "0 < slab_base h t" "slab_base h t mod 16 = 0" for t
    using reg by (auto simp: region_ok_def slab_base_def SLAB_SIZE_def)
  note al = alloc [unfolded alloc_large_def Let_def, folded n_def]
  note fr = find_run_spec [OF ch free_runs_bounded [OF rep], of n None]
  show ?thesis
  proof (cases "find_run (Suc (slab_of h (h_bump h))) (h_descs h) n None (h_free_runs h)")
    case (Some q)
    then obtain r as bs where q: "q = (if as = [] then None else Some (last as), r)" "FR = as @ r # bs" "n \<le> nslabs h r"
      using fr by (cases q) (auto simp: nslabs_def)
    define h2 where "h2 = split_run (unlink_run h (if as = [] then None else Some (last as)) r) r n"
    have res: "p = slab_base h r" "h' = h2\<lparr>h_mem := fill (h_mem h2) (slab_base h r) 0 tot\<rparr>"
      using al unfolding Some q(1) by (auto simp: memset_eq_fill h2_def)
    have mem: "h_mem h2 = h_mem h"
      by (simp add: h2_def split_run_def unlink_run_def Let_def split: option.split)
    note tr = take_run_rep [OF rep q(2) len(1) q(3) len(2) h2_def res(2)]
    show ?thesis
      unfolding L res(1)
      by (rule fresh_blockI [OF tr _ len(2) pos, where m = "h_mem h"])
        (use run_not_live [OF rep, of r] q(2) res(2) mem in auto)
  next
    case None
    define s where "s = carved h"
    from al [unfolded None] have room: "h_bump h + n * SLAB_SIZE \<le> h_end h" and p: "p = slab_base h s"
      and h': "h' = h\<lparr>h_bump := h_bump h + n * SLAB_SIZE,
        h_descs := (h_descs h)(s := (h_descs h s)\<lparr>sl_class := LARGE_CLASS, sl_nslabs := n\<rparr>),
        h_mem := fill (h_mem h) (slab_base h s) 0 tot\<rparr>"
      by (auto simp: carve_def memset_eq_fill s_def slab_of_def carved_def split: if_splits)
    note cr = carve_run_rep [OF rep len(1) room s_def h']
    show ?thesis
      unfolding L p by (rule fresh_blockI [OF cr len(2) pos, where m = "h_mem h"]) (simp_all add: h')
  qed
qed

subsection \<open>The allocator\<close>

text \<open>Sizes that fit the 32-bit run length: everything up to 256 TiB.\<close>

definition fits :: "int \<Rightarrow> int \<Rightarrow> bool" where
  "fits sz count \<longleftrightarrow> sz * count \<le> (2 ^ 32 - 1) * int SLAB_SIZE"

lemma heap_alloc_fresh:
  assumes inv: "heap_inv h L" and fit: "fits sz count" and alloc: "heap_alloc h sz align count = Inr (p, h')"
  shows "fresh_block h L (max 1 (nat (sz * count))) p h'"
proof -
  have ok: "0 < sz" "0 \<le> count"
    using alloc by (auto simp: heap_alloc_def split: if_splits)
  define tot where "tot = (if sz * count = 0 then 1 else nat (sz * count))"
  have tot: "0 < tot" "tot = max 1 (nat (sz * count))"
    using ok mult_pos_pos [of sz count] by (auto simp: tot_def max_def Suc_le_eq)
  have "tot \<le> (2 ^ 32 - 1) * SLAB_SIZE"
    using fit by (auto simp: tot_def fits_def SLAB_SIZE_def)
  moreover have "(if tot \<le> MAX_SMALL then alloc_small h tot else alloc_large h tot) = Inr (p, h')"
    using alloc by (auto simp: heap_alloc_def tot_def Let_def split: if_splits)
  ultimately show ?thesis
    using alloc_small_fresh [OF inv] alloc_large_fresh [OF inv tot(1)] unfolding tot(2) [symmetric]
    by (auto split: if_splits)
qed

lemma heap_inv_init:
  assumes "0 < beg" and "beg + sz < 2 ^ 64" and h: "h = heap_init m d beg sz" and "h_base h \<le> h_end h"
  shows "heap_inv h {}"
proof -
  have "region_ok h"
    using assms by (auto simp: region_ok_def heap_init_def Let_def SLAB_SIZE_def)
  then have "heap_rep h {} {} (\<lambda>_. []) (\<lambda>_. []) []"
    by (simp add: heap_rep_def layout_ok_def slabs_ok_def partial_ok_def runs_ok_def h heap_init_def Let_def)
  moreover have "live h {} {} (\<lambda>_. []) [] = {}" by (simp add: live_def)
  ultimately show ?thesis unfolding heap_inv_def by metis
qed

text \<open>What a heap request must satisfy for the contract: a size the run length can hold and an
  alignment the 16-byte granule gives.\<close>

definition heap_req :: "int \<Rightarrow> int \<Rightarrow> int \<Rightarrow> bool" where
  "heap_req sz algn n \<longleftrightarrow> fits sz n \<and> algn \<in> {1, 2, 4, 8, 16}"

lemma heap_free_laws:
  assumes "heap_inv h L" and "(p, k) \<in> L"
  shows "heap_inv (heap_free h p) (L - {(p, k)})" "kept (L - {(p, k)}) (h_mem h) (h_mem (heap_free h p))"
    "heap_usable_size h p = k"
  using heap_free_released [OF assms] by (simp_all add: released_def kept_def)

interpretation kheap: heap_allocator heap_inv h_mem heap_req heap_alloc heap_free heap_usable_size
proof (unfold_locales, goal_cases)
  case (1 h L sz algn n p h')
  then have "fresh_block h L (max 1 (nat (sz * n))) p h'"
    by (intro heap_alloc_fresh) (auto simp: heap_req_def)
  then obtain k where k: "heap_inv h' (insert (p, k) L)" "max 1 (nat (sz * n)) \<le> k" "p mod 16 = 0"
    "\<forall>(b, j)\<in>L. p + k \<le> b \<or> b + j \<le> p" "\<forall>i<max 1 (nat (sz * n)). h_mem h' (p + i) = 0"
    "\<forall>(b, j)\<in>L. \<forall>i<j. h_mem h' (b + i) = h_mem h (b + i)"
    unfolding fresh_block_def by (elim exE conjE) (rule that; assumption)
  have "nat algn dvd 16" using 1(2) by (auto simp: heap_req_def)
  then have "p mod nat algn = 0" using k(3) by (meson dvd_trans mod_eq_0_iff_dvd)
  then show ?case using k by (intro exI [of _ k]) (simp add: apart_def kept_def)
qed (rule heap_free_laws; assumption)+

text \<open>When there is room, the heap does not panic.\<close>

lemma heap_alloc_succeeds:
  assumes "algn \<le> 16" and "0 < sz" "0 \<le> n" "sz * n \<le> PTRDIFF_MAX"
    and room: "h_bump h + (nat (sz * n) div SLAB_SIZE + 1) * SLAB_SIZE \<le> h_end h"
  shows "\<exists>p h'. heap_alloc h sz algn n = Inr (p, h')"
proof -
  define tot where "tot = (if sz * n = 0 then 1 else nat (sz * n))"
  have "\<not> sz > PTRDIFF_MAX div n" if "0 < n"
    using zdiv_mono1 [OF assms(4) that] that by simp
  then have eq: "heap_alloc h sz algn n = (if tot \<le> MAX_SMALL then alloc_small h tot else alloc_large h tot)"
    using assms(1-3) by (auto simp: heap_alloc_def tot_def Let_def)
  have carve: "\<exists>r. carve h k = Inr r" if "k \<le> nat (sz * n) div SLAB_SIZE + 1" for k
    using order_trans [OF add_left_mono [OF mult_le_mono1 [OF that]] room] by (simp add: carve_def)
  have "\<exists>r. alloc_small h tot = Inr r"
    using carve [of 1] by (auto simp: alloc_small_def Let_def split: option.split sum.split)
  moreover have "\<exists>r. alloc_large h tot = Inr r" if "\<not> tot \<le> MAX_SMALL"
  proof -
    have "(tot + SLAB_SIZE - 1) div SLAB_SIZE \<le> (tot + SLAB_SIZE) div SLAB_SIZE" by (intro div_le_mono) simp
    also have "\<dots> = nat (sz * n) div SLAB_SIZE + 1" using that by (auto simp: tot_def MAX_SMALL_def SLAB_SIZE_def)
    finally have "((tot + SLAB_SIZE - 1) div SLAB_SIZE) mod 2 ^ 32 \<le> nat (sz * n) div SLAB_SIZE + 1"
      by (rule le_trans [OF mod_less_eq_dividend])
    from carve [OF this] show ?thesis
      by (auto simp: alloc_large_def Let_def split: option.split sum.split simp del: find_run.simps)
  qed
  ultimately show ?thesis unfolding eq by auto
qed

subsection \<open>Properties\<close>


definition boot_heap :: heap where
  "boot_heap = heap_init (\<lambda>_. 0) (\<lambda>_. \<lparr>sl_next = None, sl_free_list = 0, sl_class = 0, sl_free_count = 0, sl_nslabs = 0\<rparr>)
     0x10000 0x100000"

lemma boot_heap_fields:
  "h_base boot_heap = 0x20000" "h_bump boot_heap = 0x20000" "h_end boot_heap = 0x110000" "heap_inv boot_heap {}"
proof -
  show f: "h_base boot_heap = 0x20000" "h_bump boot_heap = 0x20000" "h_end boot_heap = 0x110000"
    by (simp_all add: boot_heap_def heap_init_def SLAB_SIZE_def)
  show "heap_inv boot_heap {}"
    by (rule heap_inv_init [OF _ _ boot_heap_def]) (simp_all add: f)
qed

lemma boot_heap_alloc: "\<exists>p h'. heap_alloc boot_heap 100 8 3 = Inr (p, h')" "fits 100 3" "heap_req 100 8 3"
proof -
  show "\<exists>p h'. heap_alloc boot_heap 100 8 3 = Inr (p, h')"
    by (rule heap_alloc_succeeds) (simp_all add: PTRDIFF_MAX_def boot_heap_fields SLAB_SIZE_def)
qed (simp_all add: fits_def heap_req_def SLAB_SIZE_def)


text \<open>C2. Releasing a live block takes exactly that block out of the live ones, keeps the heap
  invariant and the contents of all other live blocks; and \<^const>\<open>heap_usable_size\<close> of a live block is
  its size.\<close>

theorem heap_free_block:
  assumes "heap_inv h L" and "(p, k) \<in> L"
  shows "heap_inv (heap_free h p) (L - {(p, k)}) \<and> heap_usable_size h p = k
     \<and> (\<forall>(b, j)\<in>L - {(p, k)}. \<forall>i<j. h_mem (heap_free h p) (b + i) = h_mem h (b + i))"
  using heap_free_laws [OF assms] unfolding kept_def by blast

theorem heap_free_block_witness:
  "\<exists>p h' k. heap_alloc boot_heap 100 8 3 = Inr (p, h') \<and> heap_inv h' {(p, k)}
     \<and> heap_inv (heap_free h' p) {} \<and> heap_usable_size h' p = k"
proof -
  obtain p h' where a: "heap_alloc boot_heap 100 8 3 = Inr (p, h')" using boot_heap_alloc(1) by blast
  from heap_alloc_fresh [OF boot_heap_fields(4) boot_heap_alloc(2) a] obtain k where k: "heap_inv h' {(p, k)}"
    unfolding fresh_block_def by blast
  from heap_free_block [OF k, of p k] a k show ?thesis by auto
qed





text \<open>\<^const>\<open>heap_init\<close> establishes the heap invariant with nothing allocated.\<close>

theorem heap_init_empty:
  assumes "0 < beg" and "beg + sz < 2 ^ 64" and "h_base (heap_init m d beg sz) \<le> h_end (heap_init m d beg sz)"
  shows "heap_inv (heap_init m d beg sz) {}"
  using heap_inv_init [OF assms(1,2) refl assms(3)] .

theorem heap_init_empty_witness: "heap_inv (heap_init (\<lambda>_. 0) (h_descs boot_heap) 0x10000 0x100000) {}"
  by (rule heap_init_empty) (simp_all add: heap_init_def SLAB_SIZE_def)

end
