(* ===== verification/Ring.thy ===== *)
theory Ring
  imports Prelude
begin

text \<open>
  Ring buffers with a head and a tail index and one slot kept free, as the input drivers use them,
  and the contract of an event queue that drops what does not fit. The contract is a locale: the
  drivers interpret it on their own push and poll functions.
\<close>

subsection \<open>The contents of a ring\<close>

definition ring_ok :: "nat \<Rightarrow> 'a list \<Rightarrow> nat \<Rightarrow> nat \<Rightarrow> bool" where
  "ring_ok N buf h t \<longleftrightarrow> length buf = N \<and> h < N \<and> t < N"

definition ring_list :: "nat \<Rightarrow> 'a list \<Rightarrow> nat \<Rightarrow> nat \<Rightarrow> 'a list" where
  "ring_list N buf h t = map (\<lambda>i. buf ! ((t + i) mod N)) [0..<(h + N - t) mod N]"

lemma ring_dist:
  assumes "h < N" and "t < (N :: nat)"
  shows "(h + N - t) mod N = (if t \<le> h then h - t else h + N - t)"
proof (cases "t \<le> h")
  case True
  then have "h + N - t = (h - t) + N" by simp
  then have "(h + N - t) mod N = (h - t) mod N" by (simp only: mod_add_self2)
  then show ?thesis using True assms by simp
qed (use assms in simp)

lemma length_ring_list: "length (ring_list N buf h t) = (h + N - t) mod N"
  by (simp add: ring_list_def)

lemma ring_length_less: "ring_ok N buf h t \<Longrightarrow> length (ring_list N buf h t) < N"
  by (auto simp: length_ring_list ring_ok_def)

lemma ring_empty_iff: "ring_ok N buf h t \<Longrightarrow> ring_list N buf h t = [] \<longleftrightarrow> h = t"
  using length_ring_list [of N buf h t] ring_dist [of h N t]
  by (auto simp: ring_ok_def simp flip: length_0_conv split: if_splits)

lemma ring_full_iff:
  assumes "ring_ok N buf h t"
  shows "(h + 1) mod N = t \<longleftrightarrow> length (ring_list N buf h t) = N - 1"
proof -
  have "(h + 1) mod N = (if h + 1 = N then 0 else h + 1)" using assms by (auto simp: ring_ok_def)
  then show ?thesis
    using assms ring_dist [of h N t] unfolding length_ring_list ring_ok_def by (auto split: if_splits)
qed

lemma ring_push:
  assumes ok: "ring_ok N buf h t" and room: "(h + 1) mod N \<noteq> t"
  shows "ring_list N (buf[h := x]) ((h + 1) mod N) t = ring_list N buf h t @ [x]"
proof -
  define n where "n = (h + N - t) mod N"
  have inc: "(h + 1) mod N = (if h + 1 = N then 0 else h + 1)" using ok by (auto simp: ring_ok_def)
  have n1: "((h + 1) mod N + N - t) mod N = Suc n"
    using ok room ring_dist [of h N t] ring_dist [of "(h + 1) mod N" N t]
    unfolding n_def inc ring_ok_def by (auto split: if_splits)
  have at: "(t + n) mod N = h" using ok ring_dist [of h N t] by (auto simp: ring_ok_def n_def split: if_splits)
  have "h \<noteq> (t + i) mod N" if "i < n" for i
  proof -
    have "t + i < N \<or> t + i - N < N \<and> N \<le> t + i" using that ok ring_dist [of h N t] by (auto simp: ring_ok_def n_def split: if_splits)
    then have "(t + i) mod N = t + i \<or> (t + i) mod N = t + i - N \<and> N \<le> t + i" by (auto simp: le_mod_geq)
    then show ?thesis using that ok ring_dist [of h N t] by (auto simp: ring_ok_def n_def split: if_splits)
  qed
  then have "map (\<lambda>i. buf[h := x] ! ((t + i) mod N)) [0..<n] = map (\<lambda>i. buf ! ((t + i) mod N)) [0..<n]" by simp
  moreover have "h < length buf" using ok by (simp add: ring_ok_def)
  ultimately show ?thesis unfolding ring_list_def n1 by (simp add: at flip: n_def)
qed

lemma ring_pop:
  assumes ok: "ring_ok N buf h t" and ne: "h \<noteq> t"
  shows "ring_list N buf h t = buf ! t # ring_list N buf h ((t + 1) mod N)"
proof -
  define n where "n = (h + N - (t + 1) mod N) mod N"
  have inc: "(t + 1) mod N = (if t + 1 = N then 0 else t + 1)" using ok by (auto simp: ring_ok_def)
  have len: "(h + N - t) mod N = Suc n"
    using ok ne ring_dist [of h N t] ring_dist [of h N "(t + 1) mod N"]
    unfolding n_def inc ring_ok_def by (auto split: if_splits)
  have "map (\<lambda>i. buf ! ((t + Suc i) mod N)) [0..<n] = map (\<lambda>i. buf ! (((t + 1) mod N + i) mod N)) [0..<n]"
    by (simp add: mod_simps)
  moreover have "[0..<Suc n] = 0 # map Suc [0..<n]" by (simp add: upt_conv_Cons map_Suc_upt del: upt_Suc)
  moreover have "t mod N = t" using ok by (simp add: ring_ok_def)
  ultimately show ?thesis unfolding ring_list_def len n_def [symmetric] by (simp add: o_def del: upt_Suc)
qed

lemma ring_ok_push: "ring_ok N buf h t \<Longrightarrow> ring_ok N (buf[h := x]) ((h + 1) mod N) t"
  by (auto simp: ring_ok_def)

lemma ring_ok_pop: "ring_ok N buf h t \<Longrightarrow> ring_ok N buf h ((t + 1) mod N)"
  by (auto simp: ring_ok_def)

lemma unat_inc_mod:
  fixes w :: u32
  assumes "unat w < n" and "n < 2 ^ 31"
  shows "unat ((w + 1) mod of_nat n) = (unat w + 1) mod n"
proof -
  have "unat (w + 1) = unat w + 1" by (subst unat_add_small) (use assms in simp_all)
  moreover have "unat (of_nat n :: u32) = n" by (rule unat_of_nat_small) (use assms in simp)
  ultimately show ?thesis by (simp only: unat_mod)
qed

subsection \<open>Rings with a head and a count\<close>

text \<open>The network queues keep the index of the oldest element and the number of elements.\<close>

definition cring_list :: "nat \<Rightarrow> 'a list \<Rightarrow> nat \<Rightarrow> nat \<Rightarrow> 'a list" where
  "cring_list N buf h c = map (\<lambda>i. buf ! ((h + i) mod N)) [0..<c]"

lemma length_cring_list [simp]: "length (cring_list N buf h c) = c"
  by (simp add: cring_list_def)

lemma ring_slots_distinct:
  fixes i j :: nat
  assumes "i < j" "j < N"
  shows "(h + i) mod N \<noteq> (h + j) mod N"
proof
  assume "(h + i) mod N = (h + j) mod N"
  then have "N dvd (h + j) - (h + i)" using assms(1) by (intro mod_eq_dvd_iff_nat [THEN iffD1]) auto
  then have "N dvd j - i" by simp
  with assms show False by (meson dvd_imp_le less_imp_diff_less not_less zero_less_diff)
qed

lemma cring_push:
  assumes "length buf = N" "c < N"
  shows "cring_list N (buf[(h + c) mod N := x]) h (Suc c) = cring_list N buf h c @ [x]"
proof -
  have "map (\<lambda>i. buf[(h + c) mod N := x] ! ((h + i) mod N)) [0..<c] = map (\<lambda>i. buf ! ((h + i) mod N)) [0..<c]"
  proof (intro map_cong refl)
    fix i assume "i \<in> set [0..<c]"
    then have "(h + i) mod N \<noteq> (h + c) mod N" using assms(2) by (intro ring_slots_distinct) auto
    then show "buf[(h + c) mod N := x] ! ((h + i) mod N) = buf ! ((h + i) mod N)" by simp
  qed
  moreover have "(h + c) mod N < length buf" using assms by simp
  ultimately show ?thesis by (simp add: cring_list_def)
qed

lemma cring_pop: "n \<le> c \<Longrightarrow> cring_list N buf ((h + n) mod N) (c - n) = drop n (cring_list N buf h c)"
  by (rule nth_equalityI) (auto simp: cring_list_def mod_add_left_eq add.assoc)

lemma cring_Cons:
  assumes "0 < c" "h < N"
  shows "cring_list N buf h c = buf ! h # cring_list N buf ((h + 1) mod N) (c - 1)"
proof -
  obtain k where k: "c = Suc k" using assms(1) by (cases c) auto
  have "[0..<Suc k] = 0 # map Suc [0..<k]" by (simp only: map_Suc_upt upt_conv_Cons zero_less_Suc)
  then show ?thesis using assms(2) by (simp add: cring_list_def k mod_add_left_eq)
qed

lemma cring_take: "n \<le> c \<Longrightarrow> map (\<lambda>i. buf ! ((h + i) mod N)) [0..<n] = take n (cring_list N buf h c)"
  by (rule nth_equalityI) (auto simp: cring_list_def)

text \<open>\<^verbatim>\<open>for (i = 0; i < n; i++) buf[(start + i) % N] = ys[i]\<close>.\<close>

fun ring_store :: "nat \<Rightarrow> 'a list \<Rightarrow> nat \<Rightarrow> 'a list \<Rightarrow> 'a list" where
  "ring_store N buf start [] = buf"
| "ring_store N buf start (y # ys) = ring_store N (buf[start mod N := y]) (start + 1) ys"

lemma length_ring_store [simp]: "length (ring_store N buf start ys) = length buf"
  by (induction ys arbitrary: buf start) auto

lemma cring_store:
  "length buf = N \<Longrightarrow> c + length ys \<le> N \<Longrightarrow>
   cring_list N (ring_store N buf (h + c) ys) h (c + length ys) = cring_list N buf h c @ ys"
proof (induction ys arbitrary: buf c)
  case (Cons y ys)
  then have "cring_list N (ring_store N (buf[(h + c) mod N := y]) (h + Suc c) ys) h (Suc c + length ys) =
      cring_list N (buf[(h + c) mod N := y]) h (Suc c) @ ys"
    by (intro Cons.IH) auto
  also have "\<dots> = cring_list N buf h c @ y # ys" using Cons.prems by (subst cring_push) auto
  finally show ?case by simp
qed simp

subsection \<open>The contract of an event queue\<close>

fun drain :: "('s \<Rightarrow> ('a \<times> 's) option) \<Rightarrow> nat \<Rightarrow> 's \<Rightarrow> 'a list \<times> 's" where
  "drain pop 0 s = ([], s)"
| "drain pop (Suc n) s =
     (case pop s of None \<Rightarrow> ([], s)
      | Some (x, s1) \<Rightarrow> (case drain pop n s1 of (xs, s2) \<Rightarrow> (x # xs, s2)))"

locale event_queue =
  fixes ok :: "'s \<Rightarrow> bool" and contents :: "'s \<Rightarrow> 'a list" and cap :: nat
    and norm :: "'a \<Rightarrow> 'a" and push :: "'a \<Rightarrow> 's \<Rightarrow> 's" and pop :: "'s \<Rightarrow> ('a \<times> 's) option"
  assumes push_ok: "ok s \<Longrightarrow> ok (push x s)"
    and push_contents: "ok s \<Longrightarrow>
      contents (push x s) = (if length (contents s) < cap then contents s @ [norm x] else contents s)"
    and pop_None: "ok s \<Longrightarrow> pop s = None \<longleftrightarrow> contents s = []"
    and pop_Some: "ok s \<Longrightarrow> pop s = Some (x, s') \<Longrightarrow> ok s' \<and> contents s = x # contents s'"
    and within: "ok s \<Longrightarrow> length (contents s) \<le> cap"
begin

lemma push_all:
  "ok s \<Longrightarrow> ok (fold push xs s) \<and> contents (fold push xs s) = take cap (contents s @ map norm xs)"
proof (induction xs arbitrary: s)
  case Nil
  then show ?case using within by simp
next
  case (Cons x xs)
  from Cons.IH [OF push_ok [OF Cons.prems]] show ?case
    using within [OF Cons.prems] by (auto simp: push_contents [OF Cons.prems] take_Cons' Suc_diff_Suc)
qed

lemma drain_all:
  "ok s \<Longrightarrow> fst (drain pop n s) = take n (contents s) \<and> ok (snd (drain pop n s))
     \<and> contents (snd (drain pop n s)) = drop n (contents s)"
proof (induction n arbitrary: s)
  case 0
  then show ?case by simp
next
  case (Suc n)
  show ?case
  proof (cases "pop s")
    case None
    then show ?thesis using pop_None [OF Suc.prems] Suc.prems by simp
  next
    case (Some p)
    then obtain x s1 where p: "pop s = Some (x, s1)" by (cases p) auto
    then have "ok s1" "contents s = x # contents s1" using pop_Some [OF Suc.prems] by auto
    then show ?thesis using Suc.IH [of s1] p by (cases "drain pop n s1") simp
  qed
qed

text \<open>Everything that fits is delivered, once and in order.\<close>

lemma push_then_drain:
  assumes "ok s" and "length (contents s) + length xs \<le> cap" and "length (contents s) + length xs \<le> n"
  shows "fst (drain pop n (fold push xs s)) = contents s @ map norm xs"
    and "contents (snd (drain pop n (fold push xs s))) = []"
  using push_all [OF assms(1), of xs] drain_all [of "fold push xs s" n] assms by auto

end

end
