(* ===== verification/Ports.thy ===== *)
theory Ports
  imports Prelude
begin

text \<open>
  The boundary to the hardware that the port-driven drivers share: I/O ports as two functions over a
  device state, and the requests a driver makes to the interrupt code.
\<close>

record 'w ports =
  inb :: "u16 \<Rightarrow> 'w \<Rightarrow> u8 \<times> 'w"
  outb :: "u16 \<Rightarrow> u8 \<Rightarrow> 'w \<Rightarrow> 'w"

datatype irq_call = Register_handler nat | Irq_unmask nat

end
