(* ===== verification/Mouse.thy ===== *)
theory Mouse
  imports Ports
begin

text \<open>
  The PS/2 mouse driver (\<^verbatim>\<open>include/mouse.h\<close>, \<^verbatim>\<open>src/mouse.c\<close>).

  The i8042 controller is outside the program: it is the value \<open>p\<close> of type \<open>ports\<close>, two functions
  over a device state, standing for the \<^verbatim>\<open>in\<close> and \<^verbatim>\<open>out\<close> instructions of \<^verbatim>\<open>src/ports.c\<close>. The static variables of the
  driver are the record \<open>mouse\<close>. What \<^verbatim>\<open>mouse_init\<close> asks of the interrupt code is the list of its
  calls.
\<close>

record mouse =
  ms_present :: bool
  acc_dx :: int
  acc_dy :: int
  ms_buttons :: u8
  pkt :: "u8 list"
  pkt_idx :: nat

definition PS2_DATA :: u16 where "PS2_DATA = 0x60"
definition PS2_STATUS :: u16 where "PS2_STATUS = 0x64"
definition ST_OUTPUT_FULL :: u8 where "ST_OUTPUT_FULL = 0x01"
definition ST_INPUT_FULL :: u8 where "ST_INPUT_FULL = 0x02"
definition ST_AUX_DATA :: u8 where "ST_AUX_DATA = 0x20"
definition MOUSE_ACK :: u8 where "MOUSE_ACK = 0xFA"

subsection \<open>Talking to the controller\<close>

primrec wait_write_loop :: "'w ports \<Rightarrow> nat \<Rightarrow> 'w \<Rightarrow> 'w" where
  "wait_write_loop p 0 w = w"
| "wait_write_loop p (Suc n) w =
     (let (st, w1) = inb p PS2_STATUS w in
      if st AND ST_INPUT_FULL = 0 then w1 else wait_write_loop p n w1)"

definition wait_write :: "'w ports \<Rightarrow> 'w \<Rightarrow> 'w" where
  "wait_write p = wait_write_loop p 100000"

primrec wait_read_loop :: "'w ports \<Rightarrow> nat \<Rightarrow> 'w \<Rightarrow> 'w" where
  "wait_read_loop p 0 w = w"
| "wait_read_loop p (Suc n) w =
     (let (st, w1) = inb p PS2_STATUS w in
      if st AND ST_OUTPUT_FULL \<noteq> 0 then w1 else wait_read_loop p n w1)"

definition wait_read :: "'w ports \<Rightarrow> 'w \<Rightarrow> 'w" where
  "wait_read p = wait_read_loop p 100000"

definition ctrl_cmd :: "'w ports \<Rightarrow> u8 \<Rightarrow> 'w \<Rightarrow> 'w" where
  "ctrl_cmd p cmd w = outb p PS2_STATUS cmd (wait_write p w)"

definition ctrl_write :: "'w ports \<Rightarrow> u8 \<Rightarrow> 'w \<Rightarrow> 'w" where
  "ctrl_write p v w = outb p PS2_DATA v (wait_write p w)"

definition ctrl_read :: "'w ports \<Rightarrow> 'w \<Rightarrow> u8 \<times> 'w" where
  "ctrl_read p w = inb p PS2_DATA (wait_read p w)"

definition mouse_cmd :: "'w ports \<Rightarrow> u8 \<Rightarrow> 'w \<Rightarrow> u8 \<times> 'w" where
  "mouse_cmd p v w = ctrl_read p (ctrl_write p v (ctrl_cmd p 0xD4 w))"

subsection \<open>Packets\<close>

definition mouse_handle_byte :: "u8 \<Rightarrow> mouse \<Rightarrow> mouse" where
  "mouse_handle_byte b m =
     (if pkt_idx m = 0 then
        (if b AND 0x08 = 0 then m else m\<lparr>pkt := (pkt m)[0 := b], pkt_idx := 1\<rparr>)
      else if pkt_idx m = 1 then m\<lparr>pkt := (pkt m)[1 := b], pkt_idx := 2\<rparr>
      else let pk = (pkt m)[2 := b];
               flags = pk ! 0;
               dx = int (unat (pk ! 1)) - (if flags AND 0x10 \<noteq> 0 then 256 else 0);
               dy = int (unat (pk ! 2)) - (if flags AND 0x20 \<noteq> 0 then 256 else 0)
           in m\<lparr>pkt := pk, pkt_idx := 0, acc_dx := acc_dx m + dx, acc_dy := acc_dy m - dy,
                ms_buttons := flags AND 0x07\<rparr>)"

definition mouse_irq :: "'w ports \<Rightarrow> 'w \<Rightarrow> mouse \<Rightarrow> 'w \<times> mouse" where
  "mouse_irq p w m =
     (let (st, w1) = inb p PS2_STATUS w in
      if st AND ST_OUTPUT_FULL = 0 \<or> st AND ST_AUX_DATA = 0 then (w1, m)
      else let (b, w2) = inb p PS2_DATA w1 in (w2, mouse_handle_byte b m))"

definition mouse_flush :: "mouse \<Rightarrow> mouse" where
  "mouse_flush m = m\<lparr>pkt_idx := 0, acc_dx := 0, acc_dy := 0, ms_buttons := 0\<rparr>"

definition mouse_init :: "'w ports \<Rightarrow> 'w \<Rightarrow> mouse \<Rightarrow> 'w \<times> mouse \<times> irq_call list" where
  "mouse_init p w m =
     (let w1 = ctrl_cmd p 0xA8 w;
          w2 = ctrl_cmd p 0x20 w1;
          (cfg, w3) = ctrl_read p w2;
          cfg1 = (cfg OR 0x02) AND NOT 0x20;
          w4 = ctrl_write p cfg1 (ctrl_cmd p 0x60 w3);
          (r1, w5) = mouse_cmd p 0xFF w4
      in if r1 \<noteq> MOUSE_ACK then (w5, m, [])
         else let (_, w6) = ctrl_read p w5;
                  (_, w7) = ctrl_read p w6;
                  (r2, w8) = mouse_cmd p 0xF6 w7
              in if r2 \<noteq> MOUSE_ACK then (w8, m, [])
                 else let (r3, w9) = mouse_cmd p 0xF4 w8
                      in if r3 \<noteq> MOUSE_ACK then (w9, m, [])
                         else (w9, m\<lparr>ms_present := True\<rparr>, [Register_handler 44, Irq_unmask 12]))"

definition mouse_inject :: "int \<Rightarrow> int \<Rightarrow> u8 \<Rightarrow> mouse \<Rightarrow> mouse" where
  "mouse_inject dx dy btns m =
     m\<lparr>acc_dx := acc_dx m + dx, acc_dy := acc_dy m + dy, ms_buttons := btns, ms_present := True\<rparr>"

text \<open>The result is \<^verbatim>\<open>*dx\<close>, \<^verbatim>\<open>*dy\<close>, \<^verbatim>\<open>*btns\<close> and the return value.\<close>

definition mouse_poll :: "mouse \<Rightarrow> (int \<times> int \<times> u8 \<times> bool) \<times> mouse" where
  "mouse_poll m = ((acc_dx m, acc_dy m, ms_buttons m, ms_present m), m\<lparr>acc_dx := 0, acc_dy := 0\<rparr>)"

subsection \<open>The packet stream\<close>

definition mouse_ok :: "mouse \<Rightarrow> bool" where
  "mouse_ok m \<longleftrightarrow> length (pkt m) = 3 \<and> pkt_idx m < 3"

lemma mouse_ok_handle [preserves]: "mouse_ok m \<Longrightarrow> mouse_ok (mouse_handle_byte b m)"
  by (auto simp: mouse_ok_def mouse_handle_byte_def Let_def)

lemma mouse_ok_flush [preserves]: "mouse_ok m \<Longrightarrow> mouse_ok (mouse_flush m)"
  by (simp add: mouse_ok_def mouse_flush_def)

text \<open>A movement as the device reports it: nine-bit deltas and three buttons.\<close>

type_synonym motion = "int \<times> int \<times> u8"

definition motion_ok :: "motion \<Rightarrow> bool" where
  "motion_ok v = (case v of (dx, dy, b) \<Rightarrow> dx \<in> {-256..255} \<and> dy \<in> {-256..255} \<and> unat b < 8)"

definition packet :: "motion \<Rightarrow> u8 list" where
  "packet v = (case v of (dx, dy, b) \<Rightarrow>
     [0x08 OR b OR (if dx < 0 then 0x10 else 0) OR (if dy < 0 then 0x20 else 0), word_of_int dx, word_of_int dy])"

lemma buttons_cases:
  fixes b :: u8
  assumes "unat b < 8"
  shows "b \<in> {0, 1, 2, 3, 4, 5, 6, 7}"
proof -
  have "unat b \<in> {0, 1, 2, 3, 4, 5, 6, 7}" using assms by auto
  then have "b \<in> of_nat ` {0, 1, 2, 3, 4, 5, 6, 7}" by (metis image_eqI of_nat_unat ucast_id)
  then show ?thesis by simp
qed

lemma flags_facts:
  fixes b :: u8
  assumes "unat b < 8"
  defines "f \<equiv> \<lambda>nx ny. 0x08 OR b OR (if nx then 0x10 else 0) OR (if ny then 0x20 else 0)"
  shows "f nx ny AND 0x08 \<noteq> 0" "f nx ny AND 0x10 \<noteq> 0 \<longleftrightarrow> nx" "f nx ny AND 0x20 \<noteq> 0 \<longleftrightarrow> ny"
    "f nx ny AND 0x07 = b"
  using buttons_cases [OF assms(1)] unfolding f_def by (cases nx; cases ny; auto)+

lemma delta_byte: "d \<in> {-256..255} \<Longrightarrow> int (unat (word_of_int d :: u8)) - (if d < 0 then 256 else 0) = d"
proof -
  assume d: "d \<in> {-256..255}"
  have "int (unat (word_of_int d :: u8)) = d mod 256" by (simp add: uint_word_of_int)
  moreover have "d mod 256 = (if d < 0 then d + 256 else d)"
    using d mod_add_self2 [of d 256] mod_pos_pos_trivial [of "d + 256" 256] by auto
  ultimately show ?thesis by simp
qed

text \<open>Three bytes of a packet, from a packet boundary.\<close>

lemma handle_packet:
  assumes "mouse_ok m" and "pkt_idx m = 0" and "motion_ok (dx, dy, b)"
  shows "\<exists>pk. length pk = 3 \<and> fold mouse_handle_byte (packet (dx, dy, b)) m =
     m\<lparr>pkt := pk, acc_dx := acc_dx m + dx, acc_dy := acc_dy m - dy, ms_buttons := b\<rparr>"
proof -
  have b: "unat b < 8" and d: "dx \<in> {-256..255}" "dy \<in> {-256..255}" using assms(3) by (auto simp: motion_ok_def)
  note ff = flags_facts [OF b, of "dx < 0" "dy < 0"]
  obtain x y z where pk: "pkt m = [x, y, z]" using assms(1) by (auto simp: mouse_ok_def length_Suc_conv numeral_3_eq_3)
  show ?thesis
    using assms(2) ff delta_byte [OF d(1)] delta_byte [OF d(2)]
    by (intro exI [of _ "packet (dx, dy, b)"]) (simp add: packet_def mouse_handle_byte_def pk Let_def)
qed

lemma handle_packets:
  assumes "mouse_ok m" and "pkt_idx m = 0" and "list_all motion_ok vs"
  shows "\<exists>pk bt. length pk = 3 \<and> fold mouse_handle_byte (concat (map packet vs)) m =
     m\<lparr>pkt := pk, acc_dx := acc_dx m + sum_list (map fst vs),
       acc_dy := acc_dy m - sum_list (map (fst \<circ> snd) vs), ms_buttons := bt\<rparr>
     \<and> bt = (if vs = [] then ms_buttons m else snd (snd (last vs)))"
  using assms
proof (induction vs arbitrary: m)
  case Nil
  then show ?case by (intro exI [of _ "pkt m"] exI [of _ "ms_buttons m"]) (simp add: mouse_ok_def)
next
  case (Cons v vs)
  obtain dx dy b where v: "v = (dx, dy, b)" by (cases v)
  obtain pk where pk: "length pk = 3" "fold mouse_handle_byte (packet v) m =
      m\<lparr>pkt := pk, acc_dx := acc_dx m + dx, acc_dy := acc_dy m - dy, ms_buttons := b\<rparr>" (is "_ = ?m")
    using handle_packet [of m dx dy b] Cons.prems v by auto
  have "mouse_ok ?m" "pkt_idx ?m = 0" "list_all motion_ok vs" using Cons.prems pk(1) by (simp_all add: mouse_ok_def)
  from Cons.IH [OF this] obtain pk' bt where ih: "length pk' = 3"
    "fold mouse_handle_byte (concat (map packet vs)) ?m =
      ?m\<lparr>pkt := pk', acc_dx := acc_dx ?m + sum_list (map fst vs),
       acc_dy := acc_dy ?m - sum_list (map (fst \<circ> snd) vs), ms_buttons := bt\<rparr>"
    "bt = (if vs = [] then ms_buttons ?m else snd (snd (last vs)))" by blast
  show ?case
    by (intro exI [of _ pk'] exI [of _ bt]) (use ih pk(2) v in \<open>auto simp: algebra_simps comp_def\<close>)
qed

text \<open>Whatever bytes arrive, the accumulated movement grows by at most 256 per byte, so a 32-bit
  accumulator cannot overflow between polls that are less than \<open>2 ^ 22\<close> bytes apart.\<close>

lemma handle_bound:
  assumes "mouse_ok m"
  shows "\<bar>acc_dx (mouse_handle_byte b m) - acc_dx m\<bar> \<le> 256" "\<bar>acc_dy (mouse_handle_byte b m) - acc_dy m\<bar> \<le> 256"
proof -
  have "int (unat (x :: u8)) < 256" for x using uint_lt2p [of x] by simp
  moreover have "0 \<le> int (unat (x :: u8))" for x by simp
  ultimately have "\<bar>int (unat (x :: u8)) - (if c then 256 else 0)\<bar> \<le> 256" for x c
    by (smt (verit))
  then show "\<bar>acc_dx (mouse_handle_byte b m) - acc_dx m\<bar> \<le> 256" "\<bar>acc_dy (mouse_handle_byte b m) - acc_dy m\<bar> \<le> 256"
    unfolding mouse_handle_byte_def Let_def by (auto simp del: of_nat_unat simp: abs_minus_commute)
qed

lemma handle_all_bound:
  "mouse_ok m \<Longrightarrow> \<bar>acc_dx (fold mouse_handle_byte bs m) - acc_dx m\<bar> \<le> 256 * int (length bs)
     \<and> \<bar>acc_dy (fold mouse_handle_byte bs m) - acc_dy m\<bar> \<le> 256 * int (length bs) \<and> mouse_ok (fold mouse_handle_byte bs m)"
proof (induction bs arbitrary: m)
  case Nil
  then show ?case by simp
next
  case (Cons b bs)
  from Cons.IH [OF mouse_ok_handle [OF Cons.prems], of b] handle_bound [OF Cons.prems, of b]
  show ?case by (simp add: algebra_simps) linarith
qed

subsection \<open>Properties\<close>



text \<open>C38. Whatever bytes the aux port delivers, each changes the accumulated movement by at most 256 per
  axis and the packet phase stays in range, so the 32-bit accumulators cannot overflow within
  \<open>2 ^ 22\<close> bytes of a poll.\<close>

theorem mouse_no_overflow:
  assumes "mouse_ok m" and "acc_dx m = 0" and "acc_dy m = 0" and "length bs \<le> 2 ^ 22"
  shows "\<bar>acc_dx (fold mouse_handle_byte bs m)\<bar> < 2 ^ 31 \<and> \<bar>acc_dy (fold mouse_handle_byte bs m)\<bar> < 2 ^ 31
    \<and> mouse_ok (fold mouse_handle_byte bs m)"
proof -
  have "256 * int (length bs) \<le> 2 ^ 30" using assms(4) by simp
  then show ?thesis using handle_all_bound [OF assms(1), of bs] assms(2,3) by auto
qed

theorem mouse_no_overflow_witness:
  "\<bar>acc_dx (fold mouse_handle_byte [9, 255, 3, 8] \<lparr>ms_present = True, acc_dx = 0, acc_dy = 0, ms_buttons = 0, pkt = [0, 0, 0], pkt_idx = 0\<rparr>)\<bar> < 2 ^ 31"
  using mouse_no_overflow [of "\<lparr>ms_present = True, acc_dx = 0, acc_dy = 0, ms_buttons = 0, pkt = [0, 0, 0], pkt_idx = 0\<rparr>" "[9, 255, 3, 8]"]
  by (simp add: mouse_ok_def)

end
