(* ===== verification/Keyboard.thy ===== *)
theory Keyboard
  imports Ring Mouse
begin

text \<open>
  The PS/2 keyboard driver (\<^verbatim>\<open>src/keyboard.c\<close>): the interrupt handler decodes set-1 scancodes into
  characters and raw key events, each kept in a ring that the consumers poll. The i8042 is shared
  with the mouse, so the handler also routes aux bytes to the parser of theory \<open>Mouse\<close>.
\<close>

record kbd =
  kbuf :: "u8 list"
  khead :: u32
  ktail :: u32
  shift :: bool
  ctrl :: bool
  caps :: bool
  extended :: bool
  rawbuf :: "u16 list"
  rhead :: u32
  rtail :: u32

definition keymap :: "u8 list" where
  "keymap =
    [0, 27, 49, 50, 51, 52, 53, 54, 55, 56, 57, 48, 45,
     61, 8, 9, 113, 119, 101, 114, 116, 121, 117, 105, 111, 112,
     91, 93, 10, 0, 97, 115, 100, 102, 103, 104, 106, 107, 108,
     59, 39, 96, 0, 92, 122, 120, 99, 118, 98, 110, 109, 44,
     46, 47, 0, 42, 0, 32, 0, 0, 0, 0, 0, 0, 0,
     0, 0, 0, 0, 0, 0, 0, 0, 0, 0, 0, 0, 0] @ replicate 50 0"

definition keymap_shift :: "u8 list" where
  "keymap_shift =
    [0, 27, 33, 64, 35, 36, 37, 94, 38, 42, 40, 41, 95,
     43, 8, 9, 81, 87, 69, 82, 84, 89, 85, 73, 79, 80,
     123, 125, 10, 0, 65, 83, 68, 70, 71, 72, 74, 75, 76,
     58, 34, 126, 0, 124, 90, 88, 67, 86, 66, 78, 77, 60,
     62, 63, 0, 42, 0, 32, 0, 0, 0, 0, 0, 0, 0,
     0, 0, 0, 0, 0, 0, 0, 0, 0, 0, 0, 0, 0] @ replicate 50 0"

definition KBUF_SZ :: nat where "KBUF_SZ = 128"
definition RAW_SZ :: nat where "RAW_SZ = 128"
definition RAW_EXT :: u16 where "RAW_EXT = 0x80"
definition RAW_DOWN :: u16 where "RAW_DOWN = 0x100"

definition SC_LSHIFT :: u8 where "SC_LSHIFT = 0x2A"
definition SC_RSHIFT :: u8 where "SC_RSHIFT = 0x36"
definition SC_CTRL :: u8 where "SC_CTRL = 0x1D"
definition SC_CAPS :: u8 where "SC_CAPS = 0x3A"
definition SC_EXTENDED :: u8 where "SC_EXTENDED = 0xE0"

subsection \<open>The rings\<close>

definition raw_code :: "u8 \<Rightarrow> bool \<Rightarrow> bool \<Rightarrow> u16" where
  "raw_code code ext pressed =
     ucast (code AND 0x7F) OR (if ext then RAW_EXT else 0) OR (if pressed then RAW_DOWN else 0)"

definition rawpush :: "u8 \<Rightarrow> bool \<Rightarrow> bool \<Rightarrow> kbd \<Rightarrow> kbd" where
  "rawpush code ext pressed k =
     (let nxt = (rhead k + 1) mod of_nat RAW_SZ in
      if nxt \<noteq> rtail k
      then k\<lparr>rawbuf := (rawbuf k)[unat (rhead k) := raw_code code ext pressed], rhead := nxt\<rparr>
      else k)"

text \<open>The return value and \<^verbatim>\<open>*pressed\<close>; \<^verbatim>\<open>*pressed\<close> is written only when there is an event.\<close>

definition keyboard_poll_raw :: "kbd \<Rightarrow> (int \<times> int option) \<times> kbd" where
  "keyboard_poll_raw k =
     (if rhead k = rtail k then ((-1, None), k)
      else let v = rawbuf k ! unat (rtail k) in
        ((uint (v AND 0xFF), Some (if v AND RAW_DOWN \<noteq> 0 then 1 else 0)),
         k\<lparr>rtail := (rtail k + 1) mod of_nat RAW_SZ\<rparr>))"

definition kpush :: "u8 \<Rightarrow> kbd \<Rightarrow> kbd" where
  "kpush c k =
     (let nxt = (khead k + 1) mod of_nat KBUF_SZ in
      if nxt \<noteq> ktail k then k\<lparr>kbuf := (kbuf k)[unat (khead k) := c], khead := nxt\<rparr> else k)"

definition kpush_seq :: "u8 \<Rightarrow> kbd \<Rightarrow> kbd" where
  "kpush_seq final k = kpush final (kpush 91 (kpush 27 k))"

definition keyboard_inject :: "u8 \<Rightarrow> kbd \<Rightarrow> kbd" where
  "keyboard_inject c = kpush c"

definition keyboard_inject_seq :: "u8 \<Rightarrow> kbd \<Rightarrow> kbd" where
  "keyboard_inject_seq final = kpush_seq final"

definition keyboard_poll :: "kbd \<Rightarrow> int \<times> kbd" where
  "keyboard_poll k =
     (if khead k = ktail k then (-1, k)
      else (uint (kbuf k ! unat (ktail k)), k\<lparr>ktail := (ktail k + 1) mod of_nat KBUF_SZ\<rparr>))"

subsection \<open>Decoding\<close>

text \<open>An extended (\<^verbatim>\<open>0xE0\<close>-prefixed) code.\<close>

definition ext_event :: "u8 \<Rightarrow> kbd \<Rightarrow> kbd" where
  "ext_event sc k0 =
     (let code = sc AND 0x7F;
          k = rawpush code True (sc AND 0x80 = 0) (k0\<lparr>extended := False\<rparr>)
      in if code = SC_CTRL then k\<lparr>ctrl := (sc AND 0x80 = 0)\<rparr>
         else if sc AND 0x80 = 0 then
           (if code = 0x48 then kpush_seq 65 k
            else if code = 0x50 then kpush_seq 66 k
            else if code = 0x4D then kpush_seq 67 k
            else if code = 0x4B then kpush_seq 68 k
            else if code = 0x47 then kpush_seq 72 k
            else if code = 0x4F then kpush_seq 70 k
            else k)
         else k)"

text \<open>The character of a make code; \<^verbatim>\<open>char\<close> is signed.\<close>

definition key_char :: "kbd \<Rightarrow> u8 \<Rightarrow> u8 option" where
  "key_char k code =
     (let c = (if shift k then keymap_shift ! unat code else keymap ! unat code) in
      if c = 0 then None
      else let c1 = (if caps k \<and> \<not> shift k \<and> 97 \<le> sint c \<and> sint c \<le> 122 then c - 32
                     else if caps k \<and> shift k \<and> 65 \<le> sint c \<and> sint c \<le> 90 then c + 32
                     else c) in
        Some (if ctrl k \<and> 97 \<le> sint c1 \<and> sint c1 \<le> 122 then c1 AND 0x1F else c1))"

definition plain_event :: "u8 \<Rightarrow> kbd \<Rightarrow> kbd" where
  "plain_event sc k0 =
     (let release = (sc AND 0x80 \<noteq> 0);
          code = sc AND 0x7F;
          k = rawpush code False (\<not> release) k0
      in if code = SC_LSHIFT \<or> code = SC_RSHIFT then k\<lparr>shift := \<not> release\<rparr>
         else if code = SC_CTRL then k\<lparr>ctrl := \<not> release\<rparr>
         else if code = SC_CAPS then (if \<not> release then k\<lparr>caps := \<not> caps k\<rparr> else k)
         else if release then k
         else (case key_char k code of None \<Rightarrow> k | Some c \<Rightarrow> kpush c k))"

definition scancode :: "u8 \<Rightarrow> kbd \<Rightarrow> kbd" where
  "scancode sc k =
     (if sc = SC_EXTENDED then k\<lparr>extended := True\<rparr>
      else if extended k then ext_event sc k
      else plain_event sc k)"

definition kbd_irq :: "'w ports \<Rightarrow> 'w \<Rightarrow> kbd \<Rightarrow> mouse \<Rightarrow> 'w \<times> kbd \<times> mouse" where
  "kbd_irq p w k m =
     (let (st, w1) = inb p PS2_STATUS w in
      if st AND ST_OUTPUT_FULL = 0 then (w1, k, m)
      else let (b, w2) = inb p PS2_DATA w1 in
        if st AND ST_AUX_DATA \<noteq> 0 then (w2, k, mouse_handle_byte b m)
        else (w2, scancode b k, m))"

definition keyboard_init :: "'w ports \<Rightarrow> 'w \<Rightarrow> 'w \<times> irq_call list" where
  "keyboard_init p w = (snd (inb p PS2_DATA w), [Register_handler 33, Irq_unmask 1])"

subsection \<open>The rings as event queues\<close>

definition kbd_ok :: "kbd \<Rightarrow> bool" where
  "kbd_ok k \<longleftrightarrow> ring_ok KBUF_SZ (kbuf k) (unat (khead k)) (unat (ktail k))
     \<and> ring_ok RAW_SZ (rawbuf k) (unat (rhead k)) (unat (rtail k))"

definition kchars :: "kbd \<Rightarrow> u8 list" where
  "kchars k = ring_list KBUF_SZ (kbuf k) (unat (khead k)) (unat (ktail k))"

definition kraws :: "kbd \<Rightarrow> u16 list" where
  "kraws k = ring_list RAW_SZ (rawbuf k) (unat (rhead k)) (unat (rtail k))"

text \<open>Polling as a partial operation: what the caller of \<^const>\<open>keyboard_poll\<close> makes of \<^verbatim>\<open>-1\<close>.\<close>

definition kpop :: "kbd \<Rightarrow> (u8 \<times> kbd) option" where
  "kpop k = (case keyboard_poll k of (v, k') \<Rightarrow> if v = -1 then None else Some (word_of_int v, k'))"

definition rpop :: "kbd \<Rightarrow> ((u8 \<times> bool) \<times> kbd) option" where
  "rpop k = (case keyboard_poll_raw k of
     ((v, pr), k') \<Rightarrow> if v = -1 then None else Some ((word_of_int v, pr = Some 1), k'))"

definition raw_event :: "u16 \<Rightarrow> u8 \<times> bool" where
  "raw_event v = (ucast (v AND 0xFF), v AND RAW_DOWN \<noteq> 0)"

lemma unat_ring_inc: "unat (w :: u32) < 128 \<Longrightarrow> unat ((w + 1) mod of_nat 128) = (unat w + 1) mod 128"
  by (rule unat_inc_mod) simp_all

lemma ring_next_eq:
  "unat (h :: u32) < 128 \<Longrightarrow> (h + 1) mod of_nat 128 = t \<longleftrightarrow> (unat h + 1) mod 128 = unat t"
  using unat_ring_inc [of h] by (metis word_unat_eq_iff)

lemma kpush_ring:
  assumes "kbd_ok k"
  shows "kbd_ok (kpush c k) \<and> kraws (kpush c k) = kraws k
     \<and> kchars (kpush c k) = (if length (kchars k) < 127 then kchars k @ [c] else kchars k)"
proof -
  let ?h = "unat (khead k)" and ?t = "unat (ktail k)"
  have ok: "ring_ok 128 (kbuf k) ?h ?t" and raw: "ring_ok RAW_SZ (rawbuf k) (unat (rhead k)) (unat (rtail k))"
    and h: "?h < 128" using assms by (auto simp: kbd_ok_def KBUF_SZ_def ring_ok_def)
  show ?thesis
  proof (cases "(?h + 1) mod 128 = ?t")
    case True
    then show ?thesis
      using assms ring_next_eq [OF h] ring_full_iff [OF ok] by (simp add: kpush_def Let_def KBUF_SZ_def kchars_def)
  next
    case False
    then have "length (kchars k) < 127"
      using ring_full_iff [OF ok] ring_length_less [OF ok] by (simp add: kchars_def KBUF_SZ_def)
    then show ?thesis
      using False ring_next_eq [OF h] unat_ring_inc [OF h] ring_push [OF ok False, of c] ring_ok_push [OF ok, of c] raw
      by (simp add: kpush_def Let_def KBUF_SZ_def kchars_def kbd_ok_def kraws_def)
  qed
qed

lemma rawpush_ring:
  assumes "kbd_ok k"
  shows "kbd_ok (rawpush c e pr k) \<and> kchars (rawpush c e pr k) = kchars k
     \<and> kraws (rawpush c e pr k) = (if length (kraws k) < 127 then kraws k @ [raw_code c e pr] else kraws k)"
proof -
  let ?h = "unat (rhead k)" and ?t = "unat (rtail k)"
  have ok: "ring_ok 128 (rawbuf k) ?h ?t" and asc: "ring_ok KBUF_SZ (kbuf k) (unat (khead k)) (unat (ktail k))"
    and h: "?h < 128" using assms by (auto simp: kbd_ok_def RAW_SZ_def ring_ok_def)
  show ?thesis
  proof (cases "(?h + 1) mod 128 = ?t")
    case True
    then show ?thesis
      using assms ring_next_eq [OF h] ring_full_iff [OF ok] by (simp add: rawpush_def Let_def RAW_SZ_def kraws_def)
  next
    case False
    then have "length (kraws k) < 127"
      using ring_full_iff [OF ok] ring_length_less [OF ok] by (simp add: kraws_def RAW_SZ_def)
    then show ?thesis
      using False ring_next_eq [OF h] unat_ring_inc [OF h] ring_push [OF ok False, of "raw_code c e pr"]
        ring_ok_push [OF ok, of "raw_code c e pr"] asc
      by (simp add: rawpush_def Let_def RAW_SZ_def kchars_def kbd_ok_def kraws_def)
  qed
qed

lemma uint_byte_range: "0 \<le> uint (x :: u8)" "uint (x :: u8) < 256"
  using uint_lt2p [of x] by simp_all

lemma kpop_ring:
  assumes ok: "kbd_ok k"
  shows "kpop k = None \<longleftrightarrow> kchars k = []"
    and "kpop k = Some (c, k') \<Longrightarrow> kbd_ok k' \<and> kchars k = c # kchars k'"
proof -
  let ?h = "unat (khead k)" and ?t = "unat (ktail k)"
  have r: "ring_ok 128 (kbuf k) ?h ?t" using ok by (simp add: kbd_ok_def KBUF_SZ_def)
  then have t: "?t < 128" by (simp add: ring_ok_def)
  have e: "khead k = ktail k \<longleftrightarrow> kchars k = []"
    using ring_empty_iff [OF r] by (simp add: kchars_def KBUF_SZ_def word_unat_eq_iff)
  have "uint x \<noteq> -1" for x :: u8 using uint_byte_range(1) [of x] by linarith
  then show "kpop k = None \<longleftrightarrow> kchars k = []" by (auto simp: kpop_def keyboard_poll_def e)
  assume p: "kpop k = Some (c, k')"
  then have ne: "khead k \<noteq> ktail k" and c: "c = kbuf k ! ?t" and k': "k' = k\<lparr>ktail := (ktail k + 1) mod of_nat 128\<rparr>"
    by (auto simp: kpop_def keyboard_poll_def KBUF_SZ_def split: if_splits)
  have "?h \<noteq> ?t" using ne by (simp add: word_unat_eq_iff)
  from ring_pop [OF r this] ring_ok_pop [OF r] unat_ring_inc [OF t] ok
  show "kbd_ok k' \<and> kchars k = c # kchars k'"
    by (simp add: kbd_ok_def kchars_def KBUF_SZ_def c k')
qed

interpretation kq: event_queue kbd_ok kchars 127 "\<lambda>c. c" kpush kpop
proof unfold_locales
  fix k :: kbd assume ok: "kbd_ok k"
  show "kbd_ok (kpush c k)" for c using kpush_ring [OF ok] by blast
  show "kchars (kpush c k) = (if length (kchars k) < 127 then kchars k @ [c] else kchars k)" for c
    using kpush_ring [OF ok] by blast
  show "kpop k = None \<longleftrightarrow> kchars k = []" by (rule kpop_ring [OF ok])
  show "kpop k = Some (c, k') \<Longrightarrow> kbd_ok k' \<and> kchars k = c # kchars k'" for c k' by (rule kpop_ring [OF ok])
  show "length (kchars k) \<le> 127"
    using ring_length_less [of 128 "kbuf k" "unat (khead k)" "unat (ktail k)"] ok by (simp add: kchars_def kbd_ok_def KBUF_SZ_def)
qed

text \<open>A raw event as the poller sees it: the make code with the extended flag in bit 7, and whether
  the key went down.\<close>

definition raw_pair :: "u8 \<times> bool \<Rightarrow> kbd \<Rightarrow> kbd" where
  "raw_pair e = rawpush (fst e) (fst e AND 0x80 \<noteq> 0) (snd e)"

definition krawevents :: "kbd \<Rightarrow> (u8 \<times> bool) list" where
  "krawevents k = map raw_event (kraws k)"

lemma and_bit7: "(c :: u8) AND 0x80 \<noteq> 0 \<longleftrightarrow> bit c 7"
proof -
  have "c AND 0x80 = (if bit c 7 then 0x80 else 0)"
    by (rule bit_word_eqI) (auto simp: bit_simps bit_consts)
  then show ?thesis by simp
qed

lemma raw_event_code: "raw_event (raw_code c (c AND 0x80 \<noteq> 0) pr) = (c, pr)"
proof -
  have "ucast ((ucast (c AND 0x7F) OR (if bit c 7 then 0x80 else 0) OR (if pr then 0x100 else 0) :: u16) AND 0xFF) = c"
  proof (rule bit_word_eqI)
    fix n assume "n < LENGTH(8)"
    then have "n = 7 \<or> n < 7" by auto
    then show "bit (ucast ((ucast (c AND 0x7F) OR (if bit c 7 then 0x80 else 0) OR (if pr then 0x100 else 0) :: u16) AND 0xFF) :: u8) n
        = bit c n"
      by (auto simp: bit_simps bit_consts)
  qed
  moreover have "((ucast (c AND 0x7F) OR (if bit c 7 then 0x80 else 0) OR (if pr then 0x100 else 0) :: u16) AND 0x100)
      = (if pr then 0x100 else 0)"
    by (rule bit_word_eqI) (auto simp: bit_simps bit_consts)
  ultimately show ?thesis
    by (simp only: raw_event_def raw_code_def RAW_EXT_def RAW_DOWN_def and_bit7) simp
qed

lemma rpop_ring:
  assumes ok: "kbd_ok k"
  shows "rpop k = None \<longleftrightarrow> krawevents k = []"
    and "rpop k = Some (e, k') \<Longrightarrow> kbd_ok k' \<and> krawevents k = e # krawevents k'"
proof -
  let ?h = "unat (rhead k)" and ?t = "unat (rtail k)"
  have r: "ring_ok 128 (rawbuf k) ?h ?t" using ok by (simp add: kbd_ok_def RAW_SZ_def)
  then have t: "?t < 128" by (simp add: ring_ok_def)
  have e: "rhead k = rtail k \<longleftrightarrow> krawevents k = []"
    using ring_empty_iff [OF r] by (simp add: krawevents_def kraws_def RAW_SZ_def word_unat_eq_iff)
  have n1: "uint x \<noteq> -1" for x :: u16 using uint_ge_0 [of x] by linarith
  then show "rpop k = None \<longleftrightarrow> krawevents k = []" by (auto simp: rpop_def keyboard_poll_raw_def e Let_def)
  assume p: "rpop k = Some (e, k')"
  have wi: "(word_of_int (uint w) :: u8) = ucast w" for w :: u16 by simp
  from p have ne: "rhead k \<noteq> rtail k" and c: "e = raw_event (rawbuf k ! ?t)"
    and k': "k' = k\<lparr>rtail := (rtail k + 1) mod of_nat 128\<rparr>"
    unfolding rpop_def keyboard_poll_raw_def Let_def RAW_SZ_def raw_event_def
    by (auto simp: wi n1 split: if_splits)
  have "?h \<noteq> ?t" using ne by (simp add: word_unat_eq_iff)
  from ring_pop [OF r this] ring_ok_pop [OF r] unat_ring_inc [OF t] ok
  show "kbd_ok k' \<and> krawevents k = e # krawevents k'"
    by (simp add: kbd_ok_def krawevents_def kraws_def RAW_SZ_def c k')
qed

interpretation rq: event_queue kbd_ok krawevents 127 "\<lambda>e. e" raw_pair rpop
proof unfold_locales
  fix k :: kbd assume ok: "kbd_ok k"
  show "kbd_ok (raw_pair e k)" for e using rawpush_ring [OF ok] by (simp add: raw_pair_def)
  show "krawevents (raw_pair e k) = (if length (krawevents k) < 127 then krawevents k @ [e] else krawevents k)" for e
    using rawpush_ring [OF ok] raw_event_code [of "fst e" "snd e"] by (simp add: raw_pair_def krawevents_def)
  show "rpop k = None \<longleftrightarrow> krawevents k = []" by (rule rpop_ring [OF ok])
  show "rpop k = Some (c, k') \<Longrightarrow> kbd_ok k' \<and> krawevents k = c # krawevents k'" for c k' by (rule rpop_ring [OF ok])
  show "length (krawevents k) \<le> 127"
    using ring_length_less [of 128 "rawbuf k" "unat (rhead k)" "unat (rtail k)"] ok
    by (simp add: krawevents_def kraws_def kbd_ok_def RAW_SZ_def)
qed

subsection \<open>What a scancode does\<close>

lemma kbd_ok_fields [simp]:
  "kbd_ok (k\<lparr>shift := a\<rparr>) = kbd_ok k" "kbd_ok (k\<lparr>ctrl := a\<rparr>) = kbd_ok k"
  "kbd_ok (k\<lparr>caps := a\<rparr>) = kbd_ok k" "kbd_ok (k\<lparr>extended := a\<rparr>) = kbd_ok k"
  "kraws (k\<lparr>shift := a\<rparr>) = kraws k" "kraws (k\<lparr>ctrl := a\<rparr>) = kraws k"
  "kraws (k\<lparr>caps := a\<rparr>) = kraws k" "kraws (k\<lparr>extended := a\<rparr>) = kraws k"
  "kchars (k\<lparr>shift := a\<rparr>) = kchars k" "kchars (k\<lparr>ctrl := a\<rparr>) = kchars k"
  "kchars (k\<lparr>caps := a\<rparr>) = kchars k" "kchars (k\<lparr>extended := a\<rparr>) = kchars k"
  by (simp_all add: kbd_ok_def kraws_def kchars_def)

lemma kpush_seq_ring: "kbd_ok k \<Longrightarrow> kbd_ok (kpush_seq f k) \<and> kraws (kpush_seq f k) = kraws k"
  using kpush_ring by (simp add: kpush_seq_def)

lemma ext_event_ring:
  assumes "kbd_ok k"
  shows "kbd_ok (ext_event sc k) \<and> kraws (ext_event sc k) = kraws (rawpush (sc AND 0x7F) True (sc AND 0x80 = 0) k)"
proof -
  have r: "kraws (rawpush c e p (k\<lparr>extended := x\<rparr>)) = kraws (rawpush c e p k)" for c e p x
    using rawpush_ring [OF assms, of c e p] rawpush_ring [of "k\<lparr>extended := x\<rparr>" c e p] assms by simp
  have ok: "kbd_ok (rawpush c e p (k\<lparr>extended := x\<rparr>))" for c e p x
    using rawpush_ring [of "k\<lparr>extended := x\<rparr>" c e p] assms by simp
  then show ?thesis using kpush_seq_ring [OF ok] r by (simp add: ext_event_def Let_def)
qed

lemma plain_event_ring:
  assumes "kbd_ok k"
  shows "kbd_ok (plain_event sc k) \<and> kraws (plain_event sc k) = kraws (rawpush (sc AND 0x7F) False (sc AND 0x80 = 0) k)"
proof -
  have ok: "kbd_ok (rawpush c e p k)" for c e p using rawpush_ring [OF assms] by blast
  show ?thesis using ok kpush_ring [OF ok] by (auto simp: plain_event_def Let_def split: option.split)
qed

lemma scancode_ring:
  assumes "kbd_ok k"
  shows "kbd_ok (scancode sc k)"
    and "kraws (scancode sc k) = (if sc = SC_EXTENDED \<or> length (kraws k) = 127 then kraws k
           else kraws k @ [raw_code sc (extended k) (sc AND 0x80 = 0)])"
proof -
  have m: "raw_code (sc AND 0x7F) e p = raw_code sc e p" for e p by (simp add: raw_code_def and.assoc)
  have le: "length (kraws k) \<le> 127" using rq.within [OF assms] by (simp add: krawevents_def)
  show "kbd_ok (scancode sc k)"
    using assms ext_event_ring [OF assms] plain_event_ring [OF assms] by (simp add: scancode_def)
  show "kraws (scancode sc k) = (if sc = SC_EXTENDED \<or> length (kraws k) = 127 then kraws k
           else kraws k @ [raw_code sc (extended k) (sc AND 0x80 = 0)])"
    using ext_event_ring [OF assms, of sc] plain_event_ring [OF assms, of sc] le m
      rawpush_ring [OF assms, of "sc AND 0x7F" "extended k" "sc AND 0x80 = 0"]
    by (cases "extended k") (auto simp: scancode_def)
qed

text \<open>The letter keys of the layout.\<close>

definition letter_codes :: "nat list" where
  "letter_codes = [16..<26] @ [30..<39] @ [44..<51]"

lemma letter_maps:
  "list_all (\<lambda>c. 97 \<le> sint (keymap ! c) \<and> sint (keymap ! c) \<le> 122 \<and> keymap_shift ! c = keymap ! c - 32
     \<and> 65 \<le> sint (keymap ! c - 32) \<and> sint (keymap ! c - 32) \<le> 90) letter_codes"
  by (simp add: letter_codes_def keymap_def keymap_shift_def upt_rec)

lemma code_word:
  assumes "c < 128"
  shows "(of_nat c :: u8) AND 0x7F = of_nat c" "(of_nat c :: u8) AND 0x80 = 0" "unat (of_nat c :: u8) = c"
proof -
  show u: "unat (of_nat c :: u8) = c" by (rule unat_of_nat_small) (use assms in simp)
  have "take_bit 7 (of_nat c :: u8) = of_nat c"
    using assms u by (simp add: word_unat_eq_iff unsigned_take_bit_eq take_bit_nat_eq_self del: unsigned_of_nat)
  moreover have m: "take_bit 7 (of_nat c :: u8) = of_nat c AND 0x7F"
    unfolding take_bit_eq_mask by (simp add: mask_eq_exp_minus_1)
  ultimately show a: "(of_nat c :: u8) AND 0x7F = of_nat c" by simp
  have "\<not> bit ((of_nat c :: u8) AND 0x7F) 7" by (simp add: bit_simps bit_consts)
  then show "(of_nat c :: u8) AND 0x80 = 0" unfolding a using and_bit7 by blast
qed

lemma letter_key:
  assumes ok: "kbd_ok k" and c: "c \<in> set letter_codes" and "\<not> extended k" "\<not> ctrl k" "length (kchars k) < 127"
  shows "kchars (scancode (of_nat c) k) = kchars k @ [if shift k = caps k then keymap ! c else keymap ! c - 32]"
proof -
  have lt: "c < 128" and ne: "c \<notin> {0x2A, 0x36, 0x1D, 0x3A, 0xE0}" using c by (auto simp: letter_codes_def)
  note w = code_word [OF lt]
  have m: "97 \<le> sint (keymap ! c)" "sint (keymap ! c) \<le> 122" "keymap_shift ! c = keymap ! c - 32"
    using letter_maps c by (auto simp: list_all_iff)
  have "(of_nat c :: u8) \<noteq> x" if "unat x \<noteq> c" for x using that w(3) by auto
  then have d: "(of_nat c :: u8) \<notin> {SC_LSHIFT, SC_RSHIFT, SC_CTRL, SC_CAPS, SC_EXTENDED}"
    using ne by (auto simp: SC_LSHIFT_def SC_RSHIFT_def SC_CTRL_def SC_CAPS_def SC_EXTENDED_def)
  define k1 where "k1 = rawpush (of_nat c) False True k"
  have k1: "kbd_ok k1" "kchars k1 = kchars k" "shift k1 = shift k" "caps k1 = caps k" "ctrl k1 = ctrl k"
    using rawpush_ring [OF ok, of "of_nat c" False True] by (auto simp: k1_def rawpush_def Let_def)
  have nz: "keymap ! c \<noteq> 0" using m(1) by auto
  have up: "65 \<le> sint (keymap ! c - 32)" "sint (keymap ! c - 32) \<le> 90"
    using letter_maps c by (auto simp: list_all_iff)
  then have nz': "keymap ! c - 32 \<noteq> 0" by auto
  have "key_char k1 (of_nat c) = Some (if shift k = caps k then keymap ! c else keymap ! c - 32)"
    using m up nz nz' assms(4) k1 by (auto simp: key_char_def w(3) Let_def)
  then have "scancode (of_nat c) k = kpush (if shift k = caps k then keymap ! c else keymap ! c - 32) k1"
    using d assms(3) by (simp add: scancode_def plain_event_def Let_def w k1_def)
  then show ?thesis using kpush_ring [OF k1(1)] k1(2) assms(5) by simp
qed

subsection \<open>Properties\<close>


definition kbd0 :: kbd where
  "kbd0 = \<lparr>kbuf = replicate 128 0, khead = 126, ktail = 126, shift = False, ctrl = False, caps = False,
     extended = False, rawbuf = replicate 128 0, rhead = 5, rtail = 5\<rparr>"

lemma kbd0_ok: "kbd_ok kbd0" "kchars kbd0 = []" "kraws kbd0 = []"
  by (simp_all add: kbd0_def kbd_ok_def ring_ok_def KBUF_SZ_def RAW_SZ_def kchars_def kraws_def ring_list_def)


text \<open>Every scancode except the extended prefix is recorded as exactly one raw key event, with the
  make code, the extended flag and whether the key went down, unless the raw ring is full; no
  scancode breaks the rings.\<close>

theorem scancode_recorded:
  assumes "kbd_ok k"
  shows "kbd_ok (scancode sc k) \<and> kraws (scancode sc k) =
     (if sc = SC_EXTENDED \<or> length (kraws k) = 127 then kraws k
      else kraws k @ [raw_code sc (extended k) (sc AND 0x80 = 0)])"
  using scancode_ring [OF assms] by blast

theorem scancode_recorded_witness: "kraws (scancode 0x1E kbd0) = [0x11E] \<and> kraws (scancode 0x9E kbd0) = [0x1E]"
  using scancode_recorded [OF kbd0_ok(1), of "0x1E"] scancode_recorded [OF kbd0_ok(1), of "0x9E"]
  by (simp add: kbd0_ok SC_EXTENDED_def raw_code_def RAW_DOWN_def) (simp add: kbd0_def)

text \<open>A letter key appends its letter to the character ring: the capital when exactly one of shift and
  caps lock is on, the small letter otherwise.\<close>

theorem letter_key_case:
  assumes "kbd_ok k" and "c \<in> set letter_codes" and "\<not> extended k" and "\<not> ctrl k" and "length (kchars k) < 127"
  shows "kchars (scancode (of_nat c) k) = kchars k @ [if shift k = caps k then keymap ! c else keymap ! c - 32]"
  using assms by (rule letter_key)

theorem letter_key_case_witness: "kchars (scancode 0x1E (kbd0\<lparr>shift := True\<rparr>)) = [65]"
proof -
  have "30 \<in> set letter_codes" by (simp add: letter_codes_def)
  moreover have "\<not> extended (kbd0\<lparr>shift := True\<rparr>)" "\<not> ctrl (kbd0\<lparr>shift := True\<rparr>)" "\<not> caps (kbd0\<lparr>shift := True\<rparr>)"
    by (simp_all add: kbd0_def)
  moreover have "keymap ! 30 = 97" by (simp add: keymap_def)
  ultimately show ?thesis using letter_key_case [of "kbd0\<lparr>shift := True\<rparr>" 30] kbd0_ok by simp
qed

end
