(* ===== verification/Rtc.thy ===== *)
theory Rtc
  imports Ports "HOL-Library.Signed_Division"
begin

text \<open>
  The CMOS real-time clock (\<^verbatim>\<open>include/rtc.h\<close>, \<^verbatim>\<open>src/rtc.c\<close>): the register snapshot, its decoding
  from BCD or binary and 12- or 24-hour form, and the conversion to seconds since 1970. C's \<^verbatim>\<open>/\<close> on
  signed integers truncates, which is \<^verbatim>\<open>sdiv\<close> here.
\<close>

record raw =
  r_sec :: u8
  r_min :: u8
  r_hour :: u8
  r_day :: u8
  r_mon :: u8
  r_year :: u8
  r_cent :: u8

record rtc_time =
  t_year :: int
  t_month :: int
  t_day :: int
  t_hour :: int
  t_minute :: int
  t_second :: int

definition STATUS_A_UIP :: u8 where "STATUS_A_UIP = 0x80"
definition STATUS_B_24H :: u8 where "STATUS_B_24H = 0x02"
definition STATUS_B_BIN :: u8 where "STATUS_B_BIN = 0x04"

definition cmos_read :: "'w ports \<Rightarrow> u8 \<Rightarrow> 'w \<Rightarrow> u8 \<times> 'w" where
  "cmos_read p reg w = inb p 0x71 (outb p 0x70 reg w)"

definition update_in_progress :: "'w ports \<Rightarrow> 'w \<Rightarrow> bool \<times> 'w" where
  "update_in_progress p w = (let (v, w1) = cmos_read p 0x0A w in (v AND STATUS_A_UIP \<noteq> 0, w1))"

definition from_bcd :: "u8 \<Rightarrow> int" where
  "from_bcd v = uint (v AND 0x0F) + uint (drop_bit 4 v) * 10"

definition read_raw :: "'w ports \<Rightarrow> 'w \<Rightarrow> raw \<times> 'w" where
  "read_raw p w =
     (let (sec, w1) = cmos_read p 0x00 w;
          (min, w2) = cmos_read p 0x02 w1;
          (hour, w3) = cmos_read p 0x04 w2;
          (day, w4) = cmos_read p 0x07 w3;
          (mon, w5) = cmos_read p 0x08 w4;
          (year, w6) = cmos_read p 0x09 w5;
          (cent, w7) = cmos_read p 0x32 w6
      in (\<lparr>r_sec = sec, r_min = min, r_hour = hour, r_day = day, r_mon = mon, r_year = year, r_cent = cent\<rparr>, w7))"

definition raw_eq :: "raw \<Rightarrow> raw \<Rightarrow> bool" where
  "raw_eq a b \<longleftrightarrow> r_sec a = r_sec b \<and> r_min a = r_min b \<and> r_hour a = r_hour b \<and> r_day a = r_day b
     \<and> r_mon a = r_mon b \<and> r_year a = r_year b \<and> r_cent a = r_cent b"

text \<open>\<^verbatim>\<open>while (update_in_progress() && spins++ < 1000000) {}\<close>\<close>

function spin_wait :: "'w ports \<Rightarrow> nat \<Rightarrow> 'w \<Rightarrow> nat \<times> 'w" where
  "spin_wait p spins w =
     (let (busy, w1) = update_in_progress p w in
      if busy then (if spins < 1000000 then spin_wait p (spins + 1) w1 else (spins + 1, w1))
      else (spins, w1))"
  by pat_completeness auto

termination
  by (relation "measure (\<lambda>(p, spins, w). 1000000 - spins)") auto

function snapshot_loop :: "'w ports \<Rightarrow> nat \<Rightarrow> 'w \<Rightarrow> raw \<times> 'w" where
  "snapshot_loop p tries w =
     (let (s1, w1) = spin_wait p 0 w;
          (a, w2) = read_raw p w1;
          (s2, w3) = spin_wait p s1 w2;
          (b, w4) = read_raw p w3
      in if \<not> raw_eq a b \<and> tries + 1 < 8 then snapshot_loop p (tries + 1) w4 else (b, w4))"
  by pat_completeness auto

termination
  by (relation "measure (\<lambda>(p, tries, w). 8 - tries)") auto

declare spin_wait.simps [simp del] snapshot_loop.simps [simp del]

definition decode_field :: "bool \<Rightarrow> u8 \<Rightarrow> int" where
  "decode_field binary v = (if binary then uint v else from_bcd v)"

text \<open>The hours: the PM bit is taken off before the field is decoded, then 12 AM becomes 0 and PM adds
  12.\<close>

definition decode_hour :: "bool \<Rightarrow> bool \<Rightarrow> u8 \<Rightarrow> int" where
  "decode_hour binary h24 v =
     (let pm = (\<not> h24 \<and> v AND 0x80 \<noteq> 0);
          hour = decode_field binary (if \<not> h24 then v AND 0x7F else v);
          hour1 = (if \<not> h24 \<and> hour = 12 then 0 else hour)
      in if pm then hour1 + 12 else hour1)"

definition decode_raw :: "u8 \<Rightarrow> raw \<Rightarrow> rtc_time option" where
  "decode_raw statusb b =
     (let binary = (statusb AND STATUS_B_BIN \<noteq> 0);
          h24 = (statusb AND STATUS_B_24H \<noteq> 0);
          sec = decode_field binary (r_sec b);
          min = decode_field binary (r_min b);
          hour = decode_hour binary h24 (r_hour b);
          day = decode_field binary (r_day b);
          mon = decode_field binary (r_mon b);
          year2 = decode_field binary (r_year b);
          cent = decode_field binary (r_cent b);
          year = (if cent \<ge> 19 \<and> cent \<le> 21 then cent * 100 + year2
                  else (if year2 < 70 then 2000 else 1900) + year2)
      in if mon < 1 \<or> mon > 12 \<or> day < 1 \<or> day > 31 \<or> hour > 23 \<or> min > 59 \<or> sec > 59
            \<or> year < 1970 \<or> year > 2200 then None
         else Some \<lparr>t_year = year, t_month = mon, t_day = day, t_hour = hour, t_minute = min, t_second = sec\<rparr>)"

text \<open>\<^verbatim>\<open>rtc_read\<close> with a non-null argument; None is its false.\<close>

definition rtc_read :: "'w ports \<Rightarrow> 'w \<Rightarrow> rtc_time option \<times> 'w" where
  "rtc_read p w =
     (let (b, w1) = snapshot_loop p 0 w;
          (statusb, w2) = cmos_read p 0x0B w1
      in (decode_raw statusb b, w2))"

definition days_from_civil :: "int \<Rightarrow> int \<Rightarrow> int \<Rightarrow> int" where
  "days_from_civil y0 m d =
     (let y = y0 - (if m \<le> 2 then 1 else 0);
          era = (if y \<ge> 0 then y else y - 399) sdiv 400;
          yoe = y - era * 400;
          doy = (153 * (m + (if m > 2 then -3 else 9)) + 2) sdiv 5 + d - 1;
          doe = yoe * 365 + yoe sdiv 4 - yoe sdiv 100 + doy
      in era * 146097 + doe - 719468)"

definition rtc_epoch :: "'w ports \<Rightarrow> 'w \<Rightarrow> u64 \<times> 'w" where
  "rtc_epoch p w =
     (case rtc_read p w of
        (None, w1) \<Rightarrow> (0, w1)
      | (Some t, w1) \<Rightarrow>
          let days = days_from_civil (t_year t) (t_month t) (t_day t);
              secs = days * 86400 + t_hour t * 3600 + t_minute t * 60 + t_second t
          in (if secs < 0 then 0 else word_of_int secs, w1))"

subsection \<open>Dates\<close>

text \<open>The Gregorian calendar, counted day by day.\<close>

definition leap :: "int \<Rightarrow> bool" where
  "leap y \<longleftrightarrow> 4 dvd y \<and> (\<not> 100 dvd y \<or> 400 dvd y)"

definition month_length :: "int \<Rightarrow> int \<Rightarrow> int" where
  "month_length y m =
     (if m = 2 then (if leap y then 29 else 28) else if m \<in> {4, 6, 9, 11} then 30 else 31)"

fun days_to_year :: "nat \<Rightarrow> int" where
  "days_to_year 0 = 0"
| "days_to_year (Suc n) = days_to_year n + (if leap (1970 + int n) then 366 else 365)"

fun days_to_month :: "int \<Rightarrow> nat \<Rightarrow> int" where
  "days_to_month y 0 = 0"
| "days_to_month y (Suc m) = days_to_month y m + month_length y (int m + 1)"

definition civil_days :: "nat \<Rightarrow> nat \<Rightarrow> int \<Rightarrow> int" where
  "civil_days n m d = days_to_year n + days_to_month (1970 + int n) (m - 1) + d - 1"

definition year_days :: "int \<Rightarrow> int" where
  "year_days z = 365 * z + z div 4 - z div 100 + z div 400"

lemma sdiv_nonneg: "0 \<le> a \<Longrightarrow> 0 < b \<Longrightarrow> a sdiv b = a div (b :: int)"
  by (simp add: signed_divide_int_def sgn_if abs_if)

lemma era_split:
  fixes z :: int
  shows "z div 400 * 146097 + ((z - z div 400 * 400) * 365 + (z - z div 400 * 400) div 4 - (z - z div 400 * 400) div 100)
    = year_days z"
proof -
  define e r where "e = z div 400" and "r = z mod 400"
  have z: "z = 400 * e + r" by (simp add: e_def r_def)
  have "z div 4 = 100 * e + r div 4" "z div 100 = 4 * e + r div 100" by (simp_all add: z div_plus_div_distrib_dvd_left)
  moreover have "z - e * 400 = r" by (simp add: z)
  ultimately show ?thesis unfolding year_days_def e_def [symmetric] by (simp add: z)
qed

lemma days_from_civil_eq:
  assumes "1 \<le> y" and "1 \<le> m" and "m \<le> 12"
  shows "days_from_civil y m d =
     year_days (if m \<le> 2 then y - 1 else y) + (153 * (if m > 2 then m - 3 else m + 9) + 2) div 5 + d - 1 - 719468"
proof -
  let ?z = "if m \<le> 2 then y - 1 else y"
  have z: "0 \<le> ?z" using assms by simp
  have "0 \<le> ?z - ?z div 400 * 400" by (simp add: minus_div_mult_eq_mod)
  then show ?thesis
    using z assms era_split [of ?z]
    by (auto simp: days_from_civil_def Let_def sdiv_nonneg)
qed

lemma div_succ:
  assumes "0 < (k :: int)"
  shows "(z + 1) div k = z div k + (if k dvd z + 1 then 1 else 0)"
proof -
  have z: "z + 1 = k * (z div k) + (z mod k + 1)" by simp
  have r: "0 \<le> z mod k" "z mod k < k" using assms by simp_all
  have dv: "k dvd z + 1 \<longleftrightarrow> z mod k + 1 = k"
  proof
    assume "k dvd z + 1"
    then have "k dvd z mod k + 1" by (metis dvd_add_right_iff dvd_triv_left z)
    then have "k \<le> z mod k + 1" using r by (intro zdvd_imp_le) simp_all
    then show "z mod k + 1 = k" using r by simp
  next
    assume "z mod k + 1 = k"
    then have "z + 1 = k * (z div k) + k" using z by simp
    then show "k dvd z + 1" by simp
  qed
  show ?thesis
  proof (cases "k dvd z + 1")
    case True
    then have "z + 1 = k * (z div k + 1)" using dv z by (simp add: algebra_simps)
    then have "(z + 1) div k = z div k + 1" using assms by (metis nonzero_mult_div_cancel_left less_irrefl)
    then show ?thesis using True by simp
  next
    case False
    then have "z mod k + 1 < k" using dv r by linarith
    then have "(z + 1) div k = z div k" using z r by (intro int_div_pos_eq) simp_all
    then show ?thesis using False by simp
  qed
qed

lemma year_days_step: "year_days (z + 1) = year_days z + 365 + (if leap (z + 1) then 1 else 0)"
proof -
  define a b c where "a \<longleftrightarrow> 4 dvd z + 1" and "b \<longleftrightarrow> 100 dvd z + 1" and "c \<longleftrightarrow> 400 dvd z + 1"
  have "c \<Longrightarrow> b" "b \<Longrightarrow> a" unfolding a_def b_def c_def by (auto elim: dvd_trans [rotated])
  then have "(if a then 1 else 0) - (if b then 1 else 0) + (if c then 1 else 0) = (if a \<and> (\<not> b \<or> c) then 1 else 0 :: int)"
    by (cases a; cases b; cases c) simp_all
  moreover have sum: "365 * (z + 1) + (p + A) - (q + B) + (r + C) = 365 * z + p - q + r + 365 + L"
    if "A - B + C = L" for p q r A B C L :: int using that by simp
  moreover have "(z + 1) div 4 = z div 4 + (if a then 1 else 0)" "(z + 1) div 100 = z div 100 + (if b then 1 else 0)"
    "(z + 1) div 400 = z div 400 + (if c then 1 else 0)"
    unfolding a_def b_def c_def by (rule div_succ, simp)+
  ultimately show ?thesis
    unfolding year_days_def leap_def a_def [symmetric] b_def [symmetric] c_def [symmetric] by (simp only: sum)
qed

lemma days_to_year_eq: "days_to_year n = days_from_civil (1970 + int n) 1 1"
proof (induction n)
  case 0
  then show ?case by (simp add: days_from_civil_def Let_def signed_divide_int_def)
next
  case (Suc n)
  have "year_days (1970 + int n) = year_days (1969 + int n) + 365 + (if leap (1970 + int n) then 1 else 0)"
    using year_days_step [of "1969 + int n"] by (simp add: add.commute add.left_commute)
  then show ?case using Suc by (simp add: days_from_civil_eq)
qed

lemma days_to_month_eq:
  assumes "1 \<le> m" and "m \<le> (12 :: nat)"
  shows "days_to_month (1970 + int n) (m - 1) = days_from_civil (1970 + int n) (int m) 1 - days_from_civil (1970 + int n) 1 1"
proof -
  have "year_days (1970 + int n) = year_days (1969 + int n) + 365 + (if leap (1970 + int n) then 1 else 0)"
    using year_days_step [of "1969 + int n"] by (simp add: add.commute add.left_commute)
  moreover have "m = 1 \<or> m = 2 \<or> m = 3 \<or> m = 4 \<or> m = 5 \<or> m = 6 \<or> m = 7 \<or> m = 8 \<or> m = 9 \<or> m = 10 \<or> m = 11 \<or> m = 12"
    using assms by arith
  ultimately show ?thesis by (auto simp: days_from_civil_eq month_length_def numeral_nat)
qed

lemma days_from_civil_day: "days_from_civil y m d = days_from_civil y m 1 + d - 1"
  by (simp add: days_from_civil_def Let_def)

lemma days_from_civil_correct:
  assumes "1 \<le> m" and "m \<le> (12 :: nat)"
  shows "days_from_civil (1970 + int n) (int m) d = civil_days n m d"
  unfolding civil_days_def days_to_year_eq days_to_month_eq [OF assms] days_from_civil_day [of _ _ d] by linarith

subsection \<open>Register formats\<close>

definition to_bcd :: "nat \<Rightarrow> u8" where
  "to_bcd n = of_nat (n div 10 * 16 + n mod 10)"

lemma bcd_nibbles: "unat (drop_bit 4 (v :: u8)) = unat v div 16" "unat (v AND 0x0F) = unat v mod 16"
proof -
  show "unat (drop_bit 4 v) = unat v div 16" by (simp add: drop_bit_eq_div unat_div)
  have "v AND 0x0F = take_bit 4 v" by (simp add: take_bit_eq_mask mask_eq_exp_minus_1)
  then show "unat (v AND 0x0F) = unat v mod 16" by (simp only: unsigned_take_bit_eq) (simp add: take_bit_eq_mod)
qed

lemma from_to_bcd: "n < 100 \<Longrightarrow> from_bcd (to_bcd n) = int n"
proof -
  assume n: "n < 100"
  then have "unat (to_bcd n) = n div 10 * 16 + n mod 10"
    unfolding to_bcd_def by (intro unat_of_nat_small) auto
  then have "unat (drop_bit 4 (to_bcd n)) = n div 10" "unat (to_bcd n AND 0x0F) = n mod 10"
    unfolding bcd_nibbles by auto
  then have "from_bcd (to_bcd n) = int (n mod 10) + int (n div 10) * 10"
    unfolding from_bcd_def uint_nat by simp
  then show ?thesis by (simp add: zdiv_int zmod_int)
qed

text \<open>How a clock chip represents a time: BCD or binary fields, 12- or 24-hour hours.\<close>

definition encode_field :: "bool \<Rightarrow> int \<Rightarrow> u8" where
  "encode_field bin n = (if bin then word_of_int n else to_bcd (nat n))"

definition encode_hour :: "bool \<Rightarrow> bool \<Rightarrow> int \<Rightarrow> u8" where
  "encode_hour bin h24 h =
     (if h24 then encode_field bin h
      else (if 12 \<le> h then 0x80 else 0) OR encode_field bin (if h mod 12 = 0 then 12 else h mod 12))"

definition encode_raw :: "bool \<Rightarrow> bool \<Rightarrow> rtc_time \<Rightarrow> raw" where
  "encode_raw bin h24 t =
     \<lparr>r_sec = encode_field bin (t_second t), r_min = encode_field bin (t_minute t),
      r_hour = encode_hour bin h24 (t_hour t), r_day = encode_field bin (t_day t),
      r_mon = encode_field bin (t_month t), r_year = encode_field bin (t_year t mod 100),
      r_cent = encode_field bin (t_year t div 100)\<rparr>"

definition status_b :: "bool \<Rightarrow> bool \<Rightarrow> u8" where
  "status_b bin h24 = (if bin then STATUS_B_BIN else 0) OR (if h24 then STATUS_B_24H else 0)"

definition time_ok :: "rtc_time \<Rightarrow> bool" where
  "time_ok t \<longleftrightarrow> t_year t \<in> {1970..2199} \<and> t_month t \<in> {1..12} \<and> t_day t \<in> {1..31} \<and> t_hour t \<in> {0..23}
     \<and> t_minute t \<in> {0..59} \<and> t_second t \<in> {0..59}"

lemma decode_encode_field: "n \<in> {0..99} \<Longrightarrow> decode_field bin (encode_field bin n) = n"
  by (auto simp: decode_field_def encode_field_def from_to_bcd uint_word_of_int)

text \<open>The 24 hours, one by one.\<close>

lemma hour_cases:
  assumes "h \<in> {0..23 :: int}" and "list_all P (map int [0..<24])"
  shows "P h"
proof -
  have "h = int (nat h)" "nat h < 24" using assms(1) by auto
  then have "h \<in> set (map int [0..<24])" by (metis atLeast0LessThan image_eqI lessThan_iff list.set_map set_upt)
  then show ?thesis using assms(2) by (simp only: list_all_iff)
qed

lemma decode_encode_hour:
  assumes "h \<in> {0..23}"
  shows "decode_hour bin h24 (encode_hour bin h24 h) = h"
  by (rule hour_cases [OF assms], cases bin; cases h24)
    (simp_all add: upt_rec decode_hour_def decode_field_def encode_hour_def encode_field_def to_bcd_def from_bcd_def)

lemma decode_encode:
  assumes "time_ok t"
  shows "decode_raw (status_b bin h24) (encode_raw bin h24 t) = Some t"
proof -
  have st: "status_b bin h24 AND STATUS_B_BIN \<noteq> 0 \<longleftrightarrow> bin" "status_b bin h24 AND STATUS_B_24H \<noteq> 0 \<longleftrightarrow> h24"
    by (cases bin; cases h24; simp add: status_b_def STATUS_B_BIN_def STATUS_B_24H_def)+
  have y: "t_year t mod 100 \<in> {0..99}" "t_year t div 100 \<in> {19..21}" "t_year t div 100 \<in> {0..99}"
    using assms by (auto simp: time_ok_def)
  have eqs: "decode_field bin (encode_field bin (t_second t)) = t_second t" "decode_field bin (encode_field bin (t_minute t)) = t_minute t"
    "decode_field bin (encode_field bin (t_day t)) = t_day t" "decode_field bin (encode_field bin (t_month t)) = t_month t"
    "decode_field bin (encode_field bin (t_year t mod 100)) = t_year t mod 100"
    "decode_field bin (encode_field bin (t_year t div 100)) = t_year t div 100"
    "decode_hour bin h24 (encode_hour bin h24 (t_hour t)) = t_hour t"
    using assms y by (auto simp: time_ok_def intro!: decode_encode_field decode_encode_hour)
  have yy: "t_year t div 100 * 100 + t_year t mod 100 = t_year t" by simp
  show ?thesis
    unfolding decode_raw_def st Let_def using assms y(2) by (simp add: encode_raw_def eqs yy time_ok_def)
qed

lemma decode_raw_range:
  assumes "decode_raw st b = Some t"
  shows "t_year t \<in> {1970..2200}" "t_month t \<in> {1..12}" "t_day t \<in> {1..31}" "t_hour t \<in> {0..23}"
    "t_minute t \<in> {0..59}" "t_second t \<in> {0..59}"
proof -
  have nn: "0 \<le> decode_field bin v" for bin and v :: u8 by (simp add: decode_field_def from_bcd_def)
  then have "0 \<le> decode_hour bin h v" for bin h v by (simp add: decode_hour_def Let_def)
  then show "t_year t \<in> {1970..2200}" "t_month t \<in> {1..12}" "t_day t \<in> {1..31}" "t_hour t \<in> {0..23}"
    "t_minute t \<in> {0..59}" "t_second t \<in> {0..59}"
    using assms nn by (auto simp: decode_raw_def Let_def split: if_splits)
qed

subsection \<open>Properties\<close>

text \<open>C30. \<^const>\<open>days_from_civil\<close> is the number of days from 1 January 1970 to the given date in the
  Gregorian calendar, counted year by year and month by month.\<close>

theorem days_from_civil_calendar:
  assumes "1 \<le> m" and "m \<le> 12"
  shows "days_from_civil (1970 + int n) (int m) d = civil_days n m d"
  using assms by (rule days_from_civil_correct)

theorem days_from_civil_calendar_witness: "days_from_civil 2000 3 1 = civil_days 30 3 1 \<and> days_from_civil 2000 3 1 = 11017"
proof -
  have "days_from_civil 2000 3 1 = civil_days 30 3 1" using days_from_civil_calendar [of 3 30 1] by simp
  moreover have "days_from_civil 2000 3 1 = 11017" by (simp add: days_from_civil_def Let_def signed_divide_int_def)
  ultimately show ?thesis by simp
qed

text \<open>C31. The clock is read back exactly from any of the four register formats (BCD or binary, 12 or 24
  hours).\<close>

theorem rtc_formats:
  assumes "time_ok t"
  shows "decode_raw (status_b bin h24) (encode_raw bin h24 t) = Some t"
  using assms by (rule decode_encode)

theorem rtc_formats_witness:
  "decode_raw (status_b False False) \<lparr>r_sec = 0x59, r_min = 0x07, r_hour = 0x92, r_day = 0x29, r_mon = 0x02, r_year = 0x24, r_cent = 0x20\<rparr>
    = Some \<lparr>t_year = 2024, t_month = 2, t_day = 29, t_hour = 12, t_minute = 7, t_second = 59\<rparr>"
  using rtc_formats [of "\<lparr>t_year = 2024, t_month = 2, t_day = 29, t_hour = 12, t_minute = 7, t_second = 59\<rparr>" False False]
  by (simp add: time_ok_def encode_raw_def encode_hour_def encode_field_def to_bcd_def)

text \<open>Whatever the device returns, a time reported by \<^const>\<open>rtc_read\<close> has every field in its range.\<close>

theorem rtc_read_range:
  assumes "rtc_read p w = (Some t, w')"
  shows "t_year t \<in> {1970..2200} \<and> t_month t \<in> {1..12} \<and> t_day t \<in> {1..31} \<and> t_hour t \<in> {0..23}
    \<and> t_minute t \<in> {0..59} \<and> t_second t \<in> {0..59}"
  using assms decode_raw_range [of _ _ t] by (auto simp: rtc_read_def split: prod.splits)

definition cmos_ports :: "u8 ports" where
  "cmos_ports = \<lparr>inb = (\<lambda>_ i. (if i = 0x0A then 0 else if i = 0x32 then 0x20 else if i = 0x0B then 0x02 else 0x11, i)),
     outb = (\<lambda>_ v _. v)\<rparr>"

theorem rtc_read_range_witness:
  "\<exists>t. rtc_read cmos_ports 0 = (Some t, 0x0B) \<and> t_year t = 2011 \<and> t_month t \<in> {1..12} \<and> t_hour t \<in> {0..23}"
proof -
  have c: "cmos_read cmos_ports i w = (if i = 0x0A then 0 else if i = 0x32 then 0x20 else if i = 0x0B then 0x02 else 0x11, i)" for i w
    by (simp add: cmos_read_def cmos_ports_def)
  have s: "spin_wait cmos_ports n w = (n, 0x0A)" for n w
    by (subst spin_wait.simps) (simp add: update_in_progress_def c)
  have "rtc_read cmos_ports 0 = (Some \<lparr>t_year = 2011, t_month = 11, t_day = 11, t_hour = 11, t_minute = 11, t_second = 11\<rparr>, 0x0B)"
    by (simp add: rtc_read_def snapshot_loop.simps s read_raw_def c raw_eq_def decode_raw_def decode_hour_def
        decode_field_def from_bcd_def STATUS_B_BIN_def STATUS_B_24H_def)
  from rtc_read_range [OF this] this show ?thesis by simp
qed

end
