(* ===== verification/Qoi.thy ===== *)
theory Qoi
  imports Frames "HOL-Library.Monad_Syntax"
begin

text \<open>
  The QOI image decoder (\<^verbatim>\<open>src/src/qoi.c\<close>). The input is a byte list; a load outside it is
  \<^const>\<open>None\<close>. The allocator is a parameter \<open>alc align size count\<close> that returns a block or panics.
  The lemmas show that the decoder never reads outside its input, that an accepted image has the
  number of pixels its header states, and that it inverts an encoder that uses every chunk kind.
\<close>

subsection \<open>Definitions\<close>

definition QOI_OP_INDEX :: u8 where "QOI_OP_INDEX = 0x00"
definition QOI_OP_DIFF :: u8 where "QOI_OP_DIFF = 0x40"
definition QOI_OP_LUMA :: u8 where "QOI_OP_LUMA = 0x80"
definition QOI_OP_RUN :: u8 where "QOI_OP_RUN = 0xc0"
definition QOI_OP_RGB :: u8 where "QOI_OP_RGB = 0xfe"
definition QOI_OP_RGBA :: u8 where "QOI_OP_RGBA = 0xff"
definition QOI_MASK_2 :: u8 where "QOI_MASK_2 = 0xc0"

lemmas qoi_tags = QOI_OP_INDEX_def QOI_OP_DIFF_def QOI_OP_LUMA_def QOI_OP_RUN_def QOI_OP_RGB_def
  QOI_OP_RGBA_def QOI_MASK_2_def

text \<open>A pixel is \<open>(r, g, b, a)\<close>.\<close>

type_synonym rgba = "u8 \<times> u8 \<times> u8 \<times> u8"

fun QOI_HASH :: "rgba \<Rightarrow> nat" where
  "QOI_HASH (r, g, b, a) = unat r * 3 + unat g * 5 + unat b * 7 + unat a * 11"

record qoi_header =
  hdr_width :: u32
  hdr_height :: u32
  hdr_channels :: u8

record qoi_image =
  width :: u32
  height :: u32

record qoi_state =
  cur :: rgba
  cache :: "rgba list"
  run :: nat
  pos :: nat

datatype 'p qoi_result = Qoi_null | Qoi_panic string | Qoi_image 'p qoi_image "u32 list"

definition qoi_be32 :: "bytes \<Rightarrow> nat \<Rightarrow> u32 option" where
  "qoi_be32 p i = do {
     b0 \<leftarrow> rd p i; b1 \<leftarrow> rd p (i + 1); b2 \<leftarrow> rd p (i + 2); b3 \<leftarrow> rd p (i + 3);
     Some (be32 b0 b1 b2 b3) }"

text \<open>The header at the start of the file: magic, width and height, channels, colorspace (unused).
  \<open>Some None\<close> is the rejection of the first test.\<close>

definition read_header :: "bytes \<Rightarrow> qoi_header option option" where
  "read_header p = (if length p < 14 + 8 then Some None else do {
     m0 \<leftarrow> rd p 0; m1 \<leftarrow> rd p 1; m2 \<leftarrow> rd p 2; m3 \<leftarrow> rd p 3;
     (if m0 \<noteq> 0x71 \<or> m1 \<noteq> 0x6F \<or> m2 \<noteq> 0x69 \<or> m3 \<noteq> 0x66 then Some None else do {
        w \<leftarrow> qoi_be32 p 4; h \<leftarrow> qoi_be32 p 8; c \<leftarrow> rd p 12;
        Some (Some \<lparr>hdr_width = w, hdr_height = h, hdr_channels = c\<rparr>) }) })"

text \<open>The new pixel, run count and read position after one tagged chunk.\<close>

definition qoi_op :: "bytes \<Rightarrow> qoi_state \<Rightarrow> (rgba \<times> nat \<times> nat) option" where
  "qoi_op p s = (case cur s of (r, g, b, a) \<Rightarrow> do {
     op \<leftarrow> rd p (pos s);
     let i = pos s + 1;
     (if op = QOI_OP_RGB then do {
        r \<leftarrow> rd p i; g \<leftarrow> rd p (i + 1); b \<leftarrow> rd p (i + 2);
        Some ((r, g, b, a), 0, i + 3) }
      else if op = QOI_OP_RGBA then do {
        r \<leftarrow> rd p i; g \<leftarrow> rd p (i + 1); b \<leftarrow> rd p (i + 2); a \<leftarrow> rd p (i + 3);
        Some ((r, g, b, a), 0, i + 4) }
      else if op AND QOI_MASK_2 = QOI_OP_INDEX then do {
        c \<leftarrow> rd (cache s) (unat (op AND 0x3f));
        Some (c, 0, i) }
      else if op AND QOI_MASK_2 = QOI_OP_DIFF then
        Some ((r + ((drop_bit 4 op AND 3) - 2), g + ((drop_bit 2 op AND 3) - 2),
               b + ((op AND 3) - 2), a), 0, i)
      else if op AND QOI_MASK_2 = QOI_OP_LUMA then do {
        op2 \<leftarrow> rd p i;
        let dg = (op AND 0x3f) - 32;
        Some ((r + (dg - 8 + (drop_bit 4 op2 AND 0x0f)), g + dg,
               b + (dg - 8 + (op2 AND 0x0f)), a), 0, i + 1) }
      else Some ((r, g, b, a), unat (op AND 0x3f), i)) })"

text \<open>One chunk: the operation, then the store into the cache slot of the new pixel.\<close>

definition qoi_chunk :: "bytes \<Rightarrow> qoi_state \<Rightarrow> qoi_state option" where
  "qoi_chunk p s = do {
     (px, n, i) \<leftarrow> qoi_op p s;
     c \<leftarrow> wr (cache s) (QOI_HASH px mod 64) px;
     Some \<lparr>cur = px, cache = c, run = n, pos = i\<rparr> }"

definition qoi_step :: "bytes \<Rightarrow> nat \<Rightarrow> qoi_state \<Rightarrow> qoi_state option" where
  "qoi_step p chunks_end s =
     (if 0 < run s then Some (s\<lparr>run := run s - 1\<rparr>)
      else if pos s < chunks_end then qoi_chunk p s
      else Some s)"

fun argb :: "rgba \<Rightarrow> u32" where
  "argb (r, g, b, a) = push_bit 24 (ucast a) OR push_bit 16 (ucast r) OR push_bit 8 (ucast g) OR ucast b"

text \<open>The loop over \<^verbatim>\<open>out[0..npixels)\<close>, which stores each element once and in order.\<close>

fun qoi_pixels :: "bytes \<Rightarrow> nat \<Rightarrow> nat \<Rightarrow> qoi_state \<Rightarrow> u32 list option" where
  "qoi_pixels p chunks_end 0 s = Some []"
| "qoi_pixels p chunks_end (Suc n) s = do {
     s' \<leftarrow> qoi_step p chunks_end s;
     out \<leftarrow> qoi_pixels p chunks_end n s';
     Some (argb (cur s') # out) }"

definition qoi_start :: qoi_state where
  "qoi_start = \<lparr>cur = (0, 0, 0, 255), cache = replicate 64 (0, 0, 0, 0), run = 0, pos = 14\<rparr>"

definition qoi_decode :: "(nat \<Rightarrow> nat \<Rightarrow> nat \<Rightarrow> 'p outcome) \<Rightarrow> bytes \<Rightarrow> 'p qoi_result option" where
  "qoi_decode alc p = do {
     h \<leftarrow> read_header p;
     (case h of None \<Rightarrow> Some Qoi_null
      | Some hdr \<Rightarrow>
        if hdr_width hdr = 0 \<or> hdr_height hdr = 0 \<or> (hdr_channels hdr \<noteq> 3 \<and> hdr_channels hdr \<noteq> 4)
        then Some Qoi_null
        else let npixels = ucast (hdr_width hdr) * ucast (hdr_height hdr) :: u64 in
        if npixels > 16777216 then Some Qoi_null
        else case alc 4 4 (unat npixels) of
          Inl msg \<Rightarrow> Some (Qoi_panic msg)
        | Inr out \<Rightarrow> do {
            px \<leftarrow> qoi_pixels p (length p - 8) (unat npixels) qoi_start;
            Some (Qoi_image out \<lparr>width = hdr_width hdr, height = hdr_height hdr\<rparr> px) }) }"

subsection \<open>No read outside the input\<close>

text \<open>A chunk may start at the last byte before the end marker; its operands reach at most four
  bytes into the eight of the marker.\<close>

lemma unat_and_3f: "unat ((op :: u8) AND 0x3f) < 64"
proof -
  have "op AND 0x3f \<le> 0x3f" by (rule word_and_le1)
  then show ?thesis by (simp add: word_le_nat_alt)
qed

lemma qoi_op_reads:
  assumes "pos s + 5 \<le> length p" "length (cache s) = 64"
  shows "qoi_op p s \<noteq> None"
  using assms unat_and_3f
  by (simp add: qoi_op_def rd_def Let_def del: split_paired_Ex split: prod.split)

lemma qoi_chunk_reads:
  assumes "pos s + 5 \<le> length p" "length (cache s) = 64"
  shows "\<exists>s'. qoi_chunk p s = Some s' \<and> length (cache s') = 64"
  using qoi_op_reads [OF assms] assms(2)
  by (auto simp: qoi_chunk_def wr_def)

lemma qoi_step_reads:
  assumes "length (cache s) = 64" and "chunks_end + 8 \<le> length p"
  shows "\<exists>s'. qoi_step p chunks_end s = Some s' \<and> length (cache s') = 64"
  using assms qoi_chunk_reads [of s p] by (auto simp: qoi_step_def)

lemma qoi_pixels_reads:
  "length (cache s) = 64 \<Longrightarrow> chunks_end + 8 \<le> length p \<Longrightarrow>
   \<exists>out. qoi_pixels p chunks_end n s = Some out \<and> length out = n"
proof (induction n arbitrary: s)
  case (Suc n)
  from qoi_step_reads [OF Suc.prems] obtain s' where
    "qoi_step p chunks_end s = Some s'" "length (cache s') = 64" by blast
  with Suc.IH [of s'] Suc.prems(2) show ?case by auto
qed simp

lemma read_header_reads: "\<exists>h. read_header p = Some h"
  by (auto simp: read_header_def qoi_be32_def rd_def)

lemma npixels_bound:
  "unat (ucast (w :: u32) * ucast (h :: u32) :: u64) = unat w * unat h"
proof -
  have "unat w * unat h \<le> 4294967295 * 4294967295"
    using unat_u32_lt [of w] unat_u32_lt [of h] by (intro mult_le_mono) auto
  then show ?thesis by (subst unat_mult_small) auto
qed
subsection \<open>An encoder with every chunk kind\<close>

text \<open>The format's encoder, after the QOI specification: repeat counts, cache hits, small
  differences, luma differences, full colour. Only the decoder is part of the kernel.\<close>

fun enc_pixel :: "rgba \<Rightarrow> rgba list \<Rightarrow> rgba \<Rightarrow> bytes" where
  "enc_pixel (r, g, b, a) c (r', g', b', a') =
     (let dr = r' - r; dg = g' - g; db = b' - b; px = (r', g', b', a') in
      if c ! (QOI_HASH px mod 64) = px then [of_nat (QOI_HASH px mod 64)]
      else if a' \<noteq> a then [0xff, r', g', b', a']
      else if unat (dr + 2) < 4 \<and> unat (dg + 2) < 4 \<and> unat (db + 2) < 4 then
        [of_nat (64 + (16 * unat (dr + 2) + (4 * unat (dg + 2) + unat (db + 2))))]
      else if unat (dg + 32) < 64 \<and> unat (dr - dg + 8) < 16 \<and> unat (db - dg + 8) < 16 then
        [of_nat (128 + unat (dg + 32)), of_nat (16 * unat (dr - dg + 8) + unat (db - dg + 8))]
      else [0xfe, r', g', b'])"

function enc_pixels :: "rgba \<Rightarrow> rgba list \<Rightarrow> rgba list \<Rightarrow> bytes" where
  "enc_pixels prev c [] = []"
| "enc_pixels prev c (px # pxs) =
     (if px = prev then
        let n = length (takeWhile (\<lambda>q. q = prev) (take 61 pxs)) in
        of_nat (192 + n) # enc_pixels prev (c[QOI_HASH prev mod 64 := prev]) (drop n pxs)
      else enc_pixel prev c px @ enc_pixels px (c[QOI_HASH px mod 64 := px]) pxs)"
  by pat_completeness auto
termination by (relation "measure (\<lambda>(prev, c, pxs). length pxs)") (auto simp: less_Suc_eq_le)

definition qoi_encode :: "u32 \<Rightarrow> u32 \<Rightarrow> u8 \<Rightarrow> rgba list \<Rightarrow> bytes" where
  "qoi_encode w h channels pxs =
     [0x71, 0x6F, 0x69, 0x66] @ be32_bytes w @ be32_bytes h @ [channels, 0] @
     enc_pixels (0, 0, 0, 255) (replicate 64 (0, 0, 0, 0)) pxs @ [0, 0, 0, 0, 0, 0, 0, 1]"

subsection \<open>Fields of a chunk byte\<close>

lemma and_mask_mod: "unat ((w :: u8) AND mask k) = unat w mod 2 ^ k"
  by (simp only: flip: take_bit_eq_mask) (simp only: unsigned_take_bit_eq, simp only: take_bit_eq_mod)

lemma and_low_bits:
  "unat ((w :: u8) AND 0x3f) = unat w mod 64"
  "unat (w AND 0x0f) = unat w mod 16"
  "unat (w AND 3) = unat w mod 4"
  using and_mask_mod [of w 6] and_mask_mod [of w 4] and_mask_mod [of w 2]
  by (simp_all add: mask_eq_exp_minus_1)

lemma unat_drop_bit_u8: "unat (drop_bit k (w :: u8)) = unat w div 2 ^ k"
  using unat_u8_lt [of w]
  by (simp only: unsigned_drop_bit_eq) (simp add: take_bit_nat_eq_self drop_bit_eq_div)

lemma and_tag: "(w :: u8) AND QOI_MASK_2 = push_bit 6 (drop_bit 6 w)"
proof (rule bit_word_eqI)
  fix n assume n: "n < LENGTH(8)"
  have "(0xC0 :: u8) = push_bit 6 (mask 2)" by (simp add: mask_eq_exp_minus_1 push_bit_eq_mult)
  then have "bit (0xC0 :: u8) n \<longleftrightarrow> bit (push_bit 6 (mask 2) :: u8) n" by (rule arg_cong)
  with n have "bit (0xC0 :: u8) n \<longleftrightarrow> 6 \<le> n" by (auto simp: bit_simps)
  with n show "bit (w AND QOI_MASK_2) n \<longleftrightarrow> bit (push_bit 6 (drop_bit 6 w)) n"
    by (auto simp: bit_simps QOI_MASK_2_def)
qed

lemma unat_tag: "unat (w AND QOI_MASK_2) = unat w div 64 * 64"
  unfolding and_tag
  using unat_u8_lt [of w] by (simp add: push_bit_eq_mult unat_word_ariths unat_drop_bit_u8)

lemma tag_eq: "w AND QOI_MASK_2 = t \<longleftrightarrow> unat w div 64 * 64 = unat t"
  by (simp add: word_unat_eq_iff unat_tag)

lemma unat_op: "n < 256 \<Longrightarrow> unat (of_nat n :: u8) = n"
  by (simp add: unat_of_nat_small)

lemma op_not_full:
  "n < 254 \<Longrightarrow> (of_nat n :: u8) \<noteq> QOI_OP_RGB" "n < 254 \<Longrightarrow> (of_nat n :: u8) \<noteq> QOI_OP_RGBA"
  by (simp_all add: word_unat_eq_iff unat_op qoi_tags del: unat_of_nat)

lemma op_tag:
  assumes "n < 256"
  shows "(of_nat n :: u8) AND QOI_MASK_2 = QOI_OP_INDEX \<longleftrightarrow> n div 64 = 0"
    "(of_nat n :: u8) AND QOI_MASK_2 = QOI_OP_DIFF \<longleftrightarrow> n div 64 = 1"
    "(of_nat n :: u8) AND QOI_MASK_2 = QOI_OP_LUMA \<longleftrightarrow> n div 64 = 2"
  by (simp_all only: tag_eq unat_op [OF assms] QOI_OP_INDEX_def QOI_OP_DIFF_def QOI_OP_LUMA_def) auto

lemma op_field:
  assumes "n < 256"
  shows "(of_nat n :: u8) AND 0x3f = of_nat (n mod 64)" "(of_nat n :: u8) AND 0x0f = of_nat (n mod 16)"
    "(of_nat n :: u8) AND 3 = of_nat (n mod 4)" "drop_bit k (of_nat n :: u8) = of_nat (n div 2 ^ k)"
proof -
  have d: "n div 2 ^ k < 256" using assms by (meson div_le_dividend le_less_trans)
  show "(of_nat n :: u8) AND 0x3f = of_nat (n mod 64)" "(of_nat n :: u8) AND 0x0f = of_nat (n mod 16)"
    "(of_nat n :: u8) AND 3 = of_nat (n mod 4)"
    using assms by (simp_all only: word_unat_eq_iff and_low_bits unat_op) (simp_all add: unat_op del: unat_of_nat)?
  show "drop_bit k (of_nat n :: u8) = of_nat (n div 2 ^ k)"
    using assms d by (simp only: word_unat_eq_iff unat_drop_bit_u8 unat_op)
qed

lemma low_digit: "a < b \<Longrightarrow> (a + k * b) div b = (k :: nat)" "a < b \<Longrightarrow> (a + k * b) mod b = (a :: nat)"
  by simp_all

lemma op_index:
  assumes "h < 64" "rd p (pos s) = Some (of_nat h)" "length (cache s) = 64"
  shows "qoi_op p s = Some (cache s ! h, 0, pos s + 1)"
  using assms(1,3) unfolding qoi_op_def assms(2)
  by (simp add: op_not_full op_tag op_field unat_op Let_def rd_def del: unat_of_nat split: prod.split)

lemma op_diff:
  assumes "x < 4" "y < 4" "z < 4" "rd p (pos s) = Some (of_nat (64 + (16 * x + (4 * y + z))))"
    and "cur s = (r, g, b, a)"
  shows "qoi_op p s = Some ((r + (of_nat x - 2), g + (of_nat y - 2), b + (of_nat z - 2), a), 0, pos s + 1)"
proof -
  define N where "N = 64 + (16 * x + (4 * y + z))"
  have "N = (4 * y + z) + (4 + x) * 16" "N = z + (y + (4 + x) * 4) * 4" by (simp_all add: N_def add.commute)
  then have "N div 16 = x + 1 * 4" "N div 4 = y + (4 + x) * 4" "N mod 4 = z"
    using low_digit [of "4 * y + z" 16 "4 + x"] low_digit [of z 4 "y + (4 + x) * 4"] assms(1-3) by simp_all
  moreover from this have "N div 16 mod 4 = x" "N div 4 mod 4 = y"
    using low_digit(2) [of x 4 1] low_digit(2) [of y 4 "4 + x"] assms(1-3) by simp_all
  moreover have "N < 128" "N div 64 = 1" using assms(1-3) by (simp_all add: N_def add.commute)
  ultimately have N: "N < 128" "N div 64 = 1" "N div 16 mod 4 = x" "N div 4 mod 4 = y" "N mod 4 = z"
      "N div 16 < 256" "N div 4 < 256"
    using assms(1-3) by simp_all
  show ?thesis
    using N unfolding qoi_op_def assms(4,5) N_def [symmetric]
    by (simp add: op_not_full op_tag op_field Let_def)
qed

lemma op_luma:
  assumes "x < 64" "y < 16" "z < 16" "rd p (pos s) = Some (of_nat (128 + x))"
    and "rd p (pos s + 1) = Some (of_nat (16 * y + z))" and "cur s = (r, g, b, a)"
  shows "qoi_op p s = Some ((r + ((of_nat x - 32) - 8 + of_nat y), g + (of_nat x - 32),
      b + ((of_nat x - 32) - 8 + of_nat z), a), 0, pos s + 2)"
proof -
  define N where "N = 128 + x"
  define M where "M = 16 * y + z"
  have N: "N < 192" "N div 64 = 2" "N mod 64 = x"
    using assms(1) low_digit [of x 64 2] by (simp_all add: N_def add.commute)
  have M: "M < 256" "M div 16 = y" "M mod 16 = z"
    using assms(2,3) low_digit [of z 16 y] by (simp_all add: M_def algebra_simps)
  show ?thesis
    using N M assms(2,5) unfolding qoi_op_def assms(4,6) N_def [symmetric] M_def [symmetric]
    by (simp add: op_not_full op_tag op_field Let_def del: rd_eq_Some)
qed

lemma op_run:
  assumes "n < 62" "rd p (pos s) = Some (of_nat (192 + n))"
  shows "qoi_op p s = Some (cur s, n, pos s + 1)"
proof -
  define N where "N = 192 + n"
  have N: "N < 254" "N div 64 = 3" "N mod 64 = n"
    using assms(1) low_digit [of n 64 3] by (simp_all add: N_def add.commute)
  show ?thesis
    using N unfolding qoi_op_def assms(2) N_def [symmetric]
    by (simp add: op_not_full op_tag op_field unat_op Let_def del: unat_of_nat split: prod.split)
qed

lemma op_rgb:
  assumes "rd p (pos s) = Some 0xfe" "rd p (pos s + 1) = Some r'" "rd p (pos s + 1 + 1) = Some g'"
    and "rd p (pos s + 1 + 2) = Some b'" and "cur s = (r, g, b, a)"
  shows "qoi_op p s = Some ((r', g', b', a), 0, pos s + 4)"
  using assms(2-4) unfolding qoi_op_def assms(1,5) by (simp add: qoi_tags Let_def del: rd_eq_Some)

lemma op_rgba:
  assumes "rd p (pos s) = Some 0xff" "rd p (pos s + 1) = Some r'" "rd p (pos s + 1 + 1) = Some g'"
    and "rd p (pos s + 1 + 2) = Some b'" and "rd p (pos s + 1 + 3) = Some a'"
  shows "qoi_op p s = Some ((r', g', b', a'), 0, pos s + 5)"
  using assms(2-5) unfolding qoi_op_def assms(1)
  by (simp add: qoi_tags Let_def del: rd_eq_Some split: prod.split)

subsection \<open>The decoder inverts the encoder\<close>

lemma enc_pixel_op:
  assumes p: "p = pre @ enc_pixel (cur s) (cache s) px @ rest" "pos s = length pre"
    and c: "length (cache s) = 64"
  shows "qoi_op p s = Some (px, 0, pos s + length (enc_pixel (cur s) (cache s) px))"
proof -
  obtain r g b a where cur: "cur s = (r, g, b, a)" by (cases "cur s")
  obtain r' g' b' a' where px: "px = (r', g', b', a')" by (cases px)
  define h where "h = QOI_HASH px mod 64"
  let ?dr = "r' - r" and ?dg = "g' - g" and ?db = "b' - b"
  consider "cache s ! h = px" | "cache s ! h \<noteq> px" "a' \<noteq> a"
    | "cache s ! h \<noteq> px" "a' = a" "unat (?dr + 2) < 4 \<and> unat (?dg + 2) < 4 \<and> unat (?db + 2) < 4"
    | "cache s ! h \<noteq> px" "a' = a" "\<not> (unat (?dr + 2) < 4 \<and> unat (?dg + 2) < 4 \<and> unat (?db + 2) < 4)"
      "unat (?dg + 32) < 64 \<and> unat (?dr - ?dg + 8) < 16 \<and> unat (?db - ?dg + 8) < 16"
    | "cache s ! h \<noteq> px" "a' = a" "\<not> (unat (?dr + 2) < 4 \<and> unat (?dg + 2) < 4 \<and> unat (?db + 2) < 4)"
      "\<not> (unat (?dg + 32) < 64 \<and> unat (?dr - ?dg + 8) < 16 \<and> unat (?db - ?dg + 8) < 16)"
    by blast
  then show ?thesis
  proof cases
    case 1
    then have "enc_pixel (cur s) (cache s) px = [of_nat h]" by (simp add: cur px h_def Let_def)
    with 1 show ?thesis using op_index [of h p s] by (simp add: p h_def c del: rd_eq_Some)
  next
    case 2
    then have "enc_pixel (cur s) (cache s) px = [0xff, r', g', b', a']" by (simp add: cur px h_def Let_def)
    then show ?thesis using op_rgba [of p s r' g' b' a'] by (simp add: p px numeral_eq_Suc del: rd_eq_Some)
  next
    case 3
    then have "enc_pixel (cur s) (cache s) px =
        [of_nat (64 + (16 * unat (?dr + 2) + (4 * unat (?dg + 2) + unat (?db + 2))))]"
      by (simp add: cur px h_def Let_def)
    with 3(2,3) show ?thesis
      using op_diff [of "unat (?dr + 2)" "unat (?dg + 2)" "unat (?db + 2)" p s r g b a]
      by (simp add: p cur px del: rd_eq_Some)
  next
    case 4
    then have "enc_pixel (cur s) (cache s) px =
        [of_nat (128 + unat (?dg + 32)), of_nat (16 * unat (?dr - ?dg + 8) + unat (?db - ?dg + 8))]"
      by (simp add: cur px h_def Let_def)
    with 4(2,4) show ?thesis
      using op_luma [of "unat (?dg + 32)" "unat (?dr - ?dg + 8)" "unat (?db - ?dg + 8)" p s r g b a]
      by (simp add: p cur px algebra_simps del: rd_eq_Some)
  next
    case 5
    then have "enc_pixel (cur s) (cache s) px = [0xfe, r', g', b']"
      unfolding cur px h_def by (simp only: enc_pixel.simps Let_def if_False simp_thms)
    moreover from this have "p = pre @ 0xfe # r' # g' # b' # rest" by (simp add: p)
    then have "qoi_op p s = Some ((r', g', b', a), 0, pos s + 4)"
      by (intro op_rgb) (simp_all add: p(2) cur del: rd_eq_Some)
    ultimately show ?thesis using 5(2) by (simp add: px)
  qed
qed

lemma enc_pixel_Cons: "enc_pixel q c px \<noteq> []"
  by (cases "(q, c, px)" rule: enc_pixel.cases) (simp add: Let_def)

lemma enc_pixels_Cons: "enc_pixels q c (px # pxs) \<noteq> []"
  by (simp add: Let_def enc_pixel_Cons)

lemma qoi_pixels_run:
  "run s = n \<Longrightarrow> qoi_pixels p ce (n + m) s =
     map_option ((@) (replicate n (argb (cur s)))) (qoi_pixels p ce m (s\<lparr>run := 0\<rparr>))"
proof (induction n arbitrary: s)
  case 0
  then have "s\<lparr>run := 0\<rparr> = s" by simp
  then show ?case by (simp add: option.map_id0 [unfolded id_def])
next
  case (Suc n)
  then show ?case
    using Suc.IH [of "s\<lparr>run := n\<rparr>"]
    by (cases "qoi_pixels p ce m (s\<lparr>run := 0\<rparr>)") (auto simp: qoi_step_def)
qed

lemma run_prefix:
  fixes pxs :: "'a list"
  assumes "n = length (takeWhile (\<lambda>q. q = x) (take k pxs))"
  shows "n \<le> k" "n \<le> length pxs" "pxs = replicate n x @ drop n pxs"
proof -
  show k: "n \<le> k" using length_takeWhile_le [of "\<lambda>q. q = x" "take k pxs"] assms by simp
  show l: "n \<le> length pxs" using length_takeWhile_le [of "\<lambda>q. q = x" "take k pxs"] assms by simp
  have "takeWhile (\<lambda>q. q = x) (take k pxs) = take n (take k pxs)" using assms by (metis takeWhile_eq_take)
  with k have t: "takeWhile (\<lambda>q. q = x) (take k pxs) = take n pxs" by (simp add: min_def)
  have "set (take n pxs) \<subseteq> {x}" using set_takeWhileD [of _ "\<lambda>q. q = x" "take k pxs"] by (auto simp: t)
  with l have "take n pxs = replicate n x" by (intro replicate_eqI) auto
  then show "pxs = replicate n x @ drop n pxs" by (metis append_take_drop_id)
qed

lemma enc_pixels_decode:
  "p = pre @ enc_pixels (cur s) (cache s) pxs @ marker \<Longrightarrow> length marker = 8 \<Longrightarrow>
   pos s = length pre \<Longrightarrow> run s = 0 \<Longrightarrow> length (cache s) = 64 \<Longrightarrow>
   qoi_pixels p (length p - 8) (length pxs) s = Some (map argb pxs)"
proof (induction "cur s" "cache s" pxs arbitrary: s pre rule: enc_pixels.induct)
  case (1 s pre)
  then show ?case by simp
next
  case (2 px pxs s pre)
  have lp: "length pre < length p - 8"
    using 2(3,4) enc_pixels_Cons [of "cur s" "cache s" px pxs] by (simp del: enc_pixels.simps)
  show ?case
  proof (cases "px = cur s")
    case True
    define n where "n = length (takeWhile (\<lambda>q. q = cur s) (take 61 pxs))"
    note n = run_prefix [OF n_def]
    let ?c = "(cache s)[QOI_HASH (cur s) mod 64 := cur s]"
    define s' where "s' = \<lparr>cur = cur s, cache = ?c, run = n, pos = pos s + 1\<rparr>"
    have e: "enc_pixels (cur s) (cache s) (px # pxs) = of_nat (192 + n) # enc_pixels (cur s) ?c (drop n pxs)"
      by (simp add: True n_def Let_def)
    have p: "p = pre @ of_nat (192 + n) # enc_pixels (cur s) ?c (drop n pxs) @ marker"
      using 2(3) by (simp only: e append_Cons)
    have "qoi_op p s = Some (cur s, n, pos s + 1)"
      using 2(5) n(1) by (intro op_run) (simp_all add: p del: rd_eq_Some)
    then have "qoi_step p (length p - 8) s = Some s'"
      using 2(5-7) lp by (simp add: qoi_step_def qoi_chunk_def wr_def s'_def)
    moreover have "qoi_pixels p (length p - 8) (length (drop n pxs)) (s'\<lparr>run := 0\<rparr>) = Some (map argb (drop n pxs))"
      by (rule 2(1) [where pre = "pre @ [of_nat (192 + n)]"])
        (use 2(4-7) True p in \<open>simp_all add: s'_def n_def\<close>)
    moreover have "qoi_pixels p (length p - 8) (length pxs) s' = map_option ((@) (replicate n (argb (cur s'))))
        (qoi_pixels p (length p - 8) (length (drop n pxs)) (s'\<lparr>run := 0\<rparr>))"
      using qoi_pixels_run [of s' n p "length p - 8" "length (drop n pxs)"] n(2) by (simp add: s'_def)
    ultimately have "qoi_pixels p (length p - 8) (length (px # pxs)) s =
        Some (argb (cur s) # replicate n (argb (cur s)) @ map argb (drop n pxs))"
      by (simp add: s'_def)
    moreover have "map argb pxs = replicate n (argb (cur s)) @ map argb (drop n pxs)"
      by (subst n(3)) simp
    ultimately show ?thesis using True by simp
  next
    case False
    let ?c = "(cache s)[QOI_HASH px mod 64 := px]" and ?e = "enc_pixel (cur s) (cache s) px"
    define s' where "s' = \<lparr>cur = px, cache = ?c, run = 0, pos = pos s + length ?e\<rparr>"
    have p: "p = pre @ ?e @ enc_pixels px ?c pxs @ marker" using 2(3) False by simp
    then have "qoi_op p s = Some (px, 0, pos s + length ?e)"
      using 2(5,7) by (rule enc_pixel_op)
    then have "qoi_step p (length p - 8) s = Some s'"
      using 2(5-7) lp by (simp add: qoi_step_def qoi_chunk_def wr_def s'_def)
    moreover have "qoi_pixels p (length p - 8) (length pxs) s' = Some (map argb pxs)"
      by (rule 2(2) [where pre = "pre @ ?e"])
        (use 2(4-7) False p in \<open>simp_all add: s'_def\<close>)
    ultimately show ?thesis by (simp add: s'_def)
  qed
qed

lemma read_header_encode:
  "read_header (qoi_encode w h ch pxs) = Some (Some \<lparr>hdr_width = w, hdr_height = h, hdr_channels = ch\<rparr>)"
  by (simp add: read_header_def qoi_encode_def qoi_be32_def be32_bytes_def del: rd_eq_Some)

lemma qoi_encode_pixels:
  "qoi_pixels (qoi_encode w h ch pxs) (length (qoi_encode w h ch pxs) - 8) (length pxs) qoi_start = Some (map argb pxs)"
proof (rule enc_pixels_decode)
  show "qoi_encode w h ch pxs = ([0x71, 0x6F, 0x69, 0x66] @ be32_bytes w @ be32_bytes h @ [ch, 0]) @
      enc_pixels (cur qoi_start) (cache qoi_start) pxs @ [0, 0, 0, 0, 0, 0, 0, 1]"
    by (simp add: qoi_encode_def qoi_start_def)
qed (simp_all add: qoi_start_def)

subsection \<open>Properties\<close>

text \<open>C17. On any input the decoder reads only bytes of its input. When it accepts the image, the pixel
  array has exactly the number of pixels of the header's dimensions, at least one and at most
  \<open>2\<^sup>24\<close>, and fills the block requested from the allocator.\<close>

theorem qoi_decode_safe:
  "\<exists>res. qoi_decode alc p = Some res \<and>
     (\<forall>out img px. res = Qoi_image out img px \<longrightarrow>
        length px = unat (width img) * unat (height img) \<and> 0 < length px \<and> length px \<le> 2 ^ 24 \<and>
        alc 4 4 (length px) = Inr out)"
proof -
  obtain h where h: "read_header p = Some h" using read_header_reads by blast
  show ?thesis
  proof (cases h)
    case None
    with h show ?thesis by (simp add: qoi_decode_def)
  next
    case (Some hdr)
    then have "14 + 8 \<le> length p" using h by (auto simp: read_header_def split: if_splits)
    then obtain px where px: "qoi_pixels p (length p - 8) (unat (hdr_width hdr) * unat (hdr_height hdr)) qoi_start = Some px"
        "length px = unat (hdr_width hdr) * unat (hdr_height hdr)"
      using qoi_pixels_reads [of qoi_start "length p - 8" p] by (auto simp: qoi_start_def)
    then show ?thesis
      using h Some
      by (auto simp: qoi_decode_def Let_def npixels_bound word_less_nat_alt unat_eq_zero split: sum.split)
  qed
qed

theorem qoi_decode_safe_witness:
  "qoi_decode (\<lambda>a s n. Inr n) (qoi_encode 2 1 4 [(1, 2, 3, 255), (1, 2, 3, 255)]) =
     Some (Qoi_image 2 \<lparr>width = 2, height = 1\<rparr> (map argb [(1, 2, 3, 255), (1, 2, 3, 255)])) \<and>
   (\<exists>res. qoi_decode (\<lambda>a s n. Inr n) (qoi_encode 2 1 4 [(1, 2, 3, 255), (1, 2, 3, 255)]) = Some res \<and>
     (\<forall>out img px. res = Qoi_image out img px \<longrightarrow>
        length px = unat (width img) * unat (height img) \<and> 0 < length px \<and> length px \<le> 2 ^ 24 \<and>
        (Inr (length px) :: nat outcome) = Inr out))"
proof (rule conjI)
  show "qoi_decode (\<lambda>a s n. Inr n) (qoi_encode 2 1 4 [(1, 2, 3, 255), (1, 2, 3, 255)]) =
     Some (Qoi_image 2 \<lparr>width = 2, height = 1\<rparr> (map argb [(1, 2, 3, 255), (1, 2, 3, 255)]))"
    using qoi_encode_pixels [of 2 1 4 "[(1, 2, 3, 255), (1, 2, 3, 255)]"]
    by (simp add: qoi_decode_def read_header_encode Let_def del: argb.simps flip: numeral_2_eq_2)
qed (rule qoi_decode_safe)

text \<open>C15. The decoder inverts the QOI encoding: an image encoded with run, cache-index, difference,
  luma and full-colour chunks decodes to its own pixels and dimensions.\<close>

theorem qoi_roundtrip:
  assumes "length pxs = unat w * unat h" "0 < length pxs" "length pxs \<le> 2 ^ 24"
    and "channels = 3 \<or> channels = 4" and "alc 4 4 (length pxs) = Inr out"
  shows "qoi_decode alc (qoi_encode w h channels pxs) =
    Some (Qoi_image out \<lparr>width = w, height = h\<rparr> (map argb pxs))"
proof -
  have "unat (ucast w * ucast h :: u64) = length pxs" using assms(1) npixels_bound by simp
  moreover have "w \<noteq> 0" "h \<noteq> 0" using assms(1,2) by auto
  ultimately show ?thesis
    using assms qoi_encode_pixels [of w h channels pxs]
    by (auto simp: qoi_decode_def read_header_encode Let_def word_less_nat_alt)
qed

theorem qoi_roundtrip_witness:
  "qoi_decode (\<lambda>a s n. Inr n) (qoi_encode 2 3 4
      [(0, 0, 0, 255), (1, 255, 0, 255), (20, 30, 40, 255), (22, 31, 39, 255), (1, 2, 3, 4), (0, 0, 0, 255)]) =
    Some (Qoi_image 6 \<lparr>width = 2, height = 3\<rparr> (map argb
      [(0, 0, 0, 255), (1, 255, 0, 255), (20, 30, 40, 255), (22, 31, 39, 255), (1, 2, 3, 4), (0, 0, 0, 255)]))"
  by (rule qoi_roundtrip) simp_all

end
