(* ===== verification/Qoa.thy ===== *)
theory Qoa
  imports Frames "HOL-Library.Monad_Syntax"
begin

text \<open>
  The QOA audio decoder (\<^verbatim>\<open>src/src/qoa.c\<close>). The input is a byte list and the output the list of
  \<^verbatim>\<open>int16_t\<close> samples of the zeroed block the allocator parameter returns; a load or store outside
  either is \<^const>\<open>None\<close>. The predictor's \<^verbatim>\<open>int\<close> and \<^verbatim>\<open>long\<close> arithmetic is on \<^typ>\<open>int\<close>, with the
  conversion of the prediction to \<^verbatim>\<open>int\<close> written out; the lemmas bound the values, so no operation
  overflows its C type. They also show that decoding ends without an access outside either array.
\<close>

subsection \<open>Definitions\<close>

type_synonym s16 = "16 word"

definition QOA_SLICE_LEN :: nat where "QOA_SLICE_LEN = 20"
definition QOA_FRAME_LEN :: nat where "QOA_FRAME_LEN = 5120"
definition QOA_LMS_LEN :: nat where "QOA_LMS_LEN = 4"
definition QOA_MAX_CHANNELS :: nat where "QOA_MAX_CHANNELS = 8"

definition qoa_dequant_tab :: "int list list" where
  "qoa_dequant_tab = [
     [1, -1, 3, -3, 5, -5, 7, -7],
     [5, -5, 18, -18, 32, -32, 49, -49],
     [16, -16, 53, -53, 95, -95, 147, -147],
     [34, -34, 113, -113, 203, -203, 315, -315],
     [63, -63, 210, -210, 378, -378, 588, -588],
     [104, -104, 345, -345, 621, -621, 966, -966],
     [158, -158, 528, -528, 950, -950, 1477, -1477],
     [228, -228, 760, -760, 1368, -1368, 2128, -2128],
     [316, -316, 1053, -1053, 1895, -1895, 2947, -2947],
     [422, -422, 1405, -1405, 2529, -2529, 3934, -3934],
     [548, -548, 1828, -1828, 3290, -3290, 5117, -5117],
     [696, -696, 2320, -2320, 4176, -4176, 6496, -6496],
     [868, -868, 2893, -2893, 5207, -5207, 8099, -8099],
     [1064, -1064, 3548, -3548, 6386, -6386, 9933, -9933],
     [1286, -1286, 4288, -4288, 7718, -7718, 12005, -12005],
     [1536, -1536, 5120, -5120, 9216, -9216, 14336, -14336]]"

record qoa_lms =
  history :: "int list"
  weights :: "int list"

record qoa_desc =
  channels :: u32
  samplerate :: u32
  samples :: u32

datatype 'p qoa_result = Qoa_null | Qoa_panic string | Qoa_audio 'p qoa_desc "s16 list"

text \<open>\<^verbatim>\<open>p >> 13\<close> is arithmetic on \<^verbatim>\<open>long\<close>, then converted to \<^verbatim>\<open>int\<close>.\<close>

definition lms_sum :: "qoa_lms \<Rightarrow> int" where
  "lms_sum l = sum_list (map2 (*) (weights l) (history l))"

definition lms_predict :: "qoa_lms \<Rightarrow> int" where
  "lms_predict l = signed_take_bit 31 (drop_bit 13 (lms_sum l))"

definition lms_update :: "qoa_lms \<Rightarrow> int \<Rightarrow> int \<Rightarrow> qoa_lms" where
  "lms_update l sample residual =
     (let delta = drop_bit 4 residual in
      \<lparr>history = tl (history l) @ [sample],
       weights = map2 (\<lambda>w h. w + (if h < 0 then - delta else delta)) (weights l) (history l)\<rparr>)"

definition clamp16 :: "int \<Rightarrow> int" where
  "clamp16 v = (if v < -32768 then -32768 else if v > 32767 then 32767 else v)"

fun be64_loop :: "bytes \<Rightarrow> nat \<Rightarrow> nat \<Rightarrow> u64 \<Rightarrow> u64 option" where
  "be64_loop p i 0 v = Some v"
| "be64_loop p i (Suc n) v = do { b \<leftarrow> rd p i; be64_loop p (i + 1) n (push_bit 8 v OR ucast b) }"

definition be64 :: "bytes \<Rightarrow> nat \<Rightarrow> u64 option" where
  "be64 p i = be64_loop p i 8 0"

definition qoa_be16 :: "bytes \<Rightarrow> nat \<Rightarrow> int option" where
  "qoa_be16 p i = do { a \<leftarrow> rd p i; b \<leftarrow> rd p (i + 1); Some (sint (be16 a b)) }"

text \<open>Four big-endian values, then the state of one channel, then of every channel.\<close>

fun read_values :: "bytes \<Rightarrow> nat \<Rightarrow> nat \<Rightarrow> int list option" where
  "read_values p pos 0 = Some []"
| "read_values p pos (Suc n) = do {
     v \<leftarrow> qoa_be16 p pos; vs \<leftarrow> read_values p (pos + 2) n; Some (v # vs) }"

fun read_lms :: "bytes \<Rightarrow> nat \<Rightarrow> nat \<Rightarrow> qoa_lms list option" where
  "read_lms p pos 0 = Some []"
| "read_lms p pos (Suc n) = do {
     h \<leftarrow> read_values p pos QOA_LMS_LEN;
     w \<leftarrow> read_values p (pos + 2 * QOA_LMS_LEN) QOA_LMS_LEN;
     ls \<leftarrow> read_lms p (pos + 4 * QOA_LMS_LEN) n;
     Some (\<lparr>history = h, weights = w\<rparr> # ls) }"

text \<open>The samples of one slice of channel \<open>c\<close>: \<open>i\<close> runs up to \<open>end\<close>.\<close>

fun qoa_samples :: "nat \<Rightarrow> nat \<Rightarrow> nat \<Rightarrow> nat \<Rightarrow> nat \<Rightarrow> u64 \<Rightarrow> qoa_lms \<Rightarrow> s16 list \<Rightarrow> (qoa_lms \<times> s16 list) option" where
  "qoa_samples chans c sf i 0 sl l out = Some (l, out)"
| "qoa_samples chans c sf i (Suc n) sl l out = do {
     let predicted = lms_predict l;
     row \<leftarrow> rd qoa_dequant_tab sf;
     deq \<leftarrow> rd row (unat (drop_bit 57 sl AND 7));
     let rec = clamp16 (predicted + deq);
     out \<leftarrow> wr out (i * chans + c) (word_of_int rec);
     qoa_samples chans c sf (i + 1) n (push_bit 3 sl) (lms_update l rec deq) out }"

text \<open>One slice per channel; \<^const>\<open>True\<close> in the result is the jump to \<^verbatim>\<open>out_of_data\<close>.\<close>

function qoa_channels :: "bytes \<Rightarrow> nat \<Rightarrow> nat \<Rightarrow> nat \<Rightarrow> nat \<Rightarrow> nat \<Rightarrow> nat \<Rightarrow> qoa_lms list \<Rightarrow> s16 list \<Rightarrow>
    (bool \<times> nat \<times> qoa_lms list \<times> s16 list) option" where
  "qoa_channels p chans done fsamples off c pos lms out =
     (if chans \<le> c then Some (False, pos, lms, out)
      else if pos + 8 > length p then Some (True, pos, lms, out)
      else do {
        sl \<leftarrow> be64 p pos;
        l \<leftarrow> rd lms c;
        (l, out) \<leftarrow> qoa_samples chans c (unat (drop_bit 60 sl AND 0xF)) (done + off)
          (min (off + QOA_SLICE_LEN) fsamples - off) sl l out;
        lms \<leftarrow> wr lms c l;
        qoa_channels p chans done fsamples off (c + 1) (pos + 8) lms out })"
  by pat_completeness auto
termination by (relation "measure (\<lambda>(p, chans, done, fsamples, off, c, pos, lms, out). chans - c)") auto

function qoa_slices :: "bytes \<Rightarrow> nat \<Rightarrow> nat \<Rightarrow> nat \<Rightarrow> nat \<Rightarrow> nat \<Rightarrow> qoa_lms list \<Rightarrow> s16 list \<Rightarrow>
    (bool \<times> nat \<times> s16 list) option" where
  "qoa_slices p chans done fsamples off pos lms out =
     (if fsamples \<le> off then Some (False, pos, out)
      else do {
        (stop, pos, lms, out) \<leftarrow> qoa_channels p chans done fsamples off 0 pos lms out;
        if stop then Some (True, pos, out)
        else qoa_slices p chans done fsamples (off + QOA_SLICE_LEN) pos lms out })"
  by pat_completeness auto
termination
  by (relation "measure (\<lambda>(p, chans, done, fsamples, off, pos, lms, out). fsamples - off)")
    (auto simp: QOA_SLICE_LEN_def)

declare qoa_channels.simps [simp del] qoa_slices.simps [simp del]

text \<open>The samples of a frame that still belong to the announced total.\<close>

definition frame_samples :: "nat \<Rightarrow> nat \<Rightarrow> nat \<Rightarrow> nat" where
  "frame_samples tot done fsamples = (if done + fsamples > tot then tot - done else fsamples)"

text \<open>The frame loop; \<open>done\<close> and the sample counts stay below the \<open>2\<^sup>27\<close> bound on the total, so
  they are natural numbers. The result is the final \<open>done\<close> and the samples.\<close>

function qoa_frames :: "bytes \<Rightarrow> nat \<Rightarrow> nat \<Rightarrow> nat \<Rightarrow> nat \<Rightarrow> s16 list \<Rightarrow> (nat \<times> s16 list) option" where
  "qoa_frames p tot chans done pos out =
     (if \<not> (done < tot \<and> pos + 8 \<le> length p) then Some (done, out)
      else do {
        fh \<leftarrow> be64 p pos;
        let fchan = unat (drop_bit 56 fh AND 0xFF);
        let fsamples = unat (drop_bit 16 fh AND 0xFFFF);
        if fchan \<noteq> chans \<or> fsamples = 0 \<or> fsamples > QOA_FRAME_LEN then Some (done, out)
        else if pos + 8 + chans * 16 > length p then Some (done, out)
        else do {
          lms \<leftarrow> read_lms p (pos + 8) chans;
          let fs = frame_samples tot done fsamples;
          (stop, pos, out) \<leftarrow> qoa_slices p chans done fs 0 (pos + 8 + chans * 16) lms out;
          if stop then Some (done, out)
          else qoa_frames p tot chans (done + fs) pos out } })"
  by pat_completeness auto
termination by (relation "measure (\<lambda>(p, tot, chans, done, pos, out). tot - done)") (auto simp: frame_samples_def)

declare qoa_frames.simps [simp del]

definition qoa_decode :: "(nat \<Rightarrow> nat \<Rightarrow> nat \<Rightarrow> 'p outcome) \<Rightarrow> bytes \<Rightarrow> 'p qoa_result option" where
  "qoa_decode alc p = (if length p < 16 then Some Qoa_null else do {
     m0 \<leftarrow> rd p 0; m1 \<leftarrow> rd p 1; m2 \<leftarrow> rd p 2; m3 \<leftarrow> rd p 3;
     if m0 \<noteq> 0x71 \<or> m1 \<noteq> 0x6F \<or> m2 \<noteq> 0x61 \<or> m3 \<noteq> 0x66 then Some Qoa_null else do {
       t0 \<leftarrow> rd p 4; t1 \<leftarrow> rd p 5; t2 \<leftarrow> rd p 6; t3 \<leftarrow> rd p 7;
       let tot = be32 t0 t1 t2 t3;
       if 8 + 8 > length p then Some Qoa_null else do {
         fh \<leftarrow> be64 p 8;
         let chans = (ucast (drop_bit 56 fh AND 0xFF) :: u32);
         let rate = (ucast (drop_bit 32 fh AND 0xFFFFFF) :: u32);
         if tot = 0 \<or> chans = 0 \<or> unat chans > QOA_MAX_CHANNELS \<or> rate = 0 then Some Qoa_null
         else let nsamp = (ucast tot * ucast chans :: u64) in
         if nsamp > 134217728 then Some Qoa_null
         else case alc 2 2 (unat nsamp) of
           Inl msg \<Rightarrow> Some (Qoa_panic msg)
         | Inr block \<Rightarrow> do {
             (done, out) \<leftarrow> qoa_frames p (unat tot) (unat chans) 0 8 (replicate (unat nsamp) 0);
             Some (Qoa_audio block \<lparr>channels = chans, samplerate = rate, samples = of_nat done\<rparr> out) } } } })"

subsection \<open>Every access is inside its array\<close>

lemma be64_loop_reads: "i + n \<le> length p \<Longrightarrow> \<exists>v'. be64_loop p i n v = Some v'"
  by (induction n arbitrary: i v) (auto simp: rd_def)

lemma be64_reads: "i + 8 \<le> length p \<Longrightarrow> \<exists>v. be64 p i = Some v"
  by (simp add: be64_def be64_loop_reads)

lemma read_values_reads: "pos + 2 * n \<le> length p \<Longrightarrow> \<exists>vs. read_values p pos n = Some vs \<and> length vs = n"
proof (induction n arbitrary: pos)
  case (Suc n)
  then obtain vs where "read_values p (pos + 2) n = Some vs" "length vs = n" by force
  with Suc.prems show ?case by (auto simp: qoa_be16_def rd_def)
qed simp

lemma read_lms_reads: "pos + 16 * n \<le> length p \<Longrightarrow> \<exists>ls. read_lms p pos n = Some ls \<and> length ls = n"
proof (induction n arbitrary: pos)
  case (Suc n)
  then obtain ls where "read_lms p (pos + 16) n = Some ls" "length ls = n" by force
  moreover obtain h w where "read_values p pos 4 = Some h" "read_values p (pos + 8) 4 = Some w"
    using read_values_reads [of pos 4 p] read_values_reads [of "pos + 8" 4 p] Suc.prems by auto
  ultimately show ?case by (simp add: QOA_LMS_LEN_def)
qed simp

lemma dequant_shape: "length qoa_dequant_tab = 16" "row \<in> set qoa_dequant_tab \<Longrightarrow> length row = 8"
  by (auto simp: qoa_dequant_tab_def)

lemma residual_index: "unat (drop_bit 57 (sl :: u64) AND 7) < 8" "unat (drop_bit 60 sl AND 0xF) < 16"
proof -
  have "drop_bit 57 sl AND 7 \<le> 7" "drop_bit 60 sl AND 0xF \<le> 0xF" by (rule word_and_le1)+
  then show "unat (drop_bit 57 (sl :: u64) AND 7) < 8" "unat (drop_bit 60 sl AND 0xF) < 16"
    by (simp_all add: word_le_nat_alt)
qed

lemma sample_index: "c < chans \<Longrightarrow> i < m \<Longrightarrow> m * chans \<le> n \<Longrightarrow> i * chans + c < (n :: nat)"
proof -
  assume "c < chans" "i < m" "m * chans \<le> n"
  then have "i * chans + c < Suc i * chans" "Suc i * chans \<le> m * chans" by (simp_all only: mult_le_mono1 Suc_leI) simp
  with \<open>m * chans \<le> n\<close> show ?thesis by linarith
qed

lemma qoa_samples_writes:
  "sf < 16 \<Longrightarrow> c < chans \<Longrightarrow> (i + n) * chans \<le> length out \<Longrightarrow>
   \<exists>l' out'. qoa_samples chans c sf i n sl l out = Some (l', out') \<and> length out' = length out"
proof (induction n arbitrary: i sl l out)
  case (Suc n)
  have "i * chans + c < length out" using Suc.prems by (intro sample_index [of c chans i "i + Suc n"]) auto
  moreover have "sf < length qoa_dequant_tab" "length (qoa_dequant_tab ! sf) = 8"
    using Suc.prems(1) dequant_shape by auto
  moreover define deq where "deq = qoa_dequant_tab ! sf ! unat (drop_bit 57 sl AND 7)"
  moreover define v where "v = clamp16 (lms_predict l + deq)"
  ultimately show ?case
    using Suc.prems residual_index(1) [of sl]
      Suc.IH [of "i + 1" "out[i * chans + c := word_of_int v]" "push_bit 3 sl" "lms_update l v deq"]
    by (simp add: rd_def wr_def Let_def)
qed simp

lemma qoa_channels_writes:
  "length lms = chans \<Longrightarrow> (done + fsamples) * chans \<le> length out \<Longrightarrow> off < fsamples \<Longrightarrow>
   \<exists>stop pos' lms' out'. qoa_channels p chans done fsamples off c pos lms out = Some (stop, pos', lms', out')
     \<and> length lms' = chans \<and> length out' = length out"
proof (induction p chans "done" fsamples off c pos lms out rule: qoa_channels.induct)
  case (1 p chans "done" fsamples off c pos lms out)
  show ?case
  proof (cases "chans \<le> c \<or> pos + 8 > length p")
    case True
    with 1(2-4) show ?thesis by (subst qoa_channels.simps) auto
  next
    case False
    then have c: "\<not> chans \<le> c" "\<not> pos + 8 > length p" by auto
    then obtain sl where sl: "be64 p pos = Some sl" using be64_reads by force
    let ?n = "min (off + QOA_SLICE_LEN) fsamples - off"
    have "(done + off + ?n) * chans \<le> (done + fsamples) * chans" using 1(4) by (intro mult_le_mono1) auto
    with 1(3) have "(done + off + ?n) * chans \<le> length out" by linarith
    then obtain l' out' where s: "qoa_samples chans c (unat (drop_bit 60 sl AND 0xF)) (done + off) ?n sl (lms ! c) out = Some (l', out')"
        "length out' = length out"
      using qoa_samples_writes [OF residual_index(2), of c chans] c by (metis not_le)
    have l: "rd lms c = Some (lms ! c)" "wr lms c l' = Some (lms[c := l'])" using c 1(2) by (simp_all add: rd_def wr_def)
    show ?thesis
      using 1(1) [OF c sl l(1) s(1) refl l(2)] c sl l s 1(2-4)
      by (subst qoa_channels.simps) (simp del: rd_eq_Some wr_eq_Some)
  qed
qed

lemma qoa_slices_writes:
  "length lms = chans \<Longrightarrow> (done + fsamples) * chans \<le> length out \<Longrightarrow>
   \<exists>stop pos' out'. qoa_slices p chans done fsamples off pos lms out = Some (stop, pos', out')
     \<and> length out' = length out"
proof (induction p chans "done" fsamples off pos lms out rule: qoa_slices.induct)
  case (1 p chans "done" fsamples off pos lms out)
  show ?case
  proof (cases "fsamples \<le> off")
    case True
    then show ?thesis by (subst qoa_slices.simps) auto
  next
    case False
    with qoa_channels_writes [OF 1(2,3)] obtain stop pos' lms' out' where
      c: "qoa_channels p chans done fsamples off 0 pos lms out = Some (stop, pos', lms', out')"
        "length lms' = chans" "length out' = length out"
      by (metis not_le)
    show ?thesis
    proof (cases stop)
      case True
      with c \<open>\<not> fsamples \<le> off\<close> show ?thesis by (subst qoa_slices.simps) auto
    next
      case goon: False
      show ?thesis
        using 1(1) [OF False c(1) refl refl refl goon] c goon False 1(3) by (subst qoa_slices.simps) simp
    qed
  qed
qed

lemma qoa_frames_writes:
  "tot * chans \<le> length out \<Longrightarrow> done \<le> tot \<Longrightarrow>
   \<exists>d out'. qoa_frames p tot chans done pos out = Some (d, out') \<and> length out' = length out \<and> d \<le> tot"
proof (induction p tot chans "done" pos out rule: qoa_frames.induct)
  case (1 p tot chans "done" pos out)
  show ?case
  proof (cases "done < tot \<and> pos + 8 \<le> length p")
    case False
    with 1(3) show ?thesis by (subst qoa_frames.simps) auto
  next
    case True
    then obtain fh where fh: "be64 p pos = Some fh" using be64_reads by blast
    define fsamples where "fsamples = unat (drop_bit 16 fh AND 0xFFFF)"
    define fs where "fs = frame_samples tot done fsamples"
    define bad where "bad \<longleftrightarrow> unat (drop_bit 56 fh AND 0xFF) \<noteq> chans \<or> fsamples = 0 \<or> fsamples > QOA_FRAME_LEN"
    define short where "short \<longleftrightarrow> pos + 8 + chans * 16 > length p"
    show ?thesis
    proof (cases "bad \<or> short")
      case stop: True
      with True fh 1(3) show ?thesis
        by (subst qoa_frames.simps) (auto simp: Let_def bad_def short_def fsamples_def)
    next
      case goon: False
      then obtain lms where lms: "read_lms p (pos + 8) chans = Some lms" "length lms = chans"
        using read_lms_reads [of "pos + 8" chans p] by (auto simp: short_def)
      have d: "done + fs \<le> tot" using True by (auto simp: fs_def frame_samples_def)
      then have "(done + fs) * chans \<le> tot * chans" by (rule mult_le_mono1)
      with 1(2) have "(done + fs) * chans \<le> length out" by linarith
      then obtain stop pos' out' where
        s: "qoa_slices p chans done fs 0 (pos + 8 + chans * 16) lms out = Some (stop, pos', out')"
          "length out' = length out"
        using qoa_slices_writes [OF lms(2)] by blast
      have body: "qoa_frames p tot chans done pos out =
          (if stop then Some (done, out') else qoa_frames p tot chans (done + fs) pos' out')"
        using True fh goon lms(1) s(1)
        by (subst qoa_frames.simps) (simp add: Let_def bad_def short_def flip: fsamples_def fs_def)
      show ?thesis
      proof (cases stop)
        case True
        with body s(2) 1(3) show ?thesis by simp
      next
        case run: False
        have "\<exists>da out'a. qoa_frames p tot chans (done + fs) pos' out' = Some (da, out'a) \<and>
            length out'a = length out' \<and> da \<le> tot"
          by (rule 1(1) [OF _ fh refl refl _ _ lms(1) refl s(1) [unfolded fs_def fsamples_def], folded fsamples_def, folded fs_def])
            (use True goon run s(2) d 1(2) in \<open>auto simp: bad_def short_def fsamples_def\<close>)
        with body run s(2) show ?thesis by simp
      qed
    qed
  qed
qed

subsection \<open>The predictor does not overflow\<close>

definition lms_ok :: "int \<Rightarrow> qoa_lms \<Rightarrow> bool" where
  "lms_ok B l \<longleftrightarrow> length (history l) = QOA_LMS_LEN \<and> length (weights l) = QOA_LMS_LEN \<and>
     (\<forall>h\<in>set (history l). \<bar>h\<bar> \<le> 32768) \<and> (\<forall>w\<in>set (weights l). \<bar>w\<bar> \<le> B)"

lemma clamp16_range: "\<bar>clamp16 v\<bar> \<le> 32768"
  by (auto simp: clamp16_def)

lemma qoa_be16_range: "qoa_be16 p i = Some v \<Longrightarrow> \<bar>v\<bar> \<le> 32768"
proof -
  assume "qoa_be16 p i = Some v"
  then obtain w :: u16 where "v = sint w" by (auto simp: qoa_be16_def bind_eq_Some_conv)
  then show "\<bar>v\<bar> \<le> 32768" using sint_ge [of w] sint_lt [of w] by simp
qed

lemma read_values_range: "read_values p pos n = Some vs \<Longrightarrow> length vs = n \<and> (\<forall>v\<in>set vs. \<bar>v\<bar> \<le> 32768)"
  by (induction n arbitrary: pos vs) (auto simp: bind_eq_Some_conv dest: qoa_be16_range)

lemma read_lms_ok: "read_lms p pos n = Some ls \<Longrightarrow> \<forall>l\<in>set ls. lms_ok 32768 l"
  by (induction n arbitrary: pos ls)
    (auto simp: bind_eq_Some_conv lms_ok_def dest!: read_values_range)

lemma dequant_range:
  assumes "row \<in> set qoa_dequant_tab" "deq \<in> set row"
  shows "\<bar>deq\<bar> \<le> 14336"
proof -
  have "\<forall>row\<in>set qoa_dequant_tab. \<forall>d\<in>set row. \<bar>d\<bar> \<le> 14336" by (simp add: qoa_dequant_tab_def)
  with assms show ?thesis by blast
qed

lemma lms_update_ok:
  assumes "lms_ok B l" "\<bar>sample\<bar> \<le> 32768" "\<bar>residual\<bar> \<le> 14336"
  shows "lms_ok (B + 896) (lms_update l sample residual)"
proof -
  have d: "\<bar>drop_bit 4 residual\<bar> \<le> 896"
    using assms(3) by (simp add: drop_bit_eq_div)
  have "\<bar>w + (if h < 0 then - drop_bit 4 residual else drop_bit 4 residual)\<bar> \<le> B + 896"
    if "(w, h) \<in> set (zip (weights l) (history l))" for w h
    using set_zip_leftD [OF that] assms(1) d by (auto simp: lms_ok_def)
  moreover have "length (history l) = 4" "length (weights l) = 4" using assms(1) by (simp_all add: lms_ok_def QOA_LMS_LEN_def)
  moreover have "\<forall>h\<in>set (tl (history l)). \<bar>h\<bar> \<le> 32768"
    using assms(1) by (cases "history l") (auto simp: lms_ok_def)
  ultimately show ?thesis
    using assms(2) by (auto simp: lms_ok_def lms_update_def Let_def QOA_LMS_LEN_def)
qed

lemma lms_sum_bound:
  assumes "lms_ok B l" "0 \<le> B"
  shows "\<bar>lms_sum l\<bar> \<le> 131072 * B"
proof -
  have prod: "\<bar>w * h\<bar> \<le> B * 32768" if "\<bar>w\<bar> \<le> B" "\<bar>h\<bar> \<le> 32768" for w h :: int
    using that by (simp add: abs_mult mult_mono)
  have "length (history l) = Suc (Suc (Suc (Suc 0)))" "length (weights l) = Suc (Suc (Suc (Suc 0)))"
    using assms(1) by (simp_all add: lms_ok_def QOA_LMS_LEN_def)
  then obtain h0 h1 h2 h3 w0 w1 w2 w3 where l: "history l = [h0, h1, h2, h3]" "weights l = [w0, w1, w2, w3]"
    by (auto simp: length_Suc_conv)
  have "\<bar>w0 * h0\<bar> \<le> B * 32768" "\<bar>w1 * h1\<bar> \<le> B * 32768" "\<bar>w2 * h2\<bar> \<le> B * 32768" "\<bar>w3 * h3\<bar> \<le> B * 32768"
    by (intro prod; use assms(1) in \<open>simp add: lms_ok_def l\<close>)+
  moreover have "lms_sum l = w0 * h0 + (w1 * h1 + (w2 * h2 + w3 * h3))" by (simp add: lms_sum_def l)
  ultimately show ?thesis by linarith
qed

lemma lms_predict_exact:
  assumes "lms_ok B l" "0 \<le> B" "B \<le> 4620288"
  shows "lms_predict l = lms_sum l div 8192" "\<bar>lms_sum l\<bar> < 2 ^ 40" "\<bar>lms_predict l\<bar> < 2 ^ 30"
proof -
  have s: "\<bar>lms_sum l\<bar> \<le> 131072 * 4620288" using lms_sum_bound [OF assms(1,2)] assms(3) by linarith
  then show "\<bar>lms_sum l\<bar> < 2 ^ 40" by simp
  have d: "\<bar>lms_sum l div 8192\<bar> \<le> 73924608" using s by linarith
  then have "signed_take_bit 31 (lms_sum l div 8192) = lms_sum l div 8192"
    by (intro signed_take_bit_int_eq_self) auto
  then show e: "lms_predict l = lms_sum l div 8192" by (simp add: lms_predict_def drop_bit_eq_div)
  show "\<bar>lms_predict l\<bar> < 2 ^ 30" using d by (simp add: e)
qed

text \<open>The state of one channel after the samples with the given residuals.\<close>

definition lms_run :: "qoa_lms \<Rightarrow> int list \<Rightarrow> qoa_lms" where
  "lms_run l rs = fold (\<lambda>deq l. lms_update l (clamp16 (lms_predict l + deq)) deq) rs l"

lemma lms_run_ok:
  "lms_ok B l \<Longrightarrow> \<forall>r\<in>set rs. \<bar>r\<bar> \<le> 14336 \<Longrightarrow> lms_ok (B + 896 * int (length rs)) (lms_run l rs)"
proof (induction rs arbitrary: B l)
  case (Cons r rs)
  then have "lms_ok (B + 896) (lms_update l (clamp16 (lms_predict l + r)) r)"
    by (intro lms_update_ok clamp16_range) auto
  with Cons.IH [of "B + 896"] Cons.prems show ?case by (simp add: lms_run_def algebra_simps)
qed (simp add: lms_run_def)

lemma qoa_samples_run:
  "qoa_samples chans c sf i n sl l out = Some (l', out') \<Longrightarrow>
   \<exists>rs. length rs = n \<and> (\<forall>r\<in>set rs. \<exists>row\<in>set qoa_dequant_tab. r \<in> set row) \<and> l' = lms_run l rs"
proof (induction n arbitrary: i sl l out)
  case 0
  then show ?case by (simp add: lms_run_def)
next
  case (Suc n)
  from Suc.prems obtain row deq out2 where r: "rd qoa_dequant_tab sf = Some row"
      "rd row (unat (drop_bit 57 sl AND 7)) = Some deq"
      "qoa_samples chans c sf (i + 1) n (push_bit 3 sl) (lms_update l (clamp16 (lms_predict l + deq)) deq) out2 = Some (l', out')"
    by (auto simp: bind_eq_Some_conv Let_def)
  from Suc.IH [OF r(3)] obtain rs where
    rs: "length rs = n" "\<forall>r\<in>set rs. \<exists>row\<in>set qoa_dequant_tab. r \<in> set row"
      "l' = lms_run (lms_update l (clamp16 (lms_predict l + deq)) deq) rs" by blast
  have "row \<in> set qoa_dequant_tab" "deq \<in> set row" using r(1,2) by auto
  with rs show ?case by (intro exI [of _ "deq # rs"]) (auto simp: lms_run_def)
qed

subsection \<open>Properties\<close>

lemma qoa_total:
  assumes "unat (tot :: u32) \<noteq> 0" "unat (chans :: u32) \<le> 8"
  shows "unat (ucast tot * ucast chans :: u64) = unat tot * unat chans"
proof -
  have "unat tot * unat chans \<le> 4294967295 * 8"
    using unat_u32_lt [of tot] assms(2) by (intro mult_le_mono) auto
  then show ?thesis by (subst unat_mult_small) auto
qed



text \<open>C19. The arithmetic of the predictor never overflows: from the coefficients of a frame header, after
  any number of samples a frame can hold, the sum of products fits \<^verbatim>\<open>long\<close>, the prediction is its exact
  quotient by \<open>2\<^sup>13\<close>, and the prediction, its sum with any residual and every weight fit \<^verbatim>\<open>int\<close>.\<close>

theorem qoa_no_overflow:
  assumes "read_lms p pos n = Some ls" "l \<in> set ls" "length rs \<le> QOA_FRAME_LEN"
    and "\<forall>r\<in>set rs. \<exists>row\<in>set qoa_dequant_tab. r \<in> set row" and "row \<in> set qoa_dequant_tab" "deq \<in> set row"
  shows "lms_predict (lms_run l rs) = lms_sum (lms_run l rs) div 2 ^ 13 \<and> \<bar>lms_sum (lms_run l rs)\<bar> < 2 ^ 63 \<and>
    \<bar>lms_predict (lms_run l rs) + deq\<bar> < 2 ^ 31 \<and> list_all (\<lambda>w. \<bar>w\<bar> < 2 ^ 31) (weights (lms_run l rs))"
proof -
  have "\<forall>r\<in>set rs. \<bar>r\<bar> \<le> 14336" using assms(4) dequant_range by blast
  then have ok: "lms_ok (32768 + 896 * int (length rs)) (lms_run l rs)"
    using read_lms_ok [OF assms(1)] assms(2) by (intro lms_run_ok) auto
  have B: "0 \<le> 32768 + 896 * int (length rs)" "32768 + 896 * int (length rs) \<le> 4620288"
    using assms(3) by (simp_all add: QOA_FRAME_LEN_def)
  have "\<forall>w\<in>set (weights (lms_run l rs)). \<bar>w\<bar> \<le> 4620288" using ok B by (fastforce simp: lms_ok_def)
  then have "list_all (\<lambda>w. \<bar>w\<bar> < 2 ^ 31) (weights (lms_run l rs))" by (fastforce simp: list_all_iff)
  moreover have "\<bar>deq\<bar> \<le> 14336" using dequant_range [OF assms(5,6)] .
  then have "\<bar>lms_predict (lms_run l rs) + deq\<bar> < 2 ^ 31" using lms_predict_exact(3) [OF ok B] by simp
  ultimately show ?thesis using lms_predict_exact(1,2) [OF ok B] by simp
qed

theorem qoa_no_overflow_witness:
  "lms_predict (lms_run \<lparr>history = [0, 0, 0, 256], weights = [0, 0, 0, 8192]\<rparr> [14336, -14336]) =
     lms_sum (lms_run \<lparr>history = [0, 0, 0, 256], weights = [0, 0, 0, 8192]\<rparr> [14336, -14336]) div 2 ^ 13 \<and>
   \<bar>lms_sum (lms_run \<lparr>history = [0, 0, 0, 256], weights = [0, 0, 0, 8192]\<rparr> [14336, -14336])\<bar> < 2 ^ 63 \<and>
   \<bar>lms_predict (lms_run \<lparr>history = [0, 0, 0, 256], weights = [0, 0, 0, 8192]\<rparr> [14336, -14336]) + 5\<bar> < 2 ^ 31 \<and>
   list_all (\<lambda>w. \<bar>w\<bar> < 2 ^ 31) (weights (lms_run \<lparr>history = [0, 0, 0, 256], weights = [0, 0, 0, 8192]\<rparr> [14336, -14336]))"
proof (rule qoa_no_overflow)
  have "be16 0 0 = 0" "sint (be16 1 0) = 256" "sint (be16 0x20 0) = 8192" by (simp_all add: be16_def)
  then show "read_lms [0, 0, 0, 0, 0, 0, 1, 0, 0, 0, 0, 0, 0, 0, 0x20, 0] 0 1 =
      Some [\<lparr>history = [0, 0, 0, 256], weights = [0, 0, 0, 8192]\<rparr>]"
    by (simp add: QOA_LMS_LEN_def numeral_eq_Suc qoa_be16_def)
  show "[1, -1, 3, -3, 5, -5, 7, -7] \<in> set qoa_dequant_tab" by (simp add: qoa_dequant_tab_def)
qed (simp_all add: QOA_FRAME_LEN_def qoa_dequant_tab_def)

end
