(* ===== verification/Net_Wire.thy ===== *)
theory Net_Wire
  imports Str "HOL-Library.Monad_Syntax"
begin

text \<open>
  The wire formats of the network stack (\<^verbatim>\<open>src/src/net.c\<close>, the structures and helpers at its start):
  the packed Ethernet, ARP, IPv4 and ICMP headers, the Internet checksum and the dotted-quad text of
  an address. A header is a record with its fields in host order; \<open>pack\<close> and \<open>unpack\<close> are the stores
  and loads through the packed structure, with the byte swaps of \<^verbatim>\<open>htons\<close>/\<^verbatim>\<open>htonl\<close>. A checksum is
  computed on, and stored as, little-endian halfwords, as the x86 loads of the code have it.
\<close>

subsection \<open>Definitions\<close>

definition ETH_ARP :: u16 where "ETH_ARP = 0x0806"
definition ETH_IP :: u16 where "ETH_IP = 0x0800"
definition IP_PROTO_ICMP :: u8 where "IP_PROTO_ICMP = 1"
definition IP_PROTO_TCP :: u8 where "IP_PROTO_TCP = 6"
definition IP_PROTO_UDP :: u8 where "IP_PROTO_UDP = 17"
definition ICMP_ECHO_REQUEST :: u8 where "ICMP_ECHO_REQUEST = 8"
definition ICMP_ECHO_REPLY :: u8 where "ICMP_ECHO_REPLY = 0"
definition bcast_mac :: bytes where "bcast_mac = [0xFF, 0xFF, 0xFF, 0xFF, 0xFF, 0xFF]"

record eth_hdr =
  eth_dst :: bytes
  eth_src :: bytes
  eth_type :: u16

record arp_pkt =
  arp_htype :: u16
  arp_ptype :: u16
  arp_hlen :: u8
  arp_plen :: u8
  arp_oper :: u16
  arp_sha :: bytes
  arp_spa :: bytes
  arp_tha :: bytes
  arp_tpa :: bytes

record ip_hdr =
  ip_ver_ihl :: u8
  ip_tos :: u8
  ip_tot_len :: u16
  ip_id :: u16
  ip_frag :: u16
  ip_ttl :: u8
  ip_proto :: u8
  ip_csum :: u16
  ip_src :: u32
  ip_dst :: u32

record icmp_hdr =
  icmp_type :: u8
  icmp_code :: u8
  icmp_csum :: u16
  icmp_id :: u16
  icmp_seq :: u16

definition eth_pack :: "eth_hdr \<Rightarrow> bytes" where
  "eth_pack h = eth_dst h @ eth_src h @ be16_bytes (eth_type h)"

definition eth_unpack :: "bytes \<Rightarrow> eth_hdr option" where
  "eth_unpack p = do {
     d \<leftarrow> get_bytes p 0 6; s \<leftarrow> get_bytes p 6 6; t \<leftarrow> get_be16 p 12;
     Some \<lparr>eth_dst = d, eth_src = s, eth_type = t\<rparr> }"

definition arp_pack :: "arp_pkt \<Rightarrow> bytes" where
  "arp_pack a = be16_bytes (arp_htype a) @ be16_bytes (arp_ptype a) @ [arp_hlen a, arp_plen a] @ be16_bytes (arp_oper a) @
     arp_sha a @ arp_spa a @ arp_tha a @ arp_tpa a"

definition arp_unpack :: "bytes \<Rightarrow> arp_pkt option" where
  "arp_unpack p = do {
     ht \<leftarrow> get_be16 p 0; pt \<leftarrow> get_be16 p 2; hl \<leftarrow> rd p 4; pl \<leftarrow> rd p 5; op \<leftarrow> get_be16 p 6;
     sh \<leftarrow> get_bytes p 8 6; sp \<leftarrow> get_bytes p 14 4; th \<leftarrow> get_bytes p 18 6; tp \<leftarrow> get_bytes p 24 4;
     Some \<lparr>arp_htype = ht, arp_ptype = pt, arp_hlen = hl, arp_plen = pl, arp_oper = op, arp_sha = sh, arp_spa = sp, arp_tha = th, arp_tpa = tp\<rparr> }"

definition ip_pack :: "ip_hdr \<Rightarrow> bytes" where
  "ip_pack h = [ip_ver_ihl h, ip_tos h] @ be16_bytes (ip_tot_len h) @ be16_bytes (ip_id h) @ be16_bytes (ip_frag h) @
     [ip_ttl h, ip_proto h] @ le16_bytes (ip_csum h) @ be32_bytes (ip_src h) @ be32_bytes (ip_dst h)"

definition ip_unpack :: "bytes \<Rightarrow> ip_hdr option" where
  "ip_unpack p = do {
     v \<leftarrow> rd p 0; t \<leftarrow> rd p 1; tl \<leftarrow> get_be16 p 2; i \<leftarrow> get_be16 p 4; f \<leftarrow> get_be16 p 6;
     tt \<leftarrow> rd p 8; pr \<leftarrow> rd p 9; c \<leftarrow> get_le16 p 10; s \<leftarrow> get_be32 p 12; d \<leftarrow> get_be32 p 16;
     Some \<lparr>ip_ver_ihl = v, ip_tos = t, ip_tot_len = tl, ip_id = i, ip_frag = f, ip_ttl = tt, ip_proto = pr, ip_csum = c,
           ip_src = s, ip_dst = d\<rparr> }"

definition icmp_pack :: "icmp_hdr \<Rightarrow> bytes" where
  "icmp_pack h = [icmp_type h, icmp_code h] @ le16_bytes (icmp_csum h) @ be16_bytes (icmp_id h) @
     be16_bytes (icmp_seq h)"

definition icmp_unpack :: "bytes \<Rightarrow> icmp_hdr option" where
  "icmp_unpack p = do {
     t \<leftarrow> rd p 0; c \<leftarrow> rd p 1; cs \<leftarrow> get_le16 p 2; i \<leftarrow> get_be16 p 4; s \<leftarrow> get_be16 p 6;
     Some \<lparr>icmp_type = t, icmp_code = c, icmp_csum = cs, icmp_id = i, icmp_seq = s\<rparr> }"

definition mac_eq :: "bytes \<Rightarrow> bytes \<Rightarrow> bool" where
  "mac_eq a b \<longleftrightarrow> list_all (\<lambda>i. a ! i = b ! i) [0..<6]"

definition ip_to_bytes :: "u32 \<Rightarrow> bytes" where
  "ip_to_bytes ip = [ucast (drop_bit 24 ip), ucast (drop_bit 16 ip), ucast (drop_bit 8 ip), ucast ip]"

definition bytes_to_ip :: "bytes \<Rightarrow> u32" where
  "bytes_to_ip b = push_bit 24 (ucast (b ! 0)) OR push_bit 16 (ucast (b ! 1)) OR
     push_bit 8 (ucast (b ! 2)) OR ucast (b ! 3)"

fun csum_add :: "u32 \<Rightarrow> bytes \<Rightarrow> u32" where
  "csum_add s (a # b # p) = csum_add (s + ucast (le16 a b)) p"
| "csum_add s [a] = s + ucast a"
| "csum_add s [] = s"

lemma unat_fold_step:
  "unat ((s AND 0xFFFF) + drop_bit 16 (s :: u32)) = unat s mod 65536 + unat s div 65536"
proof -
  have m: "(0xFFFF :: u32) = mask 16" by (simp add: mask_eq_exp_minus_1)
  have lo: "unat (s AND 0xFFFF) = unat s mod 65536"
    unfolding m by (simp only: flip: take_bit_eq_mask) (simp only: unsigned_take_bit_eq, simp only: take_bit_eq_mod, simp)
  have hi: "unat (drop_bit 16 s) = unat s div 65536"
    using unat_u32_lt [of s] by (simp only: unsigned_drop_bit_eq) (simp add: take_bit_nat_eq_self drop_bit_eq_div)
  have "unat s div 65536 < 65536" using unat_u32_lt [of s] by simp
  then show ?thesis by (subst unat_add_small) (simp_all add: lo hi)
qed

lemma fold_high: "drop_bit 16 (s :: u32) = 0 \<longleftrightarrow> unat s < 65536"
proof -
  have "unat (drop_bit 16 s) = unat s div 65536"
    using unat_u32_lt [of s] by (simp only: unsigned_drop_bit_eq) (simp add: take_bit_nat_eq_self drop_bit_eq_div)
  then show ?thesis by (simp add: unat_eq_zero [symmetric] div_eq_0_iff del: unat_eq_zero)
qed

function fold_loop :: "u32 \<Rightarrow> u32" where
  "fold_loop s = (if drop_bit 16 s \<noteq> 0 then fold_loop ((s AND 0xFFFF) + drop_bit 16 s) else s)"
  by pat_completeness auto
termination
proof (relation "measure unat")
  fix s :: u32
  assume "drop_bit 16 s \<noteq> 0"
  then have "65536 \<le> unat s" by (simp add: fold_high)
  moreover have "unat s mod 65536 + unat s div 65536 < unat s" if "65536 \<le> unat s"
  proof -
    have "unat s = 65536 * (unat s div 65536) + unat s mod 65536" by simp
    moreover have "0 < unat s div 65536" using that by simp
    ultimately show ?thesis by linarith
  qed
  ultimately show "((s AND 0xFFFF) + drop_bit 16 s, s) \<in> measure unat" by (simp add: unat_fold_step)
qed simp

declare fold_loop.simps [simp del]

definition csum_fold :: "u32 \<Rightarrow> u16" where
  "csum_fold s = NOT (ucast (fold_loop s))"

definition inet_csum :: "bytes \<Rightarrow> u16" where
  "inet_csum p = csum_fold (csum_add 0 p)"

text \<open>Four octets, the first three ended by a dot; \<open>n\<close> octets remain.\<close>

fun aton_loop :: "nat \<Rightarrow> str \<Rightarrow> u32 \<Rightarrow> u32 option" where
  "aton_loop 0 rest ip = Some ip"
| "aton_loop (Suc n) rest ip =
     (let (ok, octet, rest') = (if 0 < n then str_cut_ch rest 46 else (True, rest, rest)) in
      if \<not> ok then None
      else if str_len octet = 0 \<or> str_len octet > 3 then None
      else case str_to_u32 octet of
        None \<Rightarrow> None
      | Some v \<Rightarrow> if v > 255 then None else aton_loop n rest' (push_bit 8 ip OR v))"

text \<open>\<^const>\<open>None\<close> is a string without terminator.\<close>

definition net_aton :: "bytes \<Rightarrow> u32 option option" where
  "net_aton s = map_option (\<lambda>rest. aton_loop 4 rest 0) (str_from s)"

definition octet_text :: "u8 \<Rightarrow> bytes" where
  "octet_text v = (if v \<ge> 100 then [48 + v div 100] else []) @
     (if v \<ge> 10 then [48 + (v div 10) mod 10] else []) @ [48 + v mod 10]"

text \<open>The bytes stored into the caller's buffer, terminator included.\<close>

fun ntoa_loop :: "bytes \<Rightarrow> bytes" where
  "ntoa_loop [] = []"
| "ntoa_loop (v # vs) = octet_text v @ (if vs = [] then [] else [46]) @ ntoa_loop vs"

definition net_ntoa :: "u32 \<Rightarrow> bytes" where
  "net_ntoa ip = ntoa_loop (ip_to_bytes ip) @ [0]"

subsection \<open>Packing and unpacking are inverse\<close>

lemma length_eth_pack [simp]: "length (eth_dst h) = 6 \<Longrightarrow> length (eth_src h) = 6 \<Longrightarrow> length (eth_pack h) = 14"
  by (simp add: eth_pack_def)

lemma length_ip_pack [simp]: "length (ip_pack h) = 20"
  by (simp add: ip_pack_def)

lemma length_icmp_pack [simp]: "length (icmp_pack h) = 8"
  by (simp add: icmp_pack_def)

lemma length_ip_to_bytes [simp]: "length (ip_to_bytes ip) = 4"
  by (simp add: ip_to_bytes_def)

lemma length_bcast_mac [simp]: "length bcast_mac = 6"
  by (simp add: bcast_mac_def)

lemma bytes_to_ip_to_bytes [simp]: "bytes_to_ip (ip_to_bytes ip) = ip"
  using be32_roundtrip [of ip] by (simp add: bytes_to_ip_def ip_to_bytes_def be32_def)

lemma ip_unpack_pack: "ip_unpack (ip_pack h @ rest) = Some h"
  by (simp add: ip_unpack_def ip_pack_def be16_bytes_def be32_bytes_def le16_bytes_def get_be16_def get_be32_def
      get_le16_def)

lemma icmp_unpack_pack: "icmp_unpack (icmp_pack h @ rest) = Some h"
  by (simp add: icmp_unpack_def icmp_pack_def be16_bytes_def le16_bytes_def get_be16_def get_le16_def)

lemma eth_unpack_pack:
  "length (eth_dst h) = 6 \<Longrightarrow> length (eth_src h) = 6 \<Longrightarrow> eth_unpack (eth_pack h @ rest) = Some h"
  by (simp add: eth_unpack_def eth_pack_def be16_bytes_def get_be16_def get_bytes_def bslice_def nth_append)

lemma arp_unpack_pack:
  assumes "length (arp_sha a) = 6" "length (arp_spa a) = 4" "length (arp_tha a) = 6" "length (arp_tpa a) = 4"
  shows "arp_unpack (arp_pack a @ rest) = Some a"
  using assms
  by (simp add: arp_unpack_def arp_pack_def be16_bytes_def get_be16_def get_bytes_def bslice_def)

lemma mac_eq_iff: "length a = 6 \<Longrightarrow> length b = 6 \<Longrightarrow> mac_eq a b \<longleftrightarrow> a = b"
  by (auto simp: mac_eq_def list_all_upt list_eq_iff_nth_eq)

subsection \<open>The Internet checksum\<close>

text \<open>The sum of halfwords as a natural number, and the end-around-carry fold of such a sum.\<close>

fun wsum :: "bytes \<Rightarrow> nat" where
  "wsum (a # b # p) = unat a + 256 * unat b + wsum p"
| "wsum [a] = unat a"
| "wsum [] = 0"

definition ones_sum :: "nat \<Rightarrow> nat" where
  "ones_sum n = (if n = 0 then 0 else (n - 1) mod 65535 + 1)"

lemma csum_add_eq: "csum_add s p = s + of_nat (wsum p)"
proof (induction s p rule: csum_add.induct)
  case (1 s a b p)
  have "(ucast (le16 a b) :: u32) = of_nat (unat (le16 a b))" by simp
  then have "(ucast (le16 a b) :: u32) = of_nat (unat a + 256 * unat b)" by (simp only: unat_le16)
  with 1 show ?case by simp
qed simp_all

lemma csum_add_append: "even (length p) \<Longrightarrow> wsum (p @ q) = wsum p + wsum q"
  by (induction p rule: wsum.induct) auto

lemma wsum_bound: "wsum p \<le> 65535 * length p"
proof (induction p rule: wsum.induct)
  case (1 a b p)
  then show ?case using unat_u8_lt [of a] unat_u8_lt [of b] by simp
next
  case (2 a)
  then show ?case using unat_u8_lt [of a] by simp
qed simp

lemma ones_sum_small: "n < 65536 \<Longrightarrow> ones_sum n = n"
  by (auto simp: ones_sum_def)

lemma ones_sum_fold: "65536 \<le> n \<Longrightarrow> ones_sum (n mod 65536 + n div 65536) = ones_sum n"
proof -
  assume n: "65536 \<le> n"
  define h l where "h = n div 65536" and "l = n mod 65536"
  have nl: "n = 65536 * h + l" by (simp add: h_def l_def)
  have "0 < h" using n by (simp add: h_def div_greater_zero_iff)
  then have "n - 1 = (l + h - 1) + 65535 * h" using nl by simp
  then have "(n - 1) mod 65535 = (l + h - 1) mod 65535" by simp
  with \<open>0 < h\<close> show ?thesis using n unfolding ones_sum_def h_def [symmetric] l_def [symmetric] by simp
qed

lemma unat_fold_loop: "unat (fold_loop s) = ones_sum (unat s)"
proof (induction s rule: fold_loop.induct)
  case (1 s)
  show ?case
  proof (cases "drop_bit 16 s = 0")
    case True
    then show ?thesis by (subst fold_loop.simps) (simp add: fold_high ones_sum_small)
  next
    case False
    then have "unat (fold_loop s) = ones_sum (unat s mod 65536 + unat s div 65536)"
      using 1 by (subst fold_loop.simps) (simp add: unat_fold_step)
    with False show ?thesis by (simp add: fold_high ones_sum_fold)
  qed
qed

lemma ones_sum_bound: "ones_sum n < 65536"
  using mod_less_divisor [of 65535 "n - 1"] by (simp add: ones_sum_def)

lemma unat_csum_fold: "unat (csum_fold s) = 65535 - ones_sum (unat s)"
proof -
  have "unat (ucast (fold_loop s) :: u16) = ones_sum (unat s)"
    using ones_sum_bound [of "unat s"] by (subst unat_ucast_small) (simp_all add: unat_fold_loop)
  moreover have "unat (NOT (w :: u16)) = 65535 - unat w" for w
  proof -
    have "NOT w = -1 - w" by (simp add: not_eq_complement)
    moreover have "unat (-1 :: u16) = 65535"
    proof -
      have "unat (- 1 :: u16) = unat (65535 :: u16)" by (rule arg_cong) simp
      also have "\<dots> = 65535" by (subst unat_numeral) simp
      finally show ?thesis .
    qed
    ultimately show ?thesis using unat_u16_lt [of w] by (simp add: unat_sub_small)
  qed
  ultimately show ?thesis by (simp add: csum_fold_def)
qed

lemma ones_sum_complement: "ones_sum (n + (65535 - ones_sum n)) = 65535"
proof (cases "n = 0")
  case False
  define k where "k = (n - 1) div 65535"
  have "n - 1 = 65535 * k + (n - 1) mod 65535" by (simp add: k_def)
  moreover have "(n - 1) mod 65535 < 65535" by simp
  ultimately have "n + (65535 - ones_sum n) - 1 = 65535 * k + 65534"
    using False unfolding ones_sum_def by simp
  then have "(n + (65535 - ones_sum n) - 1) mod 65535 = 65534" by simp
  with False show ?thesis unfolding ones_sum_def by simp
qed (simp add: ones_sum_def)

lemma wsum_le16_bytes: "wsum (le16_bytes c) = unat c"
  using unat_le16 [of "ucast c" "ucast (drop_bit 8 c)"] by (simp add: le16_bytes_def)

lemma csum_verify:
  assumes "even (length a)" and "s0 + 65535 * (length a + length b) + 65536 \<le> 2 ^ 32"
  shows "csum_fold (csum_add (of_nat s0) (a @ le16_bytes (csum_fold (csum_add (of_nat s0) (a @ [0, 0] @ b))) @ b)) = 0"
proof -
  define n where "n = s0 + (wsum a + wsum b)"
  define c where "c = csum_fold (csum_add (of_nat s0) (a @ [0, 0] @ b))"
  have w: "wsum (a @ [0, 0] @ b) = wsum a + wsum b" using assms(1) by (simp add: csum_add_append)
  have n: "n + 65536 \<le> 2 ^ 32" using wsum_bound [of a] wsum_bound [of b] assms(2) by (simp add: n_def)
  have u: "unat (of_nat m :: u32) = m" if "m < 2 ^ 32" for m using that by (intro unat_of_nat_small) simp
  have "csum_add (of_nat s0) (a @ [0, 0] @ b) = of_nat n" by (simp only: csum_add_eq w n_def of_nat_add)
  then have c: "unat c = 65535 - ones_sum n" using n u [of n] by (simp add: c_def unat_csum_fold)
  have "wsum (a @ le16_bytes c @ b) = wsum a + (unat c + wsum b)"
    using assms(1) csum_add_append [of "le16_bytes c" b] by (simp add: csum_add_append wsum_le16_bytes)
  then have "csum_add (of_nat s0) (a @ le16_bytes c @ b) = of_nat (n + unat c)"
    by (simp add: csum_add_eq n_def)
  moreover have "unat (of_nat (n + unat c) :: u32) = n + unat c" using n c by (intro u) simp
  ultimately have "unat (csum_fold (csum_add (of_nat s0) (a @ le16_bytes c @ b))) = 0"
    by (simp only: unat_csum_fold c ones_sum_complement diff_self_eq_0)
  then show ?thesis by (simp add: c_def unat_eq_zero)
qed

text \<open>A checksum of zero may be sent as all ones.\<close>

lemma csum_verify_ones:
  assumes "even (length a)" and "s0 + 65535 * (length a + length b) + 65536 \<le> 2 ^ 32"
    and "csum_fold (csum_add (of_nat s0) (a @ [0, 0] @ b)) = 0"
  shows "csum_fold (csum_add (of_nat s0) (a @ le16_bytes 0xFFFF @ b)) = 0"
proof -
  define n where "n = s0 + (wsum a + wsum b)"
  have w: "wsum (a @ [0, 0] @ b) = wsum a + wsum b" using assms(1) by (simp add: csum_add_append)
  have n: "n + 65536 \<le> 2 ^ 32" using wsum_bound [of a] wsum_bound [of b] assms(2) by (simp add: n_def)
  have u: "unat (of_nat m :: u32) = m" if "m < 2 ^ 32" for m using that by (intro unat_of_nat_small) simp
  have "csum_add (of_nat s0) (a @ [0, 0] @ b) = of_nat n" by (simp only: csum_add_eq w n_def of_nat_add)
  then have "65535 - ones_sum n = unat (0 :: u16)" using n u [of n] assms(3) unat_csum_fold [of "of_nat n"] by simp
  then have o: "ones_sum n = 65535" using ones_sum_bound [of n] by simp
  then have "n \<noteq> 0" by (cases "n = 0") (simp_all add: ones_sum_def)
  have "(n + 65535 - 1) mod 65535 = (n - 1) mod 65535"
  proof -
    have "n + 65535 - 1 = (n - 1) + 65535" using \<open>n \<noteq> 0\<close> by simp
    then show ?thesis by (simp only: mod_add_self2)
  qed
  with o \<open>n \<noteq> 0\<close> have o': "ones_sum (n + 65535) = 65535" by (simp add: ones_sum_def)
  have "wsum (a @ le16_bytes 0xFFFF @ b) = wsum a + (unat (0xFFFF :: u16) + wsum b)"
    using assms(1) csum_add_append [of "le16_bytes 0xFFFF" b] by (simp add: csum_add_append wsum_le16_bytes)
  then have "csum_add (of_nat s0) (a @ le16_bytes 0xFFFF @ b) = of_nat (n + 65535)"
    by (simp add: csum_add_eq n_def)
  moreover have "unat (of_nat (n + 65535) :: u32) = n + 65535" using n by (intro u) simp
  ultimately have "unat (csum_fold (csum_add (of_nat s0) (a @ le16_bytes 0xFFFF @ b))) = 0"
    by (simp only: unat_csum_fold o' diff_self_eq_0)
  then show ?thesis by (simp only: unat_eq_zero)
qed

subsection \<open>Dotted-quad text\<close>

lemma unat_digit: "unat d = n \<Longrightarrow> n < 208 \<Longrightarrow> unat (48 + d :: u8) = 48 + n"
  by (subst unat_add_small) simp_all

lemma unat_octet:
  "unat (v div 100) = unat v div 100" "unat ((v div 10) mod 10) = unat v div 10 mod 10"
  "unat ((v :: u8) mod 10) = unat v mod 10"
  by (simp_all add: unat_div unat_mod)

lemma octet_digits:
  "unat (48 + (v :: u8) div 100) = 48 + unat v div 100"
  "unat (48 + ((v :: u8) div 10) mod 10) = 48 + unat v div 10 mod 10"
  "unat (48 + (v :: u8) mod 10) = 48 + unat v mod 10"
proof -
  have "unat v div 100 < 208" "unat v div 10 mod 10 < 208" "unat v mod 10 < 208"
    using unat_u8_lt [of v] by simp_all
  note b = this
  show "unat (48 + (v :: u8) div 100) = 48 + unat v div 100" by (rule unat_digit [OF unat_octet(1) b(1)])
  show "unat (48 + ((v :: u8) div 10) mod 10) = 48 + unat v div 10 mod 10"
    by (rule unat_digit [OF unat_octet(2) b(2)])
  show "unat (48 + (v :: u8) mod 10) = 48 + unat v mod 10" by (rule unat_digit [OF unat_octet(3) b(3)])
qed

lemma octet_text_digits: "list_all is_digit (octet_text v)"
  using unat_u8_lt [of v] by (auto simp: octet_text_def is_digit_def octet_digits word_le_nat_alt)

lemma octet_text_length: "1 \<le> length (octet_text v) \<and> length (octet_text v) \<le> 3"
  by (simp add: octet_text_def)

lemma octet_text_value: "decimal (octet_text v) = unat v"
proof -
  define n where "n = unat v"
  have "n < 256" by (simp add: n_def unat_u8_lt)
  have le: "100 \<le> v \<longleftrightarrow> 100 \<le> n" "10 \<le> v \<longleftrightarrow> 10 \<le> n" by (simp_all add: word_le_nat_alt n_def)
  have "n div 100 = n div 10 div 10" by (simp add: div_mult2_eq [symmetric])
  then have "n div 100 * 10 + n div 10 mod 10 = n div 10" by simp
  then have "(n div 100 * 10 + n div 10 mod 10) * 10 + n mod 10 = n" by (simp only: div_mult_mod_eq)
  then have d: "100 * (n div 100) + n div 10 mod 10 * 10 + n mod 10 = n" by (simp only: add_mult_distrib)
  have v: "unat (v div 10) = n div 10" by (simp add: unat_div n_def)
  have "decimal (octet_text v) = (if 100 \<le> n then 100 * (n div 100) else 0) +
      (if 10 \<le> n then n div 10 mod 10 * 10 else 0) + n mod 10"
    by (simp add: octet_text_def decimal_def octet_digits le v n_def [symmetric])
  also have "\<dots> = n" using d by auto
  finally show ?thesis by (simp add: n_def)
qed

lemma octet_text_no:
  "46 \<notin> set (octet_text v)" "0 \<notin> set (octet_text v)"
  using octet_text_digits [of v] by (auto simp: list_all_iff is_digit_def)

lemma str_to_u32_octet:
  "str_to_u32 (str_span (octet_text v @ t) (length (octet_text v))) = Some (ucast v)"
  using octet_text_length [of v] by (auto simp: str_to_u32_eq octet_text_digits octet_text_value)

lemma aton_octet:
  assumes "0 < n"
  shows "aton_loop (Suc n) (str_span (octet_text v @ 46 # t) (length (octet_text v) + 1 + m)) ip =
    aton_loop n (str_span t m) (push_bit 8 ip OR ucast v)"
  using assms octet_text_length [of v] unat_u8_lt [of v] str_cut_ch_append [OF octet_text_no(1), of v t m]
  by (auto simp: str_to_u32_octet word_less_nat_alt)

lemma aton_last:
  "aton_loop 1 (str_span (octet_text v @ t) (length (octet_text v))) ip = Some (push_bit 8 ip OR ucast v)"
  using octet_text_length [of v] unat_u8_lt [of v]
  by (auto simp: str_to_u32_octet word_less_nat_alt)

lemma ip_bytes_horner:
  "push_bit 8 (push_bit 8 (push_bit 8 (push_bit 8 0 OR ucast a) OR ucast b) OR ucast c) OR ucast d = be32 a b c d"
  unfolding be32_def by (rule bit_word_eqI) (auto simp: bit_simps)

lemma ntoa_length: "length (net_ntoa ip) \<le> 16"
  using octet_text_length [of "ucast (drop_bit 24 ip)"] octet_text_length [of "ucast (drop_bit 16 ip)"]
    octet_text_length [of "ucast (drop_bit 8 ip)"] octet_text_length [of "ucast ip"]
  by (simp add: net_ntoa_def ip_to_bytes_def)

lemma aton_quad:
  fixes a b c d :: u8
  shows "net_aton (ntoa_loop [a, b, c, d] @ [0]) = Some (Some (be32 a b c d))"
proof -
  let ?t = "octet_text d @ [0]"
  let ?u = "octet_text c @ 46 # ?t"
  let ?v = "octet_text b @ 46 # ?u"
  let ?s = "octet_text a @ 46 # ?v"
  let ?n = "length (octet_text d)"
  let ?m = "length (octet_text c) + 1 + ?n"
  let ?k = "length (octet_text b) + 1 + ?m"
  let ?l = "length (octet_text a) + 1 + ?k"
  have s: "ntoa_loop [a, b, c, d] @ [0] = ?s" by simp
  have "str_from (ntoa_loop [a, b, c, d] @ 0 # []) =
      Some \<lparr>str_data = ntoa_loop [a, b, c, d] @ 0 # [], str_len = length (ntoa_loop [a, b, c, d])\<rparr>"
    by (rule str_from_terminated) (simp add: octet_text_no)
  then have f: "str_from ?s = Some (str_span ?s ?l)" by (simp add: str_span_def)
  have "aton_loop 4 (str_span ?s ?l) 0 = aton_loop (Suc 3) (str_span ?s ?l) 0" by simp
  also have "\<dots> = aton_loop 3 (str_span ?v ?k) (push_bit 8 0 OR ucast a)" by (rule aton_octet) simp
  also have "\<dots> = aton_loop (Suc 2) (str_span ?v ?k) (push_bit 8 0 OR ucast a)" by simp
  also have "\<dots> = aton_loop 2 (str_span ?u ?m) (push_bit 8 (push_bit 8 0 OR ucast a) OR ucast b)"
    by (rule aton_octet) simp
  also have "\<dots> = aton_loop (Suc 1) (str_span ?u ?m) (push_bit 8 (push_bit 8 0 OR ucast a) OR ucast b)" by (simp only: Suc_1)
  also have "\<dots> = aton_loop 1 (str_span ?t ?n)
      (push_bit 8 (push_bit 8 (push_bit 8 0 OR ucast a) OR ucast b) OR ucast c)"
    by (rule aton_octet) simp
  also have "\<dots> = Some (be32 a b c d)" by (simp only: aton_last ip_bytes_horner)
  finally show ?thesis using s f by (simp add: net_aton_def)
qed

subsection \<open>Properties\<close>

text \<open>C6. The Internet checksum of a packet with a cleared checksum field at an even offset, stored into
  that field, makes the packet verify: its checksum is then zero. This holds for every packet whose
  length fits 16 bits, also behind a pseudo-header whose sum is added first.\<close>

theorem inet_csum_verifies:
  assumes "even (length a)" and "s0 \<le> 2 ^ 19" and "length a + length b \<le> 65520"
  shows "csum_fold (csum_add (of_nat s0) (a @ le16_bytes (csum_fold (csum_add (of_nat s0) (a @ [0, 0] @ b))) @ b)) = 0"
  by (rule csum_verify) (use assms in simp_all)

theorem inet_csum_verifies_witness:
  "inet_csum ([0x45, 0, 0, 0x54] @ le16_bytes (inet_csum ([0x45, 0, 0, 0x54] @ [0, 0] @ [0xC0, 0xA8, 1])) @ [0xC0, 0xA8, 1]) = 0"
  using inet_csum_verifies [of "[0x45, 0, 0, 0x54]" 0 "[0xC0, 0xA8, 1]"] by (simp add: inet_csum_def)

text \<open>C32. The dotted-quad text of an address, which fits the sixteen-byte buffers the callers pass,
  parses back to the address.\<close>

theorem net_aton_ntoa: "length (net_ntoa ip) \<le> 16 \<and> net_aton (net_ntoa ip) = Some (Some ip)"
proof -
  have "net_ntoa ip = ntoa_loop [ucast (drop_bit 24 ip), ucast (drop_bit 16 ip), ucast (drop_bit 8 ip), ucast ip] @ [0]"
    by (simp only: net_ntoa_def ip_to_bytes_def)
  then have "net_aton (net_ntoa ip) = Some (Some ip)" by (simp only: aton_quad be32_roundtrip)
  with ntoa_length show ?thesis by blast
qed

end
