(* ===== verification/Net_State.thy ===== *)
theory Net_State
  imports Net_Wire
begin

text \<open>
  The state of the network stack: the file-level variables of \<^verbatim>\<open>net.c\<close>, \<^verbatim>\<open>udp.c\<close> and \<^verbatim>\<open>tcp.c\<close> in one
  record, with the card and the clocks below it as a parameter of type \<open>'w\<close>. The functions of the stack
  call each other through \<^verbatim>\<open>net_poll\<close>, which the blocking operations run while they wait. That call is
  a field of the environment, so that each layer is defined on its own; \<open>Net_Stack\<close> ties the knot. A
  function that may wait returns an option: \<^const>\<open>None\<close> means that it has not returned after \<open>e_fuel\<close> rounds.

  A store that would leave its buffer sets \<open>net_fault\<close>; the theories show that it is never set.
\<close>

record arp_entry =
  ae_ip :: u32
  ae_mac :: bytes
  ae_valid :: bool

record udp_dgram =
  dg_src_ip :: u32
  dg_src_port :: u16
  dg_len :: u16
  dg_data :: bytes

record udp_socket =
  us_in_use :: bool
  us_port :: u16
  us_q :: "udp_dgram list"
  us_head :: nat
  us_count :: nat

datatype tcp_state =
  TCP_CLOSED | TCP_LISTEN | TCP_SYN_SENT | TCP_SYN_RCVD | TCP_ESTABLISHED | TCP_FIN_WAIT | TCP_DONE

record tcp_conn =
  tc_in_use :: bool
  tc_state :: tcp_state
  tc_peer_ip :: u32
  tc_local_port :: u16
  tc_peer_port :: u16
  tc_snd_una :: u32
  tc_snd_nxt :: u32
  tc_rcv_nxt :: u32
  tc_peer_fin :: bool
  tc_rx :: bytes
  tc_rx_head :: nat
  tc_rx_len :: nat
  tc_retx :: bytes
  tc_retx_len :: nat
  tc_retx_seq :: u32
  tc_retx_at_ms :: u64
  tc_retx_tries :: nat

record 'w net =
  ready :: bool
  my_ip :: u32
  my_mask :: u32
  my_gw :: u32
  my_mac :: bytes
  ip_id_ctr :: u16
  ephemeral_next :: u16
  arp_cache :: "arp_entry list"
  ping_got :: bool
  ping_seq :: u16
  ping_send_us :: u64
  ping_rtt_us :: u64
  udp_socks :: "udp_socket list"
  tcp_conns :: "tcp_conn list"
  net_fault :: bool
  wire :: 'w

text \<open>The card (\<^verbatim>\<open>e1000_tx\<close>, \<^verbatim>\<open>e1000_rx_poll\<close>), the clocks (\<^verbatim>\<open>ktime_ms\<close>, \<^verbatim>\<open>ktime_us\<close>, \<^verbatim>\<open>ktime_ns\<close>), the call of
  \<^verbatim>\<open>net_poll\<close> and the bound on the rounds of a waiting loop.\<close>

record 'w env =
  e_tx :: "bytes \<Rightarrow> 'w \<Rightarrow> bool \<times> 'w"
  e_rx :: "'w \<Rightarrow> bytes option \<times> 'w"
  e_ms :: "'w \<Rightarrow> u64 \<times> 'w"
  e_us :: "'w \<Rightarrow> u64 \<times> 'w"
  e_ns :: "'w \<Rightarrow> u64 \<times> 'w"
  e_poll :: "'w net \<Rightarrow> 'w net option"
  e_fuel :: nat

definition ktime_ms :: "'w env \<Rightarrow> 'w net \<Rightarrow> u64 \<times> 'w net" where
  "ktime_ms e st = (let (t, w) = e_ms e (wire st) in (t, st\<lparr>wire := w\<rparr>))"

definition ktime_us :: "'w env \<Rightarrow> 'w net \<Rightarrow> u64 \<times> 'w net" where
  "ktime_us e st = (let (t, w) = e_us e (wire st) in (t, st\<lparr>wire := w\<rparr>))"

definition ktime_ns :: "'w env \<Rightarrow> 'w net \<Rightarrow> u64 \<times> 'w net" where
  "ktime_ns e st = (let (t, w) = e_ns e (wire st) in (t, st\<lparr>wire := w\<rparr>))"

definition ARP_ENTRIES :: nat where "ARP_ENTRIES = 8"
definition UDP_SOCKETS :: nat where "UDP_SOCKETS = 8"
definition UDP_QUEUE :: nat where "UDP_QUEUE = 4"
definition UDP_MSG_MAX :: nat where "UDP_MSG_MAX = 1472"
definition TCP_CONNS :: nat where "TCP_CONNS = 2"
definition TCP_MSS :: nat where "TCP_MSS = 536"
definition TCP_RXBUF :: nat where "TCP_RXBUF = 8192"

lemmas net_sizes = ARP_ENTRIES_def UDP_SOCKETS_def UDP_QUEUE_def UDP_MSG_MAX_def TCP_CONNS_def TCP_MSS_def
  TCP_RXBUF_def

text \<open>The state at power-on: the initialisers of the file-level variables, everything else zero.\<close>

definition net_boot :: "'w \<Rightarrow> 'w net" where
  "net_boot w = \<lparr>ready = False, my_ip = 0, my_mask = 0, my_gw = 0, my_mac = replicate 6 0, ip_id_ctr = 1,
     ephemeral_next = 49152, arp_cache = replicate ARP_ENTRIES \<lparr>ae_ip = 0, ae_mac = replicate 6 0, ae_valid = False\<rparr>,
     ping_got = False, ping_seq = 0, ping_send_us = 0, ping_rtt_us = 0,
     udp_socks = replicate UDP_SOCKETS \<lparr>us_in_use = False, us_port = 0,
       us_q = replicate UDP_QUEUE \<lparr>dg_src_ip = 0, dg_src_port = 0, dg_len = 0, dg_data = replicate UDP_MSG_MAX 0\<rparr>,
       us_head = 0, us_count = 0\<rparr>,
     tcp_conns = replicate TCP_CONNS \<lparr>tc_in_use = False, tc_state = TCP_CLOSED, tc_peer_ip = 0, tc_local_port = 0,
       tc_peer_port = 0, tc_snd_una = 0, tc_snd_nxt = 0, tc_rcv_nxt = 0, tc_peer_fin = False,
       tc_rx = replicate TCP_RXBUF 0, tc_rx_head = 0, tc_rx_len = 0, tc_retx = replicate (20 + TCP_MSS) 0,
       tc_retx_len = 0, tc_retx_seq = 0, tc_retx_at_ms = 0, tc_retx_tries = 0\<rparr>,
     net_fault = False, wire = w\<rparr>"

subsection \<open>Well-formed states\<close>

definition dgram_ok :: "udp_dgram \<Rightarrow> bool" where
  "dgram_ok d \<longleftrightarrow> length (dg_data d) = UDP_MSG_MAX \<and> unat (dg_len d) \<le> UDP_MSG_MAX"

definition sock_ok :: "udp_socket \<Rightarrow> bool" where
  "sock_ok s \<longleftrightarrow> length (us_q s) = UDP_QUEUE \<and> us_head s < UDP_QUEUE \<and> us_count s \<le> UDP_QUEUE \<and>
     list_all dgram_ok (us_q s)"

definition conn_ok :: "tcp_conn \<Rightarrow> bool" where
  "conn_ok c \<longleftrightarrow> length (tc_rx c) = TCP_RXBUF \<and> tc_rx_head c < TCP_RXBUF \<and> tc_rx_len c \<le> TCP_RXBUF \<and>
     length (tc_retx c) = 20 + TCP_MSS \<and> tc_retx_len c \<le> 20 + TCP_MSS"

definition net_ok :: "'w net \<Rightarrow> bool" where
  "net_ok st \<longleftrightarrow> \<not> net_fault st \<and> length (my_mac st) = 6 \<and>
     length (arp_cache st) = ARP_ENTRIES \<and> list_all (\<lambda>a. length (ae_mac a) = 6) (arp_cache st) \<and>
     length (udp_socks st) = UDP_SOCKETS \<and> list_all sock_ok (udp_socks st) \<and>
     length (tcp_conns st) = TCP_CONNS \<and> list_all conn_ok (tcp_conns st)"

lemma net_ok_boot: "net_ok (net_boot w)"
  by (simp add: net_ok_def net_boot_def sock_ok_def conn_ok_def dgram_ok_def list_all_iff net_sizes)

lemma net_ok_wire [simp]: "net_ok (st\<lparr>wire := w\<rparr>) = net_ok st"
  by (simp add: net_ok_def)

lemma net_ok_ktime [preserves]:
  "ktime_ms e st = (t, st') \<Longrightarrow> net_ok st' = net_ok st"
  "ktime_us e st = (t, st') \<Longrightarrow> net_ok st' = net_ok st"
  "ktime_ns e st = (t, st') \<Longrightarrow> net_ok st' = net_ok st"
  by (auto simp: ktime_ms_def ktime_us_def ktime_ns_def split: prod.splits)

end
