(* ===== verification/Net_Ip.thy ===== *)
theory Net_Ip
  imports Net_State
begin

text \<open>
  Ethernet, ARP, IPv4 output and ICMP of \<^verbatim>\<open>src/src/net.c\<close>, down to the frames handed to the card. The
  lemmas show that every function keeps the stack well formed, which includes that no packet it builds
  leaves its buffer, and what the functions put on the wire.
\<close>

subsection \<open>Definitions\<close>

definition net_next_ephemeral :: "'w net \<Rightarrow> u16 \<times> 'w net" where
  "net_next_ephemeral st =
     (let p = ephemeral_next st; n = p + 1 in (p, st\<lparr>ephemeral_next := if n = 0 then 49152 else n\<rparr>))"

definition arp_lookup :: "u32 \<Rightarrow> 'w net \<Rightarrow> bytes option" where
  "arp_lookup ip st =
     map_option ae_mac (find (\<lambda>a. ae_valid a \<and> ae_ip a = ip) (arp_cache st))"

text \<open>The slot of the entry for the address, else the last free one, else the first.\<close>

fun arp_slot :: "arp_entry list \<Rightarrow> u32 \<Rightarrow> nat \<Rightarrow> nat \<Rightarrow> nat" where
  "arp_slot [] ip i slot = slot"
| "arp_slot (a # as) ip i slot =
     (if ae_valid a \<and> ae_ip a = ip then i
      else arp_slot as ip (i + 1) (if \<not> ae_valid a then i else slot))"

definition arp_insert :: "u32 \<Rightarrow> bytes \<Rightarrow> 'w net \<Rightarrow> 'w net" where
  "arp_insert ip mac st = st\<lparr>arp_cache :=
     (arp_cache st)[arp_slot (arp_cache st) ip 0 0 := \<lparr>ae_ip = ip, ae_mac = mac, ae_valid = True\<rparr>]\<rparr>"

definition eth_send :: "'w env \<Rightarrow> bytes \<Rightarrow> u16 \<Rightarrow> bytes \<Rightarrow> 'w net \<Rightarrow> bool \<times> 'w net" where
  "eth_send e dst ethertype l3 st =
     (if 14 + length l3 > 1600 then (False, st\<lparr>net_fault := True\<rparr>)
      else let frame = eth_pack \<lparr>eth_dst = dst, eth_src = my_mac st, eth_type = ethertype\<rparr> @ l3;
               (ok, w) = e_tx e frame (wire st)
           in (ok, st\<lparr>wire := w\<rparr>))"

definition arp_send_request :: "'w env \<Rightarrow> u32 \<Rightarrow> 'w net \<Rightarrow> 'w net" where
  "arp_send_request e target_ip st = snd (eth_send e bcast_mac ETH_ARP (arp_pack
     \<lparr>arp_htype = 1, arp_ptype = ETH_IP, arp_hlen = 6, arp_plen = 4, arp_oper = 1, arp_sha = my_mac st,
      arp_spa = ip_to_bytes (my_ip st), arp_tha = replicate 6 0, arp_tpa = ip_to_bytes target_ip\<rparr>) st)"

definition arp_input :: "'w env \<Rightarrow> bytes \<Rightarrow> 'w net \<Rightarrow> 'w net" where
  "arp_input e data st =
     (if length data < 28 then st
      else case arp_unpack data of
        None \<Rightarrow> st\<lparr>net_fault := True\<rparr>
      | Some a \<Rightarrow>
          if arp_ptype a \<noteq> ETH_IP \<or> arp_plen a \<noteq> 4 then st
          else let sender_ip = bytes_to_ip (arp_spa a); target_ip = bytes_to_ip (arp_tpa a);
                   st1 = arp_insert sender_ip (arp_sha a) st
               in if arp_oper a = 1 \<and> target_ip = my_ip st1
                  then snd (eth_send e (arp_sha a) ETH_ARP (arp_pack
                    \<lparr>arp_htype = 1, arp_ptype = ETH_IP, arp_hlen = 6, arp_plen = 4, arp_oper = 2,
                     arp_sha = my_mac st1, arp_spa = ip_to_bytes (my_ip st1), arp_tha = arp_sha a,
                     arp_tpa = ip_to_bytes sender_ip\<rparr>) st1)
                  else st1)"

fun arp_wait :: "'w env \<Rightarrow> nat \<Rightarrow> u32 \<Rightarrow> u64 \<Rightarrow> 'w net \<Rightarrow> (bytes option \<times> 'w net) option" where
  "arp_wait e 0 ip deadline st = None"
| "arp_wait e (Suc n) ip deadline st =
     (let (now, st) = ktime_ms e st in
      if now < deadline then do {
        st \<leftarrow> e_poll e st;
        (case arp_lookup ip st of
           Some m \<Rightarrow> Some (Some m, st)
         | None \<Rightarrow> arp_wait e n ip deadline st) }
      else Some (None, st))"

definition arp_resolve :: "'w env \<Rightarrow> u32 \<Rightarrow> u32 \<Rightarrow> 'w net \<Rightarrow> (bytes option \<times> 'w net) option" where
  "arp_resolve e ip timeout_ms st =
     (case arp_lookup ip st of
        Some m \<Rightarrow> Some (Some m, st)
      | None \<Rightarrow>
          let st = arp_send_request e ip st; (now, st) = ktime_ms e st in
          arp_wait e (e_fuel e) ip (now + ucast timeout_ms) st)"

definition ip_emit :: "'w env \<Rightarrow> bytes \<Rightarrow> u32 \<Rightarrow> u32 \<Rightarrow> u8 \<Rightarrow> bytes \<Rightarrow> 'w net \<Rightarrow> bool \<times> 'w net" where
  "ip_emit e dmac src_ip dst_ip proto l4 st =
     (if 20 + length l4 > 1600 then (False, st\<lparr>net_fault := True\<rparr>)
      else let h = \<lparr>ip_ver_ihl = 0x45, ip_tos = 0, ip_tot_len = of_nat (20 + length l4), ip_id = ip_id_ctr st,
                    ip_frag = 0x4000, ip_ttl = 64, ip_proto = proto, ip_csum = 0, ip_src = src_ip,
                    ip_dst = dst_ip\<rparr>;
               st = st\<lparr>ip_id_ctr := ip_id_ctr st + 1\<rparr>;
               h = h\<lparr>ip_csum := inet_csum (ip_pack h)\<rparr>
           in eth_send e dmac ETH_IP (ip_pack h @ l4) st)"

definition next_hop :: "u32 \<Rightarrow> 'w net \<Rightarrow> u32" where
  "next_hop dst_ip st = (if dst_ip AND my_mask st = my_ip st AND my_mask st then dst_ip else my_gw st)"

definition ip_send :: "'w env \<Rightarrow> u32 \<Rightarrow> u8 \<Rightarrow> bytes \<Rightarrow> 'w net \<Rightarrow> (bool \<times> 'w net) option" where
  "ip_send e dst_ip proto l4 st = do {
     (m, st) \<leftarrow> arp_resolve e (next_hop dst_ip st) 1000 st;
     (case m of
        None \<Rightarrow> Some (False, st)
      | Some dmac \<Rightarrow> Some (ip_emit e dmac (my_ip st) dst_ip proto l4 st)) }"

definition ip_send_bcast :: "'w env \<Rightarrow> u32 \<Rightarrow> u8 \<Rightarrow> bytes \<Rightarrow> 'w net \<Rightarrow> bool \<times> 'w net" where
  "ip_send_bcast e src_ip proto l4 st = ip_emit e bcast_mac src_ip 0xFFFFFFFF proto l4 st"

definition PING_ID :: u16 where "PING_ID = 0x4A50"

text \<open>The reply to an echo request: the type and checksum fields are replaced.\<close>

definition icmp_reply :: "bytes \<Rightarrow> bytes" where
  "icmp_reply data =
     (let r = data[0 := ICMP_ECHO_REPLY, 2 := 0, 3 := 0] in store r 2 (le16_bytes (inet_csum r)))"

definition icmp_input :: "'w env \<Rightarrow> u32 \<Rightarrow> bytes \<Rightarrow> 'w net \<Rightarrow> 'w net option" where
  "icmp_input e src_ip data st =
     (if length data < 8 then Some st
      else case icmp_unpack data of
        None \<Rightarrow> Some (st\<lparr>net_fault := True\<rparr>)
      | Some ic \<Rightarrow>
          if icmp_type ic = ICMP_ECHO_REQUEST then
            (if length data > 1500 then Some st
             else map_option snd (ip_send e src_ip IP_PROTO_ICMP (icmp_reply data) st))
          else if icmp_type ic = ICMP_ECHO_REPLY then
            (if icmp_id ic = PING_ID \<and> icmp_seq ic = ping_seq st
             then let (now, st) = ktime_us e st
                  in Some (st\<lparr>ping_rtt_us := now - ping_send_us st, ping_got := True\<rparr>)
             else Some st)
          else Some st)"

subsection \<open>The ARP cache\<close>

lemma arp_slot_spec:
  "(arp_slot as ip i slot = slot \<and> (\<forall>a\<in>set as. ae_valid a \<and> ae_ip a \<noteq> ip)) \<or>
   (\<exists>k<length as. arp_slot as ip i slot = i + k \<and> (\<not> ae_valid (as ! k) \<or> ae_ip (as ! k) = ip) \<and>
     (\<forall>j<k. \<not> (ae_valid (as ! j) \<and> ae_ip (as ! j) = ip)))"
proof (induction as arbitrary: i slot)
  case (Cons a as)
  show ?case
  proof (cases "ae_valid a \<and> ae_ip a = ip")
    case True
    then show ?thesis by (intro disjI2 exI [of _ 0]) simp
  next
    case False
    define slot' where "slot' = (if \<not> ae_valid a then i else slot)"
    have step: "arp_slot (a # as) ip i slot = arp_slot as ip (i + 1) slot'" using False by (auto simp: slot'_def)
    consider (none) "arp_slot as ip (i + 1) slot' = slot'" "\<forall>a\<in>set as. ae_valid a \<and> ae_ip a \<noteq> ip"
      | (some) k where "k < length as" "arp_slot as ip (i + 1) slot' = i + 1 + k"
        "\<not> ae_valid (as ! k) \<or> ae_ip (as ! k) = ip" "\<forall>j<k. \<not> (ae_valid (as ! j) \<and> ae_ip (as ! j) = ip)"
      using Cons.IH [of "i + 1" slot'] by blast
    then show ?thesis
    proof cases
      case none
      show ?thesis
      proof (cases "ae_valid a")
        case True
        with none False show ?thesis unfolding step by (intro disjI1) (simp add: slot'_def)
      next
        case inv: False
        with none show ?thesis unfolding step by (intro disjI2 exI [of _ 0]) (simp add: slot'_def)
      qed
    next
      case (some k)
      then show ?thesis unfolding step using False by (intro disjI2 exI [of _ "Suc k"]) (simp add: All_less_Suc2)
    qed
  qed
qed simp

lemma arp_slot_first:
  assumes "as \<noteq> []"
  shows "arp_slot as ip 0 0 < length as"
    and "j < arp_slot as ip 0 0 \<Longrightarrow> \<not> (ae_valid (as ! j) \<and> ae_ip (as ! j) = ip)"
    and "\<exists>a\<in>set as. \<not> ae_valid a \<or> ae_ip a = ip \<Longrightarrow>
      \<not> ae_valid (as ! arp_slot as ip 0 0) \<or> ae_ip (as ! arp_slot as ip 0 0) = ip"
  using arp_slot_spec [of as ip 0 0] assms by auto

lemma find_update:
  "s < length xs \<Longrightarrow> P y \<Longrightarrow> (\<And>j. j < s \<Longrightarrow> \<not> P (xs ! j)) \<Longrightarrow> find P (xs[s := y]) = Some y"
  by (subst find_Some_iff) (auto intro!: exI [of _ s])

lemma find_update_other: "\<not> P y \<Longrightarrow> \<not> P (xs ! s) \<Longrightarrow> find P (xs[s := y]) = find P xs"
  by (induction xs arbitrary: s) (auto split: nat.splits)

lemma arp_lookup_insert:
  assumes "arp_cache st \<noteq> []"
  shows "arp_lookup ip (arp_insert ip mac st) = Some mac"
  using arp_slot_first(1,2) [OF assms]
  by (simp add: arp_lookup_def arp_insert_def find_update)

lemma arp_lookup_insert_other:
  assumes "arp_cache st \<noteq> []" "ip' \<noteq> ip" "\<exists>a\<in>set (arp_cache st). \<not> ae_valid a \<or> ae_ip a = ip"
  shows "arp_lookup ip' (arp_insert ip mac st) = arp_lookup ip' st"
  using arp_slot_first(3) [OF assms(1,3)] assms(2)
  by (auto simp: arp_lookup_def arp_insert_def find_update_other)

subsection \<open>The stack stays well formed\<close>

lemma arp_unpack_total: "28 \<le> length data \<Longrightarrow> \<exists>a. arp_unpack data = Some a \<and> length (arp_sha a) = 6"
  by (simp add: arp_unpack_def get_be16_def get_bytes_def rd_def)

lemma icmp_unpack_total: "8 \<le> length data \<Longrightarrow> \<exists>a. icmp_unpack data = Some a \<and> icmp_type a = data ! 0"
  by (cases data) (auto simp: icmp_unpack_def get_be16_def get_le16_def rd_def)

lemma length_arp_pack:
  "length (arp_sha a) = 6 \<Longrightarrow> length (arp_spa a) = 4 \<Longrightarrow> length (arp_tha a) = 6 \<Longrightarrow> length (arp_tpa a) = 4 \<Longrightarrow>
   length (arp_pack a) = 28"
  by (simp add: arp_pack_def)

lemma net_ok_fields [simp]:
  "net_ok (st\<lparr>ip_id_ctr := i\<rparr>) = net_ok st" "net_ok (st\<lparr>ephemeral_next := p\<rparr>) = net_ok st"
  "net_ok (st\<lparr>ping_got := g\<rparr>) = net_ok st" "net_ok (st\<lparr>ping_seq := s\<rparr>) = net_ok st"
  "net_ok (st\<lparr>ping_send_us := t\<rparr>) = net_ok st" "net_ok (st\<lparr>ping_rtt_us := t\<rparr>) = net_ok st"
  "net_ok (st\<lparr>my_ip := a\<rparr>) = net_ok st" "net_ok (st\<lparr>my_mask := a\<rparr>) = net_ok st"
  "net_ok (st\<lparr>my_gw := a\<rparr>) = net_ok st" "net_ok (st\<lparr>ready := b\<rparr>) = net_ok st"
  by (simp_all add: net_ok_def)

lemma net_ok_ephemeral [preserves]: "net_next_ephemeral st = (p, st') \<Longrightarrow> net_ok st' = net_ok st"
  by (auto simp: net_next_ephemeral_def Let_def)

lemma net_ok_arp_insert [preserves]: "net_ok st \<Longrightarrow> length mac = 6 \<Longrightarrow> net_ok (arp_insert ip mac st)"
  by (auto simp: net_ok_def arp_insert_def list_all_iff dest!: set_update_subset_insert [THEN subsetD])

lemma net_ok_eth_send [preserves]:
  "net_ok st \<Longrightarrow> length l3 \<le> 1586 \<Longrightarrow> eth_send e dst t l3 st = (ok, st') \<Longrightarrow> net_ok st'"
  by (auto simp: eth_send_def Let_def split: if_splits prod.splits)

lemma net_ok_arp_send_request [preserves]: "net_ok st \<Longrightarrow> net_ok (arp_send_request e ip st)"
  unfolding arp_send_request_def
  by (rule net_ok_eth_send [OF _ _ surjective_pairing]) (simp_all add: arp_pack_def net_ok_def)

lemma net_ok_arp_input [preserves]:
  assumes "net_ok st"
  shows "net_ok (arp_input e data st)"
proof (cases "length data < 28")
  case False
  then obtain a where a: "arp_unpack data = Some a" "length (arp_sha a) = 6"
    using arp_unpack_total [of data] by auto
  let ?st = "arp_insert (bytes_to_ip (arp_spa a)) (arp_sha a) st"
  have "net_ok ?st" using assms a(2) by (rule net_ok_arp_insert)
  moreover have "net_ok (snd (eth_send e dst t (arp_pack p) ?st))"
    if "length (arp_pack p) = 28" for dst t p
    using \<open>net_ok ?st\<close> that by (intro net_ok_eth_send [OF _ _ surjective_pairing]) auto
  moreover have "length (my_mac ?st) = 6" using \<open>net_ok ?st\<close> by (simp add: net_ok_def)
  ultimately show ?thesis using assms a False by (simp add: arp_input_def Let_def length_arp_pack)
qed (use assms in \<open>simp add: arp_input_def\<close>)

lemma net_ok_ip_emit [preserves]:
  "net_ok st \<Longrightarrow> length l4 \<le> 1566 \<Longrightarrow> ip_emit e dmac s d p l4 st = (ok, st') \<Longrightarrow> net_ok st'"
  by (auto simp: ip_emit_def Let_def intro: net_ok_eth_send [rotated 2])

lemma net_ok_ip_send_bcast [preserves]:
  "net_ok st \<Longrightarrow> length l4 \<le> 1566 \<Longrightarrow> ip_send_bcast e s p l4 st = (ok, st') \<Longrightarrow> net_ok st'"
  unfolding ip_send_bcast_def by (rule net_ok_ip_emit)

text \<open>What a layer relies on when it waits: running the pump keeps the stack well formed.\<close>

locale pump =
  fixes e :: "'w env"
  assumes poll_ok: "net_ok st \<Longrightarrow> e_poll e st = Some st' \<Longrightarrow> net_ok st'"
begin

lemma arp_lookup_mac: "net_ok st \<Longrightarrow> arp_lookup ip st = Some m \<Longrightarrow> length m = 6"
  by (auto simp: arp_lookup_def net_ok_def list_all_iff find_Some_iff)

lemma arp_wait_ok:
  "net_ok st \<Longrightarrow> arp_wait e n ip deadline st = Some (m, st') \<Longrightarrow>
   net_ok st' \<and> (\<forall>mac. m = Some mac \<longrightarrow> length mac = 6)"
proof (induction n arbitrary: st)
  case (Suc n)
  obtain now st1 where t: "ktime_ms e st = (now, st1)" by fastforce
  then have ok: "net_ok st1" using Suc.prems(1) net_ok_ktime(1) by blast
  show ?case
    using Suc.prems(2) t ok
    by (auto simp: bind_eq_Some_conv split: if_splits option.splits
        dest!: poll_ok [OF ok] dest: arp_lookup_mac Suc.IH)
qed simp

lemma arp_resolve_ok:
  assumes "net_ok st" "arp_resolve e ip t st = Some (m, st')"
  shows "net_ok st' \<and> (\<forall>mac. m = Some mac \<longrightarrow> length mac = 6)"
proof (cases "arp_lookup ip st")
  case None
  obtain now st1 where k: "ktime_ms e (arp_send_request e ip st) = (now, st1)" by fastforce
  then have "net_ok st1" using assms(1) net_ok_ktime(1) net_ok_arp_send_request by blast
  with None assms(2) k show ?thesis by (auto simp: arp_resolve_def Let_def dest: arp_wait_ok)
next
  case (Some mac)
  with assms show ?thesis by (auto simp: arp_resolve_def dest: arp_lookup_mac)
qed

lemma ip_send_ok:
  assumes "net_ok st" "length l4 \<le> 1566" "ip_send e dst p l4 st = Some (ok, st')"
  shows "net_ok st'"
proof -
  obtain m st1 where r: "arp_resolve e (next_hop dst st) 1000 st = Some (m, st1)"
    and s: "(case m of None \<Rightarrow> Some (False, st1) | Some dmac \<Rightarrow> Some (ip_emit e dmac (my_ip st1) dst p l4 st1)) = Some (ok, st')"
    using assms(3) by (auto simp: ip_send_def bind_eq_Some_conv)
  from arp_resolve_ok [OF assms(1) r] have "net_ok st1" by blast
  with s assms(2) show ?thesis by (auto split: option.splits intro: net_ok_ip_emit)
qed

lemma icmp_input_ok:
  assumes "net_ok st" "icmp_input e src data st = Some st'"
  shows "net_ok st'"
proof (cases "length data < 8")
  case False
  then obtain ic where ic: "icmp_unpack data = Some ic" using icmp_unpack_total [of data] by auto
  have "length (icmp_reply data) = length data" using False by (simp add: icmp_reply_def Let_def)
  then have reply: "net_ok st2"
    if "ip_send e src IP_PROTO_ICMP (icmp_reply data) st = Some (b, st2)" "length data \<le> 1500" for b st2
    using ip_send_ok [OF assms(1) _ that(1)] that(2) by simp
  show ?thesis
    using assms(2) False ic assms(1)
    by (auto simp: icmp_input_def Let_def not_less split: if_splits prod.splits
        dest: net_ok_ktime(2) reply)
qed (use assms in \<open>simp add: icmp_input_def\<close>)

end

subsection \<open>Packets on the wire\<close>

lemma ip_header_verifies:
  fixes h :: ip_hdr
  assumes "ip_csum h = 0"
  shows "inet_csum (ip_pack (h\<lparr>ip_csum := inet_csum (ip_pack h)\<rparr>)) = 0"
proof -
  define a where "a = [ip_ver_ihl h, ip_tos h] @ be16_bytes (ip_tot_len h) @ be16_bytes (ip_id h) @ be16_bytes (ip_frag h) @
     [ip_ttl h, ip_proto h]"
  define b where "b = be32_bytes (ip_src h) @ be32_bytes (ip_dst h)"
  have p: "ip_pack (h\<lparr>ip_csum := c\<rparr>) = a @ le16_bytes c @ b" for c by (simp add: ip_pack_def a_def b_def)
  have "h\<lparr>ip_csum := 0\<rparr> = h" by (rule ip_hdr.equality) (simp_all add: assms)
  then have z: "ip_pack h = a @ [0, 0] @ b" using p [of 0] by (simp add: le16_bytes_def)
  have "length a = 10" "length b = 8" by (simp_all add: a_def b_def)
  then show ?thesis
    unfolding inet_csum_def p z using csum_verify [of a 0 b] by simp
qed

lemma icmp_reply_shape:
  assumes "8 \<le> length data"
  shows "icmp_reply data = [0, data ! 1] @ le16_bytes (inet_csum ([0, data ! 1] @ [0, 0] @ drop 4 data)) @ drop 4 data"
proof -
  obtain t c x y r where d: "data = t # c # x # y # r"
    using assms by (cases data; cases "tl data"; cases "tl (tl data)"; cases "tl (tl (tl data))") auto
  show ?thesis by (simp add: d icmp_reply_def Let_def ICMP_ECHO_REPLY_def store_def numeral_eq_Suc)
qed

lemma icmp_reply_verifies:
  assumes "8 \<le> length data" "length data \<le> 1500"
  shows "inet_csum (icmp_reply data) = 0"
  unfolding icmp_reply_shape [OF assms(1)] inet_csum_def
  using csum_verify [of "[0, data ! 1]" 0 "drop 4 data"] assms(2) by simp

subsection \<open>Properties\<close>

text \<open>C34. After the stack learns a mapping, a lookup of that address finds it. When the cache has a free
  entry or already knew the address, the lookup of every other address is unchanged.\<close>

theorem arp_insert_lookup:
  assumes "length (arp_cache st) = ARP_ENTRIES"
  shows "arp_lookup ip (arp_insert ip mac st) = Some mac \<and>
    ((\<exists>a\<in>set (arp_cache st). \<not> ae_valid a \<or> ae_ip a = ip) \<longrightarrow>
     (\<forall>ip'. ip' \<noteq> ip \<longrightarrow> arp_lookup ip' (arp_insert ip mac st) = arp_lookup ip' st))"
proof -
  have "arp_cache st \<noteq> []" using assms by (auto simp: net_sizes)
  then show ?thesis using arp_lookup_insert arp_lookup_insert_other by blast
qed

theorem arp_insert_lookup_witness:
  "arp_lookup 0x0A000202 (arp_insert 0x0A000202 [1, 2, 3, 4, 5, 6] (net_boot ())) = Some [1, 2, 3, 4, 5, 6] \<and>
   arp_lookup 0x0A000203 (arp_insert 0x0A000202 [1, 2, 3, 4, 5, 6] (net_boot ())) = arp_lookup 0x0A000203 (net_boot ())"
  using arp_insert_lookup [of "net_boot ()" "0x0A000202" "[1, 2, 3, 4, 5, 6]"]
  by (simp add: net_boot_def net_sizes)

text \<open>C20. An echo request from a host whose next hop is in the ARP cache is answered with one frame to
  that hop: an IPv4 header with a correct checksum, addressed back to the sender, around the request's own
  bytes with the type set to reply and a correct ICMP checksum.\<close>

theorem icmp_echo_reply:
  assumes "8 \<le> length data" "length data \<le> 1500" "data ! 0 = ICMP_ECHO_REQUEST"
    and "arp_lookup (next_hop src st) st = Some mac"
  shows "\<exists>h. icmp_input e src data st = Some (st\<lparr>ip_id_ctr := ip_id_ctr st + 1,
        wire := snd (e_tx e (eth_pack \<lparr>eth_dst = mac, eth_src = my_mac st, eth_type = ETH_IP\<rparr> @ ip_pack h @ icmp_reply data)
          (wire st))\<rparr>) \<and>
      inet_csum (ip_pack h) = 0 \<and> ip_src h = my_ip st \<and> ip_dst h = src \<and> ip_proto h = IP_PROTO_ICMP \<and>
      unat (ip_tot_len h) = 20 + length data \<and>
      inet_csum (icmp_reply data) = 0 \<and> icmp_reply data ! 0 = ICMP_ECHO_REPLY \<and> drop 4 (icmp_reply data) = drop 4 data"
proof -
  obtain ic where ic: "icmp_unpack data = Some ic" "icmp_type ic = ICMP_ECHO_REQUEST"
    using icmp_unpack_total [OF assms(1)] assms(3) by auto
  define h0 where "h0 = \<lparr>ip_ver_ihl = 0x45, ip_tos = 0, ip_tot_len = of_nat (20 + length data), ip_id = ip_id_ctr st,
                    ip_frag = 0x4000, ip_ttl = 64, ip_proto = IP_PROTO_ICMP, ip_csum = 0, ip_src = my_ip st,
                    ip_dst = src\<rparr>"
  define h where "h = h0\<lparr>ip_csum := inet_csum (ip_pack h0)\<rparr>"
  have len: "length (icmp_reply data) = length data" using assms(1) by (simp add: icmp_reply_shape le16_bytes_def)
  have "ip_send e src IP_PROTO_ICMP (icmp_reply data) st = Some (ip_emit e mac (my_ip st) src IP_PROTO_ICMP (icmp_reply data) st)"
    using assms(4) by (simp add: ip_send_def arp_resolve_def)
  moreover have "snd (ip_emit e mac (my_ip st) src IP_PROTO_ICMP (icmp_reply data) st) = st\<lparr>ip_id_ctr := ip_id_ctr st + 1,
        wire := snd (e_tx e (eth_pack \<lparr>eth_dst = mac, eth_src = my_mac st, eth_type = ETH_IP\<rparr> @ ip_pack h @ icmp_reply data)
          (wire st))\<rparr>"
    using assms(2) by (simp add: ip_emit_def Let_def len eth_send_def h_def h0_def split: prod.split)
  ultimately have "icmp_input e src data st = Some (st\<lparr>ip_id_ctr := ip_id_ctr st + 1,
        wire := snd (e_tx e (eth_pack \<lparr>eth_dst = mac, eth_src = my_mac st, eth_type = ETH_IP\<rparr> @ ip_pack h @ icmp_reply data)
          (wire st))\<rparr>)"
    using assms(1,2) ic by (simp add: icmp_input_def)
  moreover have "inet_csum (ip_pack h) = 0" unfolding h_def by (rule ip_header_verifies) (simp add: h0_def)
  moreover have "unat (ip_tot_len h) = 20 + length data"
    using assms(2) unat_of_nat_small [of "20 + length data", where ?'a = 16] by (simp add: h_def h0_def)
  moreover have "icmp_reply data ! 0 = ICMP_ECHO_REPLY" "drop 4 (icmp_reply data) = drop 4 data"
    using assms(1) by (simp_all add: icmp_reply_shape le16_bytes_def ICMP_ECHO_REPLY_def)
  ultimately show ?thesis using icmp_reply_verifies [OF assms(1,2)] by (intro exI [of _ h]) (simp add: h_def h0_def)
qed

theorem icmp_echo_reply_witness:
  "\<exists>h. icmp_input \<lparr>e_tx = \<lambda>f w. (True, w @ [f]), e_rx = \<lambda>w. (None, w), e_ms = \<lambda>w. (0, w), e_us = \<lambda>w. (0, w),
        e_ns = \<lambda>w. (0, w), e_poll = Some, e_fuel = 0\<rparr> 0x0A000202 [8, 0, 0, 0, 0x4A, 0x50, 0, 1]
      (arp_insert 0x0A000202 [1, 2, 3, 4, 5, 6] (net_boot [])) =
    Some ((arp_insert 0x0A000202 [1, 2, 3, 4, 5, 6] (net_boot []))\<lparr>ip_id_ctr := 2,
      wire := [eth_pack \<lparr>eth_dst = [1, 2, 3, 4, 5, 6], eth_src = replicate 6 0, eth_type = ETH_IP\<rparr> @ ip_pack h @
        icmp_reply [8, 0, 0, 0, 0x4A, 0x50, 0, 1]]\<rparr>)"
proof -
  let ?st = "arp_insert 0x0A000202 [1, 2, 3, 4, 5, 6] (net_boot []) :: bytes list net"
  have "next_hop 0x0A000202 ?st = 0x0A000202" by (simp add: next_hop_def net_boot_def arp_insert_def)
  moreover have "arp_lookup 0x0A000202 ?st = Some [1, 2, 3, 4, 5, 6]"
    by (rule arp_lookup_insert) (simp add: net_boot_def net_sizes)
  ultimately show ?thesis
    using icmp_echo_reply [of "[8, 0, 0, 0, 0x4A, 0x50, 0, 1]" "0x0A000202" ?st "[1, 2, 3, 4, 5, 6]"
      "\<lparr>e_tx = \<lambda>f w. (True, w @ [f]), e_rx = \<lambda>w. (None, w), e_ms = \<lambda>w. (0, w), e_us = \<lambda>w. (0, w),
        e_ns = \<lambda>w. (0, w), e_poll = Some, e_fuel = 0\<rparr>"]
    by (auto simp: net_boot_def arp_insert_def ICMP_ECHO_REQUEST_def)
qed

end
