(* ===== verification/Udp.thy ===== *)
theory Udp
  imports Net_Ip Ring
begin

text \<open>
  The UDP layer (\<^verbatim>\<open>src/src/udp.c\<close>): datagram output with the pseudo-header checksum, the socket table
  with its receive queues, binding and the blocking receive. The queue of a socket is shown to meet the
  contract of an event queue: what fits is delivered once and in order.
\<close>

subsection \<open>Definitions\<close>

record udp_hdr =
  uh_sport :: u16
  uh_dport :: u16
  uh_len :: u16
  uh_csum :: u16

definition udp_pack :: "udp_hdr \<Rightarrow> bytes" where
  "udp_pack u = be16_bytes (uh_sport u) @ be16_bytes (uh_dport u) @ be16_bytes (uh_len u) @ le16_bytes (uh_csum u)"

definition udp_unpack :: "bytes \<Rightarrow> udp_hdr option" where
  "udp_unpack p = do {
     s \<leftarrow> get_be16 p 0; d \<leftarrow> get_be16 p 2; l \<leftarrow> get_be16 p 4; c \<leftarrow> get_le16 p 6;
     Some \<lparr>uh_sport = s, uh_dport = d, uh_len = l, uh_csum = c\<rparr> }"

text \<open>The packed pseudo-header of the transport checksums.\<close>

definition pseudo_hdr :: "u32 \<Rightarrow> u32 \<Rightarrow> u8 \<Rightarrow> u16 \<Rightarrow> bytes" where
  "pseudo_hdr src_ip dst_ip proto seglen =
     be32_bytes src_ip @ be32_bytes dst_ip @ [0, proto] @ be16_bytes seglen"

definition udp_checksum :: "u32 \<Rightarrow> u32 \<Rightarrow> bytes \<Rightarrow> u16" where
  "udp_checksum src_ip dst_ip seg =
     (let s = csum_add 0 (pseudo_hdr src_ip dst_ip IP_PROTO_UDP (of_nat (length seg)));
          c = csum_fold (csum_add s seg)
      in if c \<noteq> 0 then c else 0xFFFF)"

definition udp_segment :: "u32 \<Rightarrow> u16 \<Rightarrow> u32 \<Rightarrow> u16 \<Rightarrow> bytes \<Rightarrow> bytes" where
  "udp_segment src_ip sport dst_ip dport data =
     (let h = \<lparr>uh_sport = sport, uh_dport = dport, uh_len = of_nat (8 + length data), uh_csum = 0\<rparr>
      in udp_pack (h\<lparr>uh_csum := udp_checksum src_ip dst_ip (udp_pack h @ data)\<rparr>) @ data)"

definition udp_output :: "'w env \<Rightarrow> u16 \<Rightarrow> u32 \<Rightarrow> u16 \<Rightarrow> bytes \<Rightarrow> 'w net \<Rightarrow> (bool \<times> 'w net) option" where
  "udp_output e sport dst_ip dport data st =
     (let data = (if length data > UDP_MSG_MAX then take UDP_MSG_MAX data else data)
      in ip_send e dst_ip IP_PROTO_UDP (udp_segment (my_ip st) sport dst_ip dport data) st)"

text \<open>A received datagram at the end of a socket's queue, unless it is full.\<close>

definition udp_enqueue :: "u32 \<times> u16 \<times> bytes \<Rightarrow> udp_socket \<Rightarrow> udp_socket" where
  "udp_enqueue m s = (case m of (src_ip, src_port, payload) \<Rightarrow>
     if us_count s \<ge> UDP_QUEUE then s
     else let i = (us_head s + us_count s) mod UDP_QUEUE;
              n = (if length payload > UDP_MSG_MAX then UDP_MSG_MAX else length payload);
              d = \<lparr>dg_src_ip = src_ip, dg_src_port = src_port, dg_len = of_nat n,
                   dg_data = store (dg_data (us_q s ! i)) 0 (take n payload)\<rparr>
          in s\<lparr>us_q := (us_q s)[i := d], us_count := us_count s + 1\<rparr>)"

definition udp_target :: "u16 \<Rightarrow> 'w net \<Rightarrow> nat option" where
  "udp_target dport st =
     find (\<lambda>i. us_in_use (udp_socks st ! i) \<and> us_port (udp_socks st ! i) = dport) [0..<UDP_SOCKETS]"

definition udp_input :: "u32 \<Rightarrow> bytes \<Rightarrow> 'w net \<Rightarrow> 'w net" where
  "udp_input src_ip data st =
     (if length data < 8 then st
      else case udp_unpack data of
        None \<Rightarrow> st\<lparr>net_fault := True\<rparr>
      | Some u \<Rightarrow>
          if unat (uh_len u) < 8 \<or> unat (uh_len u) > length data then st
          else let payload = take (unat (uh_len u) - 8) (drop 8 data) in
            case udp_target (uh_dport u) st of
              None \<Rightarrow> st
            | Some i \<Rightarrow> st\<lparr>udp_socks := (udp_socks st)[i :=
                 udp_enqueue (src_ip, uh_sport u, payload) (udp_socks st ! i)]\<rparr>)"

definition port_in_use :: "u16 \<Rightarrow> 'w net \<Rightarrow> bool" where
  "port_in_use port st \<longleftrightarrow> udp_target port st \<noteq> None"

definition net_udp_open :: "'w net \<Rightarrow> int \<times> 'w net" where
  "net_udp_open st =
     (case find (\<lambda>i. \<not> us_in_use (udp_socks st ! i)) [0..<UDP_SOCKETS] of
        None \<Rightarrow> (-1, st)
      | Some i \<Rightarrow> (int i, st\<lparr>udp_socks := (udp_socks st)[i :=
           (udp_socks st ! i)\<lparr>us_in_use := True, us_port := 0, us_head := 0, us_count := 0\<rparr>]\<rparr>))"

definition udp_valid :: "int \<Rightarrow> 'w net \<Rightarrow> bool" where
  "udp_valid s st \<longleftrightarrow> \<not> (s < 0 \<or> s \<ge> int UDP_SOCKETS \<or> \<not> us_in_use (udp_socks st ! nat s))"

fun bind_tries :: "nat \<Rightarrow> 'w net \<Rightarrow> u16 \<times> 'w net" where
  "bind_tries 0 st = (0, st)"
| "bind_tries (Suc n) st =
     (let (p, st) = net_next_ephemeral st in if \<not> port_in_use p st then (p, st) else bind_tries n st)"

definition set_port :: "nat \<Rightarrow> u16 \<Rightarrow> 'w net \<Rightarrow> 'w net" where
  "set_port i port st = st\<lparr>udp_socks := (udp_socks st)[i := (udp_socks st ! i)\<lparr>us_port := port\<rparr>]\<rparr>"

definition net_udp_bind :: "int \<Rightarrow> u16 \<Rightarrow> 'w net \<Rightarrow> bool \<times> 'w net" where
  "net_udp_bind s port st =
     (if \<not> udp_valid s st then (False, st)
      else if port = 0 then
        let (port, st) = bind_tries 16384 st in
        if port = 0 then (False, st) else (True, set_port (nat s) port st)
      else if port_in_use port st then (False, st)
      else (True, set_port (nat s) port st))"

definition net_udp_sendto :: "'w env \<Rightarrow> int \<Rightarrow> u32 \<Rightarrow> u16 \<Rightarrow> bytes \<Rightarrow> 'w net \<Rightarrow> (bool \<times> 'w net) option" where
  "net_udp_sendto e s dst_ip dport data st =
     (if \<not> udp_valid s st \<or> \<not> ready st then Some (False, st)
      else let (bound, st) = (if us_port (udp_socks st ! nat s) = 0 then net_udp_bind s 0 st else (True, st)) in
        if \<not> bound then Some (False, st)
        else udp_output e (us_port (udp_socks st ! nat s)) dst_ip dport data st)"

fun udp_wait :: "'w env \<Rightarrow> nat \<Rightarrow> nat \<Rightarrow> u64 \<Rightarrow> 'w net \<Rightarrow> (bool \<times> 'w net) option" where
  "udp_wait e 0 i deadline st = None"
| "udp_wait e (Suc n) i deadline st =
     (if us_count (udp_socks st ! i) \<noteq> 0 then Some (True, st)
      else do {
        st \<leftarrow> e_poll e st;
        let (now, st) = ktime_ms e st in
        if now \<ge> deadline then Some (False, st) else udp_wait e n i deadline st })"

text \<open>The oldest datagram: its true length, the bytes copied into a buffer of \<open>cap\<close> bytes, its source.\<close>

definition udp_dequeue :: "nat \<Rightarrow> udp_socket \<Rightarrow> (nat \<times> bytes \<times> u32 \<times> u16) \<times> udp_socket" where
  "udp_dequeue cap s =
     (let d = us_q s ! us_head s;
          copy = (if unat (dg_len d) > cap then cap else unat (dg_len d))
      in ((unat (dg_len d), take copy (dg_data d), dg_src_ip d, dg_src_port d),
          s\<lparr>us_head := (us_head s + 1) mod UDP_QUEUE, us_count := us_count s - 1\<rparr>))"

datatype udp_recv = Udp_error | Udp_dgram nat bytes u32 u16

definition net_udp_recvfrom :: "'w env \<Rightarrow> int \<Rightarrow> u32 \<Rightarrow> nat \<Rightarrow> 'w net \<Rightarrow> (udp_recv \<times> 'w net) option" where
  "net_udp_recvfrom e s timeout_ms cap st =
     (if \<not> udp_valid s st then Some (Udp_error, st)
      else let (now, st) = ktime_ms e st in do {
        (got, st) \<leftarrow> udp_wait e (e_fuel e) (nat s) (now + ucast timeout_ms) st;
        if \<not> got then Some (Udp_error, st)
        else let ((n, data, ip, port), sk) = udp_dequeue cap (udp_socks st ! nat s) in
          Some (Udp_dgram n data ip port, st\<lparr>udp_socks := (udp_socks st)[nat s := sk]\<rparr>) })"

definition net_udp_close :: "int \<Rightarrow> 'w net \<Rightarrow> 'w net" where
  "net_udp_close s st =
     (if s \<ge> 0 \<and> s < int UDP_SOCKETS
      then st\<lparr>udp_socks := (udp_socks st)[nat s := (udp_socks st ! nat s)\<lparr>us_in_use := False\<rparr>]\<rparr>
      else st)"

subsection \<open>The receive queue\<close>

definition dgram_msg :: "udp_dgram \<Rightarrow> u32 \<times> u16 \<times> bytes" where
  "dgram_msg d = (dg_src_ip d, dg_src_port d, take (unat (dg_len d)) (dg_data d))"

definition sock_list :: "udp_socket \<Rightarrow> (u32 \<times> u16 \<times> bytes) list" where
  "sock_list s = map dgram_msg (cring_list UDP_QUEUE (us_q s) (us_head s) (us_count s))"

definition udp_trim :: "u32 \<times> u16 \<times> bytes \<Rightarrow> u32 \<times> u16 \<times> bytes" where
  "udp_trim m = (fst m, fst (snd m), take UDP_MSG_MAX (snd (snd m)))"

definition udp_pop :: "udp_socket \<Rightarrow> ((u32 \<times> u16 \<times> bytes) \<times> udp_socket) option" where
  "udp_pop s = (if us_count s = 0 then None
     else let ((n, data, ip, port), s') = udp_dequeue UDP_MSG_MAX s in Some ((ip, port, data), s'))"

lemma length_sock_list [simp]: "length (sock_list s) = us_count s"
  by (simp add: sock_list_def)

lemma udp_enqueue_full: "UDP_QUEUE \<le> us_count s \<Longrightarrow> udp_enqueue m s = s"
  by (simp add: udp_enqueue_def split: prod.split)

lemma udp_enqueue_room:
  assumes ok: "sock_ok s" and room: "us_count s < UDP_QUEUE"
  shows "sock_ok (udp_enqueue m s)" "sock_list (udp_enqueue m s) = sock_list s @ [udp_trim m]"
proof -
  obtain ip port payload where m: "m = (ip, port, payload)" by (cases m)
  define i where "i = (us_head s + us_count s) mod UDP_QUEUE"
  define n where "n = (if length payload > UDP_MSG_MAX then UDP_MSG_MAX else length payload)"
  define d where "d = \<lparr>dg_src_ip = ip, dg_src_port = port, dg_len = of_nat n,
    dg_data = store (dg_data (us_q s ! i)) 0 (take n payload)\<rparr>"
  have e: "udp_enqueue m s = s\<lparr>us_q := (us_q s)[i := d], us_count := us_count s + 1\<rparr>"
    using room by (simp add: udp_enqueue_def m Let_def i_def n_def d_def)
  have i: "i < length (us_q s)" using ok by (simp add: i_def sock_ok_def net_sizes)
  then have q: "length (dg_data (us_q s ! i)) = UDP_MSG_MAX" using ok by (auto simp: sock_ok_def dgram_ok_def list_all_iff)
  have n: "n \<le> UDP_MSG_MAX" "n \<le> length payload" "take n payload = take UDP_MSG_MAX payload" by (auto simp: n_def)
  then have un: "unat (of_nat n :: u16) = n" by (intro unat_of_nat_small) (simp add: net_sizes)
  have "dgram_ok d" using n q un by (simp add: dgram_ok_def d_def)
  then show "sock_ok (udp_enqueue m s)"
    using ok room by (auto simp: e sock_ok_def list_all_iff dest!: set_update_subset_insert [THEN subsetD])
  have "take n (dg_data d) = take n payload" using n by (simp add: d_def store_def)
  then have "dgram_msg d = udp_trim m" using un n(3) by (simp add: dgram_msg_def d_def udp_trim_def m)
  moreover have "cring_list UDP_QUEUE ((us_q s)[i := d]) (us_head s) (Suc (us_count s)) =
      cring_list UDP_QUEUE (us_q s) (us_head s) (us_count s) @ [d]"
    unfolding i_def using ok room by (intro cring_push) (simp_all add: sock_ok_def)
  ultimately show "sock_list (udp_enqueue m s) = sock_list s @ [udp_trim m]" by (simp add: sock_list_def e)
qed

lemma udp_dequeue_msg:
  assumes ok: "sock_ok s" and ne: "us_count s \<noteq> 0" and d: "udp_dequeue cap s = ((n, data, ip, port), s')"
  shows "sock_ok s'" "\<exists>full. sock_list s = (ip, port, full) # sock_list s' \<and> n = length full \<and> data = take cap full"
proof -
  let ?d = "us_q s ! us_head s"
  have s': "s' = s\<lparr>us_head := (us_head s + 1) mod UDP_QUEUE, us_count := us_count s - 1\<rparr>"
    and v: "n = unat (dg_len ?d)" "ip = dg_src_ip ?d" "port = dg_src_port ?d"
      "data = take (if unat (dg_len ?d) > cap then cap else unat (dg_len ?d)) (dg_data ?d)"
    using d by (auto simp: udp_dequeue_def Let_def)
  have dok: "dgram_ok ?d" using ok by (auto simp: sock_ok_def list_all_iff)
  show "sock_ok s'" using ok by (auto simp: s' sock_ok_def net_sizes)
  have "cring_list UDP_QUEUE (us_q s) (us_head s) (us_count s) =
      ?d # cring_list UDP_QUEUE (us_q s) ((us_head s + 1) mod UDP_QUEUE) (us_count s - 1)"
    using ne ok by (intro cring_Cons) (auto simp: sock_ok_def)
  then have "sock_list s = dgram_msg ?d # sock_list s'" by (simp add: sock_list_def s')
  then show "\<exists>full. sock_list s = (ip, port, full) # sock_list s' \<and> n = length full \<and> data = take cap full"
    using dok by (intro exI [of _ "take (unat (dg_len ?d)) (dg_data ?d)"])
      (auto simp: v dgram_msg_def dgram_ok_def min_def)
qed

lemma sock_msg_bound:
  assumes "sock_ok s" "(ip, port, full) \<in> set (sock_list s)"
  shows "length full \<le> UDP_MSG_MAX"
proof -
  obtain i where "i < us_count s" and f: "(ip, port, full) = dgram_msg (us_q s ! ((us_head s + i) mod UDP_QUEUE))"
    using assms(2) by (auto simp: sock_list_def cring_list_def)
  have "us_q s ! ((us_head s + i) mod UDP_QUEUE) \<in> set (us_q s)" using assms(1) by (simp add: sock_ok_def net_sizes)
  then have "dgram_ok (us_q s ! ((us_head s + i) mod UDP_QUEUE))" using assms(1) by (simp add: sock_ok_def list_all_iff)
  with f show ?thesis by (auto simp: dgram_msg_def dgram_ok_def)
qed

lemma udp_pop_msg:
  assumes "sock_ok s" "udp_pop s = Some (m, s')"
  shows "sock_ok s' \<and> sock_list s = m # sock_list s'"
proof -
  obtain n data ip port sk where d: "udp_dequeue UDP_MSG_MAX s = ((n, data, ip, port), sk)" by (metis prod.exhaust)
  with assms(2) have ne: "us_count s \<noteq> 0" and m: "m = (ip, port, data)" "s' = sk"
    by (auto simp: udp_pop_def split: if_splits)
  from udp_dequeue_msg [OF assms(1) ne d] obtain full where f: "sock_ok sk" "sock_list s = (ip, port, full) # sock_list sk"
    "data = take UDP_MSG_MAX full" by blast
  then have "length full \<le> UDP_MSG_MAX" by (intro sock_msg_bound [OF assms(1), of ip port]) simp
  with f m show ?thesis by simp
qed

interpretation uq: event_queue sock_ok sock_list UDP_QUEUE udp_trim udp_enqueue udp_pop
proof unfold_locales
  fix s :: udp_socket assume ok: "sock_ok s"
  show "sock_ok (udp_enqueue m s)" for m
    using ok udp_enqueue_room [OF ok] udp_enqueue_full by (metis not_le)
  show "sock_list (udp_enqueue m s) = (if length (sock_list s) < UDP_QUEUE then sock_list s @ [udp_trim m] else sock_list s)" for m
    using udp_enqueue_room [OF ok] udp_enqueue_full by simp
  show "udp_pop s = None \<longleftrightarrow> sock_list s = []"
    by (auto simp: udp_pop_def simp flip: length_0_conv split: prod.splits)
  show "udp_pop s = Some (m, s') \<Longrightarrow> sock_ok s' \<and> sock_list s = m # sock_list s'" for m s'
    by (rule udp_pop_msg [OF ok])
  show "length (sock_list s) \<le> UDP_QUEUE" using ok by (simp add: sock_ok_def)
qed

subsection \<open>The stack stays well formed\<close>

lemma length_udp_pack [simp]: "length (udp_pack u) = 8"
  by (simp add: udp_pack_def)

lemma length_udp_segment [simp]: "length (udp_segment s sp d dp data) = 8 + length data"
  by (simp add: udp_segment_def Let_def)

lemma udp_unpack_total: "8 \<le> length data \<Longrightarrow> \<exists>u. udp_unpack data = Some u"
  by (simp add: udp_unpack_def get_be16_def get_le16_def)

lemma udp_unpack_pack: "udp_unpack (udp_pack u @ rest) = Some u"
  by (simp add: udp_unpack_def udp_pack_def be16_bytes_def le16_bytes_def get_be16_def get_le16_def)

lemma net_ok_sock:
  "net_ok st \<Longrightarrow> i < UDP_SOCKETS \<Longrightarrow> sock_ok (udp_socks st ! i)"
  "net_ok st \<Longrightarrow> sock_ok s \<Longrightarrow> net_ok (st\<lparr>udp_socks := (udp_socks st)[i := s]\<rparr>)"
  by (auto simp: net_ok_def list_all_iff dest!: set_update_subset_insert [THEN subsetD])

lemma sock_ok_fields [simp]:
  "sock_ok (s\<lparr>us_in_use := b\<rparr>) = sock_ok s" "sock_ok (s\<lparr>us_port := p\<rparr>) = sock_ok s"
  by (simp_all add: sock_ok_def)

lemma udp_target_Some:
  "udp_target p st = Some i \<Longrightarrow> i < UDP_SOCKETS \<and> us_in_use (udp_socks st ! i) \<and> us_port (udp_socks st ! i) = p"
  by (simp add: udp_target_def find_upt_Some)

lemma net_ok_udp_input [preserves]: "net_ok st \<Longrightarrow> net_ok (udp_input src data st)"
  using udp_unpack_total [of data]
  by (auto simp: udp_input_def Let_def split: option.splits dest!: udp_target_Some
      intro!: net_ok_sock(2) uq.push_ok intro: net_ok_sock(1))

lemma net_ok_udp_open [preserves]: "net_ok st \<Longrightarrow> net_udp_open st = (r, st') \<Longrightarrow> net_ok st'"
proof -
  assume ok: "net_ok st" and o: "net_udp_open st = (r, st')"
  show "net_ok st'"
  proof (cases "find (\<lambda>i. \<not> us_in_use (udp_socks st ! i)) [0..<UDP_SOCKETS]")
    case None
    with ok o show ?thesis by (simp add: net_udp_open_def)
  next
    case (Some i)
    then have "i < UDP_SOCKETS" by (simp add: find_upt_Some)
    with net_ok_sock(1) [OF ok] have "sock_ok ((udp_socks st ! i)\<lparr>us_in_use := True, us_port := 0, us_head := 0, us_count := 0\<rparr>)"
      by (simp add: sock_ok_def net_sizes)
    with Some ok o show ?thesis by (auto simp: net_udp_open_def intro: net_ok_sock(2))
  qed
qed

lemma udp_valid_bound: "udp_valid s st \<Longrightarrow> nat s < UDP_SOCKETS"
  by (auto simp: udp_valid_def)

lemma net_ok_set_port: "net_ok st \<Longrightarrow> i < UDP_SOCKETS \<Longrightarrow> net_ok (set_port i p st)"
  unfolding set_port_def using net_ok_sock(1) by (intro net_ok_sock(2)) simp_all

lemma bind_tries_frame:
  "bind_tries n st = (p, st') \<Longrightarrow> net_ok st' = net_ok st \<and> udp_socks st' = udp_socks st \<and> tcp_conns st' = tcp_conns st"
  by (induction n arbitrary: st)
    (auto simp: net_next_ephemeral_def Let_def split: if_splits prod.splits)

lemma net_ok_udp_bind [preserves]: "net_ok st \<Longrightarrow> net_udp_bind s port st = (r, st') \<Longrightarrow> net_ok st'"
  using bind_tries_frame [of 16384 st] udp_valid_bound [of s st]
  by (auto simp: net_udp_bind_def split: if_splits prod.splits intro!: net_ok_set_port)

lemma net_ok_udp_close [preserves]: "net_ok st \<Longrightarrow> net_ok (net_udp_close s st)"
  by (auto simp: net_udp_close_def intro!: net_ok_sock net_ok_sock(2))

context pump
begin

lemma udp_output_ok:
  assumes "net_ok st" "udp_output e sport dst dport data st = Some (ok, st')"
  shows "net_ok st'"
  using assms(2) unfolding udp_output_def Let_def
  by (rule ip_send_ok [OF assms(1), rotated]) (simp add: net_sizes)

lemma udp_sendto_ok:
  assumes "net_ok st" "net_udp_sendto e s dst dport data st = Some (ok, st')"
  shows "net_ok st'"
proof (cases "udp_valid s st \<and> ready st")
  case True
  define b where "b = (if us_port (udp_socks st ! nat s) = 0 then net_udp_bind s 0 st else (True, st))"
  have "net_ok (snd b)" using assms(1) net_ok_udp_bind [OF assms(1) surjective_pairing] by (simp add: b_def)
  then show ?thesis
    using assms(2) True unfolding net_udp_sendto_def b_def [symmetric]
    by (auto split: prod.splits if_splits intro: udp_output_ok)
qed (use assms in \<open>auto simp: net_udp_sendto_def\<close>)

lemma udp_wait_ok: "net_ok st \<Longrightarrow> udp_wait e n i deadline st = Some (got, st') \<Longrightarrow> net_ok st'"
proof (induction n arbitrary: st)
  case (Suc n)
  show ?case
  proof (cases "us_count (udp_socks st ! i) = 0")
    case True
    with Suc.prems(2) obtain st1 where p: "e_poll e st = Some st1" by (auto simp: bind_eq_Some_conv)
    obtain now st2 where k: "ktime_ms e st1 = (now, st2)" by fastforce
    then have "net_ok st2" using poll_ok [OF Suc.prems(1) p] net_ok_ktime(1) by blast
    with Suc.prems(2) True p k show ?thesis by (auto split: if_splits dest: Suc.IH)
  qed (use Suc.prems in simp)
qed simp

lemma udp_recvfrom_ok:
  assumes "net_ok st" "net_udp_recvfrom e s t cap st = Some (r, st')"
  shows "net_ok st'"
proof (cases "udp_valid s st")
  case True
  obtain now st1 where k: "ktime_ms e st = (now, st1)" by fastforce
  with True assms(2) obtain got st2 where w: "udp_wait e (e_fuel e) (nat s) (now + ucast t) st1 = Some (got, st2)"
    by (auto simp: net_udp_recvfrom_def bind_eq_Some_conv)
  have ok: "net_ok st2" using assms(1) k udp_wait_ok [OF _ w] net_ok_ktime(1) by blast
  obtain m sk where d: "udp_dequeue cap (udp_socks st2 ! nat s) = (m, sk)" by fastforce
  have "sock_ok (udp_socks st2 ! nat s)" using ok True udp_valid_bound by (intro net_ok_sock(1))
  then have "sock_ok sk" using d by (auto simp: udp_dequeue_def Let_def sock_ok_def net_sizes)
  with ok True k w d assms(2) show ?thesis
    by (auto simp: net_udp_recvfrom_def split: if_splits prod.splits intro: net_ok_sock(2))
qed (use assms in \<open>simp add: net_udp_recvfrom_def\<close>)

end

subsection \<open>Checksums\<close>

lemma pseudo_hdr_sum: "wsum (pseudo_hdr s d p n) \<le> 65535 * 12" and length_pseudo_hdr: "length (pseudo_hdr s d p n) = 12"
proof -
  show l: "length (pseudo_hdr s d p n) = 12" by (simp add: pseudo_hdr_def)
  show "wsum (pseudo_hdr s d p n) \<le> 65535 * 12" using wsum_bound [of "pseudo_hdr s d p n"] unfolding l .
qed

lemma udp_segment_csum:
  assumes "length data \<le> UDP_MSG_MAX"
  shows "csum_fold (csum_add (csum_add 0 (pseudo_hdr src dst IP_PROTO_UDP (of_nat (8 + length data))))
    (udp_segment src sport dst dport data)) = 0"
proof -
  define h where "h = \<lparr>uh_sport = sport, uh_dport = dport, uh_len = of_nat (8 + length data), uh_csum = 0\<rparr>"
  define a where "a = be16_bytes sport @ be16_bytes dport @ be16_bytes (of_nat (8 + length data))"
  define s0 where "s0 = wsum (pseudo_hdr src dst IP_PROTO_UDP (of_nat (8 + length data)))"
  have p: "udp_pack (h\<lparr>uh_csum := c\<rparr>) @ data = a @ le16_bytes c @ data" for c by (simp add: udp_pack_def h_def a_def)
  have z: "udp_pack h @ data = a @ [0, 0] @ data" using p [of 0] by (simp add: h_def le16_bytes_def)
  have s: "csum_add 0 (pseudo_hdr src dst IP_PROTO_UDP (of_nat (8 + length data))) = of_nat s0"
    by (simp add: csum_add_eq s0_def)
  have la: "length a = 6" by (simp add: a_def)
  have b: "s0 + 65535 * (length a + length data) + 65536 \<le> 2 ^ 32"
    using pseudo_hdr_sum [of src dst IP_PROTO_UDP "of_nat (8 + length data)"] assms by (simp add: la s0_def net_sizes)
  define c where "c = csum_fold (csum_add (of_nat s0) (a @ [0, 0] @ data))"
  have "udp_checksum src dst (udp_pack h @ data) = (if c \<noteq> 0 then c else 0xFFFF)"
    unfolding udp_checksum_def Let_def z c_def s [symmetric] using la by simp
  then have "udp_segment src sport dst dport data = a @ le16_bytes (if c \<noteq> 0 then c else 0xFFFF) @ data"
    unfolding udp_segment_def Let_def h_def [symmetric] by (simp only: p)
  then show ?thesis
    unfolding s using csum_verify [OF _ b] csum_verify_ones [OF _ b] la by (simp add: c_def)
qed

subsection \<open>Ephemeral ports\<close>

definition eph_port :: "nat \<Rightarrow> u16" where
  "eph_port k = of_nat (49152 + k mod 16384)"

lemma unat_eph_port: "unat (eph_port k) = 49152 + k mod 16384"
  unfolding eph_port_def by (intro unat_of_nat_small) simp

lemma next_ephemeral_step:
  assumes "ephemeral_next st = eph_port k"
  shows "net_next_ephemeral st = (eph_port k, st\<lparr>ephemeral_next := eph_port (k + 1)\<rparr>)"
proof -
  have "(if eph_port k + 1 = 0 then 49152 else eph_port k + 1) = eph_port (k + 1)"
  proof (cases "k mod 16384 = 16383")
    case True
    then have "(k + 1) mod 16384 = 0" by (simp add: mod_Suc)
    then have "eph_port (k + 1) = 49152" "eph_port k = 65535" using True by (simp_all add: eph_port_def)
    then show ?thesis by simp
  next
    case False
    then have m: "(k + 1) mod 16384 = k mod 16384 + 1" by (simp add: mod_Suc)
    then have s: "eph_port k + 1 = eph_port (k + 1)" by (simp add: eph_port_def)
    have "eph_port (k + 1) \<noteq> 0" using unat_eph_port [of "k + 1"] by auto
    then show ?thesis unfolding s by simp
  qed
  then show ?thesis by (simp add: net_next_ephemeral_def Let_def assms)
qed

lemma port_in_use_frame [simp]: "port_in_use p (st\<lparr>ephemeral_next := x\<rparr>) = port_in_use p st"
  by (simp add: port_in_use_def udp_target_def)

lemma bind_tries_free:
  "ephemeral_next st = eph_port k \<Longrightarrow> j < n \<Longrightarrow> \<not> port_in_use (eph_port (k + j)) st \<Longrightarrow>
   \<exists>i st'. bind_tries n st = (eph_port i, st') \<and> \<not> port_in_use (eph_port i) st"
proof (induction n arbitrary: st k j)
  case (Suc n)
  let ?st = "st\<lparr>ephemeral_next := eph_port (k + 1)\<rparr>"
  show ?case
  proof (cases "port_in_use (eph_port k) st")
    case False
    then show ?thesis by (auto simp: next_ephemeral_step [OF Suc.prems(1)])
  next
    case True
    with Suc.prems(3) obtain j' where j: "j = Suc j'" by (cases j) auto
    have "\<exists>i st'. bind_tries n ?st = (eph_port i, st') \<and> \<not> port_in_use (eph_port i) ?st"
      by (rule Suc.IH [of _ "k + 1" j']) (use Suc.prems j in auto)
    with True show ?thesis by (simp add: next_ephemeral_step [OF Suc.prems(1)])
  qed
qed simp

lemma ports_in_use: "{p. port_in_use p st} \<subseteq> (\<lambda>i. us_port (udp_socks st ! i)) ` {0..<UDP_SOCKETS}"
  by (auto simp: port_in_use_def dest!: udp_target_Some)

lemma free_port_exists: "\<exists>j<9. \<not> port_in_use (eph_port (k + j)) st"
proof (rule ccontr)
  assume "\<not> ?thesis"
  then have sub: "(\<lambda>j. eph_port (k + j)) ` {0..<9} \<subseteq> (\<lambda>i. us_port (udp_socks st ! i)) ` {0..<UDP_SOCKETS}"
    using ports_in_use [of st] by auto
  have "inj_on (\<lambda>j. eph_port (k + j)) {0..<9}"
  proof (rule inj_onI)
    fix i j :: nat
    assume ij: "i \<in> {0..<9}" "j \<in> {0..<9}" and e: "eph_port (k + i) = eph_port (k + j)"
    then have m: "(k + i) mod 16384 = (k + j) mod 16384"
      using unat_eph_port [of "k + i"] unat_eph_port [of "k + j"] by simp
    show "i = j"
      using ring_slots_distinct [of i j 16384 k] ring_slots_distinct [of j i 16384 k] m ij
      by (cases i j rule: linorder_cases) auto
  qed
  then have "card ((\<lambda>j. eph_port (k + j)) ` {0..<9}) = 9" by (simp add: card_image)
  moreover have "card ((\<lambda>i. us_port (udp_socks st ! i)) ` {0..<UDP_SOCKETS}) \<le> 8"
    using card_image_le [of "{0..<UDP_SOCKETS}"] by (simp add: net_sizes)
  moreover have "card ((\<lambda>j. eph_port (k + j)) ` {0..<9}) \<le> card ((\<lambda>i. us_port (udp_socks st ! i)) ` {0..<UDP_SOCKETS})"
    by (rule card_mono [OF _ sub]) simp
  ultimately show False by simp
qed

lemma bind_tries_finds:
  assumes "49152 \<le> unat (ephemeral_next st)"
  shows "\<exists>p st'. bind_tries 16384 st = (p, st') \<and> \<not> port_in_use p st \<and> 49152 \<le> unat p"
proof -
  have "ephemeral_next st = eph_port (unat (ephemeral_next st) - 49152)"
    using assms unat_u16_lt [of "ephemeral_next st"] by (intro word_unat_eq_iff [THEN iffD2]) (simp add: unat_eph_port)
  then obtain k where k: "ephemeral_next st = eph_port k" by blast
  obtain j where "j < 9" "\<not> port_in_use (eph_port (k + j)) st" using free_port_exists by blast
  then obtain i st' where "bind_tries 16384 st = (eph_port i, st')" "\<not> port_in_use (eph_port i) st"
    using bind_tries_free [OF k, of j 16384] by auto
  then show ?thesis using unat_eph_port [of i] by auto
qed

subsection \<open>Properties\<close>

lemma udp_unpack_segment:
  "udp_unpack (udp_segment src sport dst dport data) =
    Some \<lparr>uh_sport = sport, uh_dport = dport, uh_len = of_nat (8 + length data),
      uh_csum = uh_csum (the (udp_unpack (udp_segment src sport dst dport data)))\<rparr>"
  by (simp add: udp_segment_def Let_def udp_unpack_pack)

lemma drop_udp_segment: "drop 8 (udp_segment src sport dst dport data) = data"
  by (simp add: udp_segment_def Let_def)

lemma udp_input_segment:
  assumes "length data \<le> UDP_MSG_MAX" "udp_target dport st = Some i"
  shows "udp_input src (udp_segment src' sport dst dport data) st =
    st\<lparr>udp_socks := (udp_socks st)[i := udp_enqueue (src, sport, data) (udp_socks st ! i)]\<rparr>"
proof -
  have "unat (of_nat (8 + length data) :: u16) = 8 + length data"
    using assms(1) by (intro unat_of_nat_small) (simp add: net_sizes)
  moreover obtain c where "udp_unpack (udp_segment src' sport dst dport data) =
      Some \<lparr>uh_sport = sport, uh_dport = dport, uh_len = of_nat (8 + length data), uh_csum = c\<rparr>"
    using udp_unpack_segment by blast
  ultimately show ?thesis using assms(2) by (simp add: udp_input_def drop_udp_segment del: of_nat_add)
qed

lemma udp_deliver_facts:
  assumes "net_ok st" "udp_target dport st = Some i" "us_count (udp_socks st ! i) < UDP_QUEUE"
    and "length data \<le> UDP_MSG_MAX" and "0 < e_fuel e"
  shows "csum_fold (csum_add (csum_add 0 (pseudo_hdr src dst IP_PROTO_UDP (of_nat (8 + length data))))
      (udp_segment src sport dst dport data)) = 0"
    and "sock_list (udp_socks (udp_input src (udp_segment src sport dst dport data) st) ! i) =
      sock_list (udp_socks st ! i) @ [(src, sport, data)]"
    and "us_count (udp_socks st ! i) = 0 \<Longrightarrow>
      \<exists>st'. net_udp_recvfrom e (int i) t cap (udp_input src (udp_segment src sport dst dport data) st) =
        Some (Udp_dgram (length data) (take cap data) src sport, st') \<and> sock_list (udp_socks st' ! i) = []"
proof -
  show "csum_fold (csum_add (csum_add 0 (pseudo_hdr src dst IP_PROTO_UDP (of_nat (8 + length data))))
      (udp_segment src sport dst dport data)) = 0"
    using assms(4) by (rule udp_segment_csum)
  define st1 where "st1 = udp_input src (udp_segment src sport dst dport data) st"
  have i: "i < UDP_SOCKETS" "us_in_use (udp_socks st ! i)" using udp_target_Some [OF assms(2)] by auto
  have li: "i < length (udp_socks st)" using assms(1) i by (simp add: net_ok_def)
  have ok: "sock_ok (udp_socks st ! i)" using assms(1) i(1) by (rule net_ok_sock(1))
  have s1: "udp_socks st1 ! i = udp_enqueue (src, sport, data) (udp_socks st ! i)"
    using li by (simp add: st1_def udp_input_segment [OF assms(4,2)])
  have trim: "udp_trim (src, sport, data) = (src, sport, data)" using assms(4) by (simp add: udp_trim_def)
  then show q: "sock_list (udp_socks (udp_input src (udp_segment src sport dst dport data) st) ! i) =
      sock_list (udp_socks st ! i) @ [(src, sport, data)]"
    using udp_enqueue_room(2) [OF ok assms(3)] s1 by (simp add: st1_def)
  assume empty: "us_count (udp_socks st ! i) = 0"
  then have q1: "sock_list (udp_socks st1 ! i) = [(src, sport, data)]" using q by (simp add: st1_def flip: length_0_conv)
  then have c1: "us_count (udp_socks st1 ! i) = 1" using length_sock_list [of "udp_socks st1 ! i"] by simp
  have "us_in_use (udp_socks st1 ! i)" using i(2) by (simp add: s1 udp_enqueue_def Let_def)
  then have v: "udp_valid (int i) st1" using i(1) by (simp add: udp_valid_def)
  obtain now st2 where k: "ktime_ms e st1 = (now, st2)" by fastforce
  then have st2: "udp_socks st2 = udp_socks st1" by (auto simp: ktime_ms_def split: prod.splits)
  obtain n where n: "e_fuel e = Suc n" using assms(5) by (cases "e_fuel e") auto
  obtain len dat ip port sk where d: "udp_dequeue cap (udp_socks st1 ! i) = ((len, dat, ip, port), sk)" by (metis prod.exhaust)
  have "sock_ok (udp_socks st1 ! i)" using udp_enqueue_room(1) [OF ok assms(3)] by (simp add: s1)
  from udp_dequeue_msg(2) [OF this _ d] c1 q1 have "ip = src" "port = sport" "len = length data" "dat = take cap data"
      "sock_list sk = []" by auto
  moreover have "length (udp_socks st1) = length (udp_socks st)" by (simp add: st1_def udp_input_segment [OF assms(4,2)])
  ultimately show "\<exists>st'. net_udp_recvfrom e (int i) t cap (udp_input src (udp_segment src sport dst dport data) st) =
        Some (Udp_dgram (length data) (take cap data) src sport, st') \<and> sock_list (udp_socks st' ! i) = []"
    using v k st2 n c1 d li by (simp add: net_udp_recvfrom_def flip: st1_def)
qed

text \<open>C5. A datagram arrives as it was sent: the segment built for a payload of at most 1472 bytes has a
  checksum that verifies over the pseudo-header, its input puts it last in the queue of the socket bound to
  the port, and once the datagrams before it are taken a receive returns its true length, its first \<open>cap\<close>
  bytes and its source.\<close>

theorem udp_deliver:
  assumes "net_ok st" "udp_target dport st = Some i" "us_count (udp_socks st ! i) < UDP_QUEUE"
    and "length data \<le> UDP_MSG_MAX" and "0 < e_fuel e"
  shows "csum_fold (csum_add (csum_add 0 (pseudo_hdr src dst IP_PROTO_UDP (of_nat (8 + length data))))
      (udp_segment src sport dst dport data)) = 0 \<and>
    sock_list (udp_socks (udp_input src (udp_segment src sport dst dport data) st) ! i) =
      sock_list (udp_socks st ! i) @ [(src, sport, data)] \<and>
    (us_count (udp_socks st ! i) = 0 \<longrightarrow>
      (\<exists>st'. net_udp_recvfrom e (int i) t cap (udp_input src (udp_segment src sport dst dport data) st) =
        Some (Udp_dgram (length data) (take cap data) src sport, st') \<and> sock_list (udp_socks st' ! i) = []))"
  using udp_deliver_facts [OF assms] by blast

text \<open>A stack with one socket, bound to port 68, on a card that has nothing to deliver.\<close>

definition one_socket :: "unit net" where
  "one_socket = set_port 0 68 (snd (net_udp_open (net_boot ())))"

definition quiet_env :: "unit env" where
  "quiet_env = \<lparr>e_tx = \<lambda>f w. (True, w), e_rx = \<lambda>w. (None, w), e_ms = \<lambda>w. (0, w), e_us = \<lambda>w. (0, w),
     e_ns = \<lambda>w. (0, w), e_poll = Some, e_fuel = 1\<rparr>"

lemma upt_eight: "[0..<8] = [0, 1, 2, 3, 4, 5, 6, 7 :: nat]"
  by (simp add: upt_rec)

lemma one_socket_ok:
  "net_ok one_socket" "udp_target 68 one_socket = Some 0" "us_count (udp_socks one_socket ! 0) = 0"
proof -
  have "net_ok (snd (net_udp_open (net_boot ())))" by (rule net_ok_udp_open [OF net_ok_boot surjective_pairing])
  then show "net_ok one_socket" unfolding one_socket_def by (rule net_ok_set_port) (simp add: net_sizes)
  show "udp_target 68 one_socket = Some 0" "us_count (udp_socks one_socket ! 0) = 0"
    by (simp_all add: one_socket_def set_port_def net_udp_open_def udp_target_def net_boot_def net_sizes upt_eight)
qed

theorem udp_deliver_witness:
  "\<exists>st'. net_udp_recvfrom quiet_env (int 0) 0 2 (udp_input 0x0A000202 (udp_segment 0x0A000202 67 0x0A00020F 68 [1, 2, 3]) one_socket) =
     Some (Udp_dgram 3 [1, 2] 0x0A000202 67, st')"
  using udp_deliver [OF one_socket_ok(1,2), of "[1, 2, 3]" quiet_env "0x0A000202" "0x0A00020F" 67 0 2] one_socket_ok(3)
  by (auto simp: net_sizes quiet_env_def)

text \<open>C33. Binding an open socket to port 0 always succeeds and gives it a port of the ephemeral range that no
  other socket uses: with eight sockets at most nine of the consecutive candidates are tried.\<close>

theorem udp_bind_free:
  assumes "net_ok st" "udp_valid s st" "49152 \<le> unat (ephemeral_next st)"
  shows "\<exists>p st'. net_udp_bind s 0 st = (True, st') \<and> 49152 \<le> unat p \<and> \<not> port_in_use p st \<and>
    udp_socks st' = (udp_socks st)[nat s := (udp_socks st ! nat s)\<lparr>us_port := p\<rparr>]"
proof -
  obtain p st1 where b: "bind_tries 16384 st = (p, st1)" "\<not> port_in_use p st" "49152 \<le> unat p"
    using bind_tries_finds [OF assms(3)] by blast
  then have "p \<noteq> 0" "udp_socks st1 = udp_socks st" using bind_tries_frame [OF b(1)] by auto
  with b assms(2) show ?thesis by (intro exI [of _ p]) (simp add: net_udp_bind_def set_port_def)
qed

theorem udp_bind_free_witness:
  "\<exists>p st'. net_udp_bind 0 0 one_socket = (True, st') \<and> 49152 \<le> unat p \<and> \<not> port_in_use p one_socket"
proof -
  have "udp_valid 0 one_socket" "49152 \<le> unat (ephemeral_next one_socket)"
    by (simp_all add: udp_valid_def one_socket_def set_port_def net_udp_open_def net_boot_def net_sizes upt_eight)
  from udp_bind_free [OF one_socket_ok(1) this] show ?thesis by blast
qed

end
