(* ===== verification/Tcp.thy ===== *)
theory Tcp
  imports Udp
begin

text \<open>
  The TCP layer (\<^verbatim>\<open>src/src/tcp.c\<close>): segments, the connection table with its state machine, the
  in-order receive ring, the single outstanding segment with its retransmission timer, and the blocking
  client and server operations. A connection is addressed by its index in the table, since sending may run
  the pump, which may change the same connection.
\<close>

subsection \<open>Definitions\<close>

record tcp_hdr =
  th_sport :: u16
  th_dport :: u16
  th_seq :: u32
  th_ack :: u32
  th_off :: u8
  th_flags :: u8
  th_window :: u16
  th_csum :: u16
  th_urg :: u16

definition TCP_FIN :: u8 where "TCP_FIN = 0x01"
definition TCP_SYN :: u8 where "TCP_SYN = 0x02"
definition TCP_RST :: u8 where "TCP_RST = 0x04"
definition TCP_PSH :: u8 where "TCP_PSH = 0x08"
definition TCP_ACK :: u8 where "TCP_ACK = 0x10"
definition TCP_RTO_MS :: u64 where "TCP_RTO_MS = 400"
definition TCP_MAX_RETX :: nat where "TCP_MAX_RETX = 6"

lemmas tcp_flags = TCP_FIN_def TCP_SYN_def TCP_RST_def TCP_PSH_def TCP_ACK_def

definition tcp_pack :: "tcp_hdr \<Rightarrow> bytes" where
  "tcp_pack t = be16_bytes (th_sport t) @ be16_bytes (th_dport t) @ be32_bytes (th_seq t) @ be32_bytes (th_ack t) @
     [th_off t, th_flags t] @ be16_bytes (th_window t) @ le16_bytes (th_csum t) @ be16_bytes (th_urg t)"

definition tcp_unpack :: "bytes \<Rightarrow> tcp_hdr option" where
  "tcp_unpack p = do {
     s \<leftarrow> get_be16 p 0; d \<leftarrow> get_be16 p 2; q \<leftarrow> get_be32 p 4; a \<leftarrow> get_be32 p 8; f \<leftarrow> rd p 12; g \<leftarrow> rd p 13;
     w \<leftarrow> get_be16 p 14; c \<leftarrow> get_le16 p 16; u \<leftarrow> get_be16 p 18;
     Some \<lparr>th_sport = s, th_dport = d, th_seq = q, th_ack = a, th_off = f, th_flags = g, th_window = w,
           th_csum = c, th_urg = u\<rparr> }"

definition seq_lt :: "u32 \<Rightarrow> u32 \<Rightarrow> bool" where
  "seq_lt a b \<longleftrightarrow> sint (a - b) < 0"

definition has :: "u8 \<Rightarrow> u8 \<Rightarrow> bool" where
  "has flags f \<longleftrightarrow> flags AND f \<noteq> 0"

definition tcp_checksum :: "u32 \<Rightarrow> u32 \<Rightarrow> bytes \<Rightarrow> u16" where
  "tcp_checksum src_ip dst_ip seg =
     csum_fold (csum_add (csum_add 0 (pseudo_hdr src_ip dst_ip IP_PROTO_TCP (of_nat (length seg)))) seg)"

abbreviation conn :: "nat \<Rightarrow> 'w net \<Rightarrow> tcp_conn" where
  "conn i st \<equiv> tcp_conns st ! i"

definition set_conn :: "nat \<Rightarrow> tcp_conn \<Rightarrow> 'w net \<Rightarrow> 'w net" where
  "set_conn i c st = st\<lparr>tcp_conns := (tcp_conns st)[i := c]\<rparr>"

text \<open>The bytes of a segment of connection \<open>c\<close>.\<close>

definition tcp_header :: "tcp_conn \<Rightarrow> u8 \<Rightarrow> tcp_hdr" where
  "tcp_header c flags =
     \<lparr>th_sport = tc_local_port c, th_dport = tc_peer_port c, th_seq = tc_snd_nxt c, th_ack = tc_rcv_nxt c,
      th_off = 0x50, th_flags = flags, th_window = of_nat (TCP_RXBUF - tc_rx_len c), th_csum = 0, th_urg = 0\<rparr>"

definition tcp_segment :: "u32 \<Rightarrow> tcp_conn \<Rightarrow> u8 \<Rightarrow> bytes \<Rightarrow> bytes" where
  "tcp_segment my c flags data =
     (let t = tcp_header c flags in
      tcp_pack (t\<lparr>th_csum := tcp_checksum my (tc_peer_ip c) (tcp_pack t @ data)\<rparr>) @ data)"

definition tcp_emit :: "'w env \<Rightarrow> nat \<Rightarrow> u8 \<Rightarrow> bytes \<Rightarrow> 'w net \<Rightarrow> (bool \<times> 'w net) option" where
  "tcp_emit e i flags data st =
     (let data = (if length data > TCP_MSS then take TCP_MSS data else data);
          c = conn i st;
          seg = tcp_segment (my_ip st) c flags data;
          consumed = length data + (if has flags (TCP_SYN OR TCP_FIN) then 1 else 0);
          st = (if consumed \<noteq> 0
                then let (now, st) = ktime_ms e st in
                  set_conn i (c\<lparr>tc_retx := store (tc_retx c) 0 seg, tc_retx_len := length seg,
                    tc_retx_seq := tc_snd_nxt c + of_nat consumed, tc_retx_at_ms := now, tc_retx_tries := 0,
                    tc_snd_nxt := tc_snd_nxt c + of_nat consumed\<rparr>) st
                else st)
      in ip_send e (tc_peer_ip c) IP_PROTO_TCP seg st)"

definition tcp_ack :: "'w env \<Rightarrow> nat \<Rightarrow> 'w net \<Rightarrow> 'w net option" where
  "tcp_ack e i st =
     map_option snd (ip_send e (tc_peer_ip (conn i st)) IP_PROTO_TCP (tcp_segment (my_ip st) (conn i st) TCP_ACK []) st)"

definition tcp_find :: "u32 \<Rightarrow> u16 \<Rightarrow> u16 \<Rightarrow> 'w net \<Rightarrow> nat option" where
  "tcp_find src_ip sport dport st =
     find (\<lambda>i. tc_in_use (conn i st) \<and> tc_peer_ip (conn i st) = src_ip \<and> tc_peer_port (conn i st) = sport \<and>
       tc_local_port (conn i st) = dport) [0..<TCP_CONNS]"

definition tcp_listener :: "u16 \<Rightarrow> 'w net \<Rightarrow> nat option" where
  "tcp_listener dport st =
     find (\<lambda>i. tc_in_use (conn i st) \<and> tc_state (conn i st) = TCP_LISTEN \<and> tc_local_port (conn i st) = dport)
       [0..<TCP_CONNS]"

text \<open>A segment for no connection: a SYN to a listening socket opens one.\<close>

definition tcp_passive :: "'w env \<Rightarrow> u32 \<Rightarrow> tcp_hdr \<Rightarrow> 'w net \<Rightarrow> 'w net option" where
  "tcp_passive e src_ip t st =
     (if has (th_flags t) TCP_SYN
      then case tcp_listener (th_dport t) st of
          None \<Rightarrow> Some st
        | Some i \<Rightarrow>
            let l = conn i st; (now, st) = ktime_ns e st;
                st = set_conn i (l\<lparr>tc_peer_ip := src_ip, tc_peer_port := th_sport t, tc_rcv_nxt := th_seq t + 1,
                  tc_snd_una := ucast now, tc_snd_nxt := ucast now, tc_state := TCP_SYN_RCVD\<rparr>) st
            in map_option snd (tcp_emit e i (TCP_SYN OR TCP_ACK) [] st)
      else Some st)"

text \<open>What the acknowledgement of a segment changes.\<close>

definition tcp_acked :: "tcp_hdr \<Rightarrow> tcp_conn \<Rightarrow> tcp_conn" where
  "tcp_acked t c =
     (let c = (if has (th_flags t) TCP_ACK \<and> tc_retx_len c \<noteq> 0 \<and> \<not> seq_lt (th_ack t) (tc_retx_seq c)
               then c\<lparr>tc_retx_len := 0\<rparr> else c);
          c = (if has (th_flags t) TCP_ACK \<and> seq_lt (tc_snd_una c) (th_ack t)
               then c\<lparr>tc_snd_una := th_ack t\<rparr> else c)
      in if tc_state c = TCP_SYN_RCVD \<and> has (th_flags t) TCP_ACK \<and> tc_retx_len c = 0
         then c\<lparr>tc_state := TCP_ESTABLISHED\<rparr> else c)"

text \<open>Whether the data of a segment is taken, and the connection with it appended to the ring.\<close>

definition tcp_accepts :: "u32 \<Rightarrow> bytes \<Rightarrow> tcp_conn \<Rightarrow> bool" where
  "tcp_accepts seq payload c \<longleftrightarrow> payload \<noteq> [] \<and> seq = tc_rcv_nxt c \<and> tc_rx_len c + length payload \<le> TCP_RXBUF"

definition tcp_store :: "bytes \<Rightarrow> tcp_conn \<Rightarrow> tcp_conn" where
  "tcp_store payload c =
     c\<lparr>tc_rx := ring_store TCP_RXBUF (tc_rx c) (tc_rx_head c + tc_rx_len c) payload,
       tc_rx_len := tc_rx_len c + length payload, tc_rcv_nxt := tc_rcv_nxt c + of_nat (length payload)\<rparr>"

definition tcp_data :: "'w env \<Rightarrow> nat \<Rightarrow> tcp_hdr \<Rightarrow> bytes \<Rightarrow> 'w net \<Rightarrow> 'w net option" where
  "tcp_data e i t payload st =
     (if tcp_accepts (th_seq t) payload (conn i st) then tcp_ack e i (set_conn i (tcp_store payload (conn i st)) st)
      else if payload \<noteq> [] then tcp_ack e i st
      else Some st)"

definition tcp_fin :: "'w env \<Rightarrow> nat \<Rightarrow> tcp_hdr \<Rightarrow> bytes \<Rightarrow> 'w net \<Rightarrow> 'w net option" where
  "tcp_fin e i t payload st = do {
     st \<leftarrow> (if has (th_flags t) TCP_FIN \<and> th_seq t + of_nat (length payload) = tc_rcv_nxt (conn i st)
           then do {
             st \<leftarrow> tcp_ack e i (set_conn i ((conn i st)\<lparr>tc_rcv_nxt := tc_rcv_nxt (conn i st) + 1, tc_peer_fin := True\<rparr>) st);
             Some (if tc_state (conn i st) = TCP_FIN_WAIT
                   then set_conn i ((conn i st)\<lparr>tc_state := TCP_DONE\<rparr>) st else st) }
           else Some st);
     Some (if tc_state (conn i st) = TCP_FIN_WAIT \<and> tc_retx_len (conn i st) = 0 \<and> tc_peer_fin (conn i st)
           then set_conn i ((conn i st)\<lparr>tc_state := TCP_DONE\<rparr>) st else st) }"

definition tcp_deliver :: "'w env \<Rightarrow> nat \<Rightarrow> tcp_hdr \<Rightarrow> bytes \<Rightarrow> 'w net \<Rightarrow> 'w net option" where
  "tcp_deliver e i t payload st =
     (if has (th_flags t) TCP_RST
      then Some (set_conn i ((conn i st)\<lparr>tc_state := TCP_DONE, tc_retx_len := 0\<rparr>) st)
      else let st = set_conn i (tcp_acked t (conn i st)) st in
        if tc_state (conn i st) = TCP_SYN_SENT then
          (if has (th_flags t) TCP_SYN \<and> has (th_flags t) TCP_ACK
           then tcp_ack e i (set_conn i ((conn i st)\<lparr>tc_rcv_nxt := th_seq t + 1, tc_state := TCP_ESTABLISHED\<rparr>) st)
           else Some st)
        else do { st \<leftarrow> tcp_data e i t payload st; tcp_fin e i t payload st })"

definition tcp_input :: "'w env \<Rightarrow> u32 \<Rightarrow> bytes \<Rightarrow> 'w net \<Rightarrow> 'w net option" where
  "tcp_input e src_ip data st =
     (if length data < 20 then Some st
      else case tcp_unpack data of
        None \<Rightarrow> Some (st\<lparr>net_fault := True\<rparr>)
      | Some t \<Rightarrow>
          let hlen = unat (drop_bit 4 (th_off t)) * 4 in
          if hlen < 20 \<or> hlen > length data then Some st
          else case tcp_find src_ip (th_sport t) (th_dport t) st of
              None \<Rightarrow> tcp_passive e src_ip t st
            | Some i \<Rightarrow> tcp_deliver e i t (drop hlen data) st)"

fun tick_loop :: "'w env \<Rightarrow> u64 \<Rightarrow> nat list \<Rightarrow> 'w net \<Rightarrow> 'w net option" where
  "tick_loop e now [] st = Some st"
| "tick_loop e now (i # is) st =
     (let c = conn i st in
      if \<not> tc_in_use c \<or> tc_retx_len c = 0 then tick_loop e now is st
      else if now - tc_retx_at_ms c < TCP_RTO_MS then tick_loop e now is st
      else if tc_retx_tries c \<ge> TCP_MAX_RETX
      then tick_loop e now is (set_conn i (c\<lparr>tc_state := TCP_DONE, tc_retx_len := 0\<rparr>) st)
      else do {
        (ok, st) \<leftarrow> ip_send e (tc_peer_ip c) IP_PROTO_TCP (take (tc_retx_len c) (tc_retx c))
          (set_conn i (c\<lparr>tc_retx_tries := tc_retx_tries c + 1, tc_retx_at_ms := now\<rparr>) st);
        tick_loop e now is st })"

definition tcp_tick :: "'w env \<Rightarrow> 'w net \<Rightarrow> 'w net option" where
  "tcp_tick e st = (let (now, st) = ktime_ms e st in tick_loop e now [0..<TCP_CONNS] st)"

text \<open>\<^verbatim>\<open>while (cond) { net_poll(); if (c->state == TCP_DONE || ktime_ms() >= deadline) return false; }\<close>\<close>

fun tcp_wait :: "'w env \<Rightarrow> nat \<Rightarrow> nat \<Rightarrow> (tcp_conn \<Rightarrow> bool) \<Rightarrow> u64 \<Rightarrow> 'w net \<Rightarrow> (bool \<times> 'w net) option" where
  "tcp_wait e 0 i cond deadline st = None"
| "tcp_wait e (Suc n) i cond deadline st =
     (if \<not> cond (conn i st) then Some (True, st)
      else do {
        st \<leftarrow> e_poll e st;
        (if tc_state (conn i st) = TCP_DONE then Some (False, st)
         else let (now, st) = ktime_ms e st in
           if now \<ge> deadline then Some (False, st) else tcp_wait e n i cond deadline st) })"

definition tcp_zero :: tcp_conn where
  "tcp_zero = \<lparr>tc_in_use = False, tc_state = TCP_CLOSED, tc_peer_ip = 0, tc_local_port = 0, tc_peer_port = 0,
     tc_snd_una = 0, tc_snd_nxt = 0, tc_rcv_nxt = 0, tc_peer_fin = False, tc_rx = replicate TCP_RXBUF 0,
     tc_rx_head = 0, tc_rx_len = 0, tc_retx = replicate (20 + TCP_MSS) 0, tc_retx_len = 0, tc_retx_seq = 0,
     tc_retx_at_ms = 0, tc_retx_tries = 0\<rparr>"

definition tcp_free :: "'w net \<Rightarrow> nat option" where
  "tcp_free st = find (\<lambda>i. \<not> tc_in_use (conn i st)) [0..<TCP_CONNS]"

definition net_tcp_connect :: "'w env \<Rightarrow> u32 \<Rightarrow> u16 \<Rightarrow> u32 \<Rightarrow> 'w net \<Rightarrow> (int \<times> 'w net) option" where
  "net_tcp_connect e dst_ip port timeout_ms st =
     (if \<not> ready st then Some (-1, st)
      else case tcp_free st of
        None \<Rightarrow> Some (-1, st)
      | Some i \<Rightarrow>
          let (lport, st) = net_next_ephemeral st; (now, st) = ktime_ns e st;
              c = tcp_zero\<lparr>tc_in_use := True, tc_state := TCP_SYN_SENT, tc_peer_ip := dst_ip, tc_peer_port := port,
                tc_local_port := lport, tc_snd_una := ucast now, tc_snd_nxt := ucast now\<rparr>
          in do {
            (sent, st) \<leftarrow> tcp_emit e i TCP_SYN [] (set_conn i c st);
            let (now, st) = ktime_ms e st in do {
              (ok, st) \<leftarrow> tcp_wait e (e_fuel e) i (\<lambda>c. tc_state c = TCP_SYN_SENT) (now + ucast timeout_ms) st;
              Some (if ok then (int i, st) else (-1, set_conn i ((conn i st)\<lparr>tc_in_use := False\<rparr>) st)) } })"

definition net_tcp_listen :: "u16 \<Rightarrow> 'w net \<Rightarrow> int \<times> 'w net" where
  "net_tcp_listen port st =
     (if \<not> ready st then (-1, st)
      else case tcp_free st of
        None \<Rightarrow> (-1, st)
      | Some i \<Rightarrow> (int i, set_conn i (tcp_zero\<lparr>tc_in_use := True, tc_state := TCP_LISTEN, tc_local_port := port\<rparr>) st))"

definition tcp_valid :: "int \<Rightarrow> 'w net \<Rightarrow> bool" where
  "tcp_valid cid st \<longleftrightarrow> \<not> (cid < 0 \<or> cid \<ge> int TCP_CONNS \<or> \<not> tc_in_use (conn (nat cid) st))"

definition net_tcp_accept :: "'w env \<Rightarrow> int \<Rightarrow> u32 \<Rightarrow> 'w net \<Rightarrow> (int \<times> 'w net) option" where
  "net_tcp_accept e cid timeout_ms st =
     (if \<not> tcp_valid cid st then Some (-1, st)
      else let (now, st) = ktime_ms e st in do {
        (ok, st) \<leftarrow> tcp_wait e (e_fuel e) (nat cid) (\<lambda>c. tc_state c \<noteq> TCP_ESTABLISHED) (now + ucast timeout_ms) st;
        Some (if ok then cid else -1, st) })"

text \<open>The unsent rest of the data; \<open>sent\<close> bytes are acknowledged.\<close>

function tcp_send_loop :: "'w env \<Rightarrow> nat \<Rightarrow> bytes \<Rightarrow> nat \<Rightarrow> 'w net \<Rightarrow> (int \<times> 'w net) option" where
  "tcp_send_loop e i p sent st =
     (if p = [] then Some (int sent, st)
      else if tc_state (conn i st) \<noteq> TCP_ESTABLISHED then Some (if sent \<noteq> 0 then int sent else -1, st)
      else let chunk = min (length p) TCP_MSS in do {
        (out, st) \<leftarrow> tcp_emit e i (TCP_ACK OR TCP_PSH) (take chunk p) st;
        let (now, st) = ktime_ms e st in do {
          (ok, st) \<leftarrow> tcp_wait e (e_fuel e) i (\<lambda>c. tc_retx_len c \<noteq> 0)
            (now + TCP_RTO_MS * of_nat (TCP_MAX_RETX + 2)) st;
          if \<not> ok then Some (if sent \<noteq> 0 then int sent else -1, st)
          else tcp_send_loop e i (drop chunk p) (sent + chunk) st } })"
  by pat_completeness auto
termination by (relation "measure (\<lambda>(e, i, p, sent, st). length p)") (auto simp: net_sizes)

declare tcp_send_loop.simps [simp del]

definition net_tcp_send :: "'w env \<Rightarrow> int \<Rightarrow> bytes \<Rightarrow> 'w net \<Rightarrow> (int \<times> 'w net) option" where
  "net_tcp_send e cid data st =
     (if \<not> tcp_valid cid st then Some (-1, st) else tcp_send_loop e (nat cid) data 0 st)"

datatype rx_wait = Rx_data | Rx_eof | Rx_timeout

fun tcp_recv_wait :: "'w env \<Rightarrow> nat \<Rightarrow> nat \<Rightarrow> u64 \<Rightarrow> 'w net \<Rightarrow> (rx_wait \<times> 'w net) option" where
  "tcp_recv_wait e 0 i deadline st = None"
| "tcp_recv_wait e (Suc n) i deadline st =
     (if tc_rx_len (conn i st) \<noteq> 0 then Some (Rx_data, st)
      else if tc_peer_fin (conn i st) \<or> tc_state (conn i st) = TCP_DONE then Some (Rx_eof, st)
      else do {
        st \<leftarrow> e_poll e st;
        let (now, st) = ktime_ms e st in
        if now \<ge> deadline then Some (Rx_timeout, st) else tcp_recv_wait e n i deadline st })"

text \<open>Up to \<open>cap\<close> bytes from the ring.\<close>

definition tcp_take :: "nat \<Rightarrow> tcp_conn \<Rightarrow> bytes \<times> tcp_conn" where
  "tcp_take cap c =
     (let n = (if tc_rx_len c < cap then tc_rx_len c else cap)
      in (map (\<lambda>k. tc_rx c ! ((tc_rx_head c + k) mod TCP_RXBUF)) [0..<n],
          c\<lparr>tc_rx_head := (tc_rx_head c + n) mod TCP_RXBUF, tc_rx_len := tc_rx_len c - n\<rparr>))"

definition net_tcp_recv :: "'w env \<Rightarrow> int \<Rightarrow> nat \<Rightarrow> u32 \<Rightarrow> 'w net \<Rightarrow> ((int \<times> bytes) \<times> 'w net) option" where
  "net_tcp_recv e cid cap timeout_ms st =
     (if \<not> tcp_valid cid st then Some ((-1, []), st)
      else let (now, st) = ktime_ms e st in do {
        (r, st) \<leftarrow> tcp_recv_wait e (e_fuel e) (nat cid) (now + ucast timeout_ms) st;
        Some (case r of
            Rx_timeout \<Rightarrow> ((-1, []), st)
          | Rx_eof \<Rightarrow> ((0, []), st)
          | Rx_data \<Rightarrow> let (out, c) = tcp_take cap (conn (nat cid) st) in ((int (length out), out), set_conn (nat cid) c st)) })"

fun tcp_close_wait :: "'w env \<Rightarrow> nat \<Rightarrow> nat \<Rightarrow> u64 \<Rightarrow> 'w net \<Rightarrow> 'w net option" where
  "tcp_close_wait e 0 i deadline st = None"
| "tcp_close_wait e (Suc n) i deadline st =
     (if tc_state (conn i st) = TCP_FIN_WAIT
      then let (now, st) = ktime_ms e st in
        if now < deadline then do { st \<leftarrow> e_poll e st; tcp_close_wait e n i deadline st } else Some st
      else Some st)"

definition net_tcp_close :: "'w env \<Rightarrow> int \<Rightarrow> 'w net \<Rightarrow> 'w net option" where
  "net_tcp_close e cid st =
     (if \<not> tcp_valid cid st then Some st
      else let i = nat cid in do {
        st \<leftarrow> (if tc_state (conn i st) = TCP_ESTABLISHED
              then do {
                (sent, st) \<leftarrow> tcp_emit e i (TCP_FIN OR TCP_ACK) [] st;
                let st = set_conn i ((conn i st)\<lparr>tc_state := TCP_FIN_WAIT\<rparr>) st; (now, st) = ktime_ms e st in
                tcp_close_wait e (e_fuel e) i (now + 1000) st }
              else Some st);
        Some (set_conn i ((conn i st)\<lparr>tc_in_use := False\<rparr>) st) })"

subsection \<open>The stack stays well formed\<close>

lemma length_tcp_pack [simp]: "length (tcp_pack t) = 20"
  by (simp add: tcp_pack_def)

lemma length_tcp_segment [simp]: "length (tcp_segment my c flags data) = 20 + length data"
  by (simp add: tcp_segment_def Let_def)

lemma tcp_unpack_total: "20 \<le> length data \<Longrightarrow> \<exists>t. tcp_unpack data = Some t"
  by (simp add: tcp_unpack_def get_be16_def get_be32_def get_le16_def rd_def)

lemma tcp_unpack_pack: "tcp_unpack (tcp_pack t @ rest) = Some t"
  by (simp add: tcp_unpack_def tcp_pack_def be16_bytes_def be32_bytes_def le16_bytes_def get_be16_def get_be32_def
      get_le16_def)

lemma net_ok_conn:
  "net_ok st \<Longrightarrow> i < TCP_CONNS \<Longrightarrow> conn_ok (conn i st)"
  "net_ok st \<Longrightarrow> conn_ok c \<Longrightarrow> net_ok (set_conn i c st)"
  by (auto simp: set_conn_def net_ok_def list_all_iff dest!: set_update_subset_insert [THEN subsetD])

lemma conn_ok_fields [simp]:
  "conn_ok (c\<lparr>tc_in_use := u\<rparr>) = conn_ok c" "conn_ok (c\<lparr>tc_state := s\<rparr>) = conn_ok c"
  "conn_ok (c\<lparr>tc_peer_ip := a\<rparr>) = conn_ok c" "conn_ok (c\<lparr>tc_local_port := p\<rparr>) = conn_ok c"
  "conn_ok (c\<lparr>tc_peer_port := p\<rparr>) = conn_ok c" "conn_ok (c\<lparr>tc_snd_una := a\<rparr>) = conn_ok c"
  "conn_ok (c\<lparr>tc_snd_nxt := a\<rparr>) = conn_ok c" "conn_ok (c\<lparr>tc_rcv_nxt := a\<rparr>) = conn_ok c"
  "conn_ok (c\<lparr>tc_peer_fin := u\<rparr>) = conn_ok c" "conn_ok (c\<lparr>tc_retx_seq := a\<rparr>) = conn_ok c"
  "conn_ok (c\<lparr>tc_retx_at_ms := t\<rparr>) = conn_ok c" "conn_ok (c\<lparr>tc_retx_tries := n\<rparr>) = conn_ok c"
  by (simp_all add: conn_ok_def)

lemma conn_ok_retx_len [simp]: "conn_ok c \<Longrightarrow> n \<le> 20 + TCP_MSS \<Longrightarrow> conn_ok (c\<lparr>tc_retx_len := n\<rparr>)"
  by (simp add: conn_ok_def)

lemma conn_ok_zero [simp]: "conn_ok tcp_zero"
  by (simp add: conn_ok_def tcp_zero_def net_sizes)

lemma conn_ok_acked [preserves]: "conn_ok c \<Longrightarrow> conn_ok (tcp_acked t c)"
  by (simp add: tcp_acked_def Let_def)

lemma conn_ok_store [preserves]: "conn_ok c \<Longrightarrow> tcp_accepts seq payload c \<Longrightarrow> conn_ok (tcp_store payload c)"
  by (simp add: conn_ok_def tcp_store_def tcp_accepts_def)

lemma tcp_find_bound: "tcp_find s p d st = Some i \<Longrightarrow> i < TCP_CONNS" "tcp_listener d st = Some i \<Longrightarrow> i < TCP_CONNS"
  "tcp_free st = Some i \<Longrightarrow> i < TCP_CONNS" "tcp_valid cid st \<Longrightarrow> nat cid < TCP_CONNS"
  by (auto simp: tcp_find_def tcp_listener_def tcp_free_def find_upt_Some tcp_valid_def)

context pump
begin

lemma tcp_emit_ok:
  assumes "net_ok st" "i < TCP_CONNS" "tcp_emit e i flags data st = Some (ok, st')"
  shows "net_ok st'"
proof -
  define d where "d = (if length data > TCP_MSS then take TCP_MSS data else data)"
  define seg where "seg = tcp_segment (my_ip st) (conn i st) flags d"
  define n where "n = length d + (if has flags (TCP_SYN OR TCP_FIN) then 1 else 0)"
  obtain now st1 where k: "ktime_ms e st = (now, st1)" by fastforce
  define c where "c = (conn i st)\<lparr>tc_retx := store (tc_retx (conn i st)) 0 seg, tc_retx_len := length seg,
    tc_retx_seq := tc_snd_nxt (conn i st) + of_nat n, tc_retx_at_ms := now, tc_retx_tries := 0,
    tc_snd_nxt := tc_snd_nxt (conn i st) + of_nat n\<rparr>"
  have seg: "length seg \<le> 20 + TCP_MSS" by (simp add: seg_def d_def)
  have "conn_ok c" using net_ok_conn(1) [OF assms(1,2)] seg by (simp add: conn_ok_def c_def)
  moreover have "net_ok st1" using assms(1) k net_ok_ktime(1) by blast
  ultimately have "net_ok (set_conn i c st1)" by (intro net_ok_conn(2))
  then have a: "net_ok (if n \<noteq> 0 then set_conn i c st1 else st)" using assms(1) by simp
  have "ip_send e (tc_peer_ip (conn i st)) IP_PROTO_TCP seg (if n \<noteq> 0 then set_conn i c st1 else st) = Some (ok, st')"
    using assms(3) unfolding tcp_emit_def Let_def d_def [symmetric] seg_def [symmetric] n_def [symmetric] k c_def prod.case .
  from ip_send_ok [OF a _ this] show ?thesis using seg by (simp add: net_sizes)
qed

lemma tcp_ack_ok:
  assumes "net_ok st" "tcp_ack e i st = Some st'"
  shows "net_ok st'"
proof -
  obtain ok where "ip_send e (tc_peer_ip (conn i st)) IP_PROTO_TCP (tcp_segment (my_ip st) (conn i st) TCP_ACK []) st = Some (ok, st')"
    using assms(2) by (auto simp: tcp_ack_def)
  then show ?thesis by (rule ip_send_ok [OF assms(1), rotated]) simp
qed

lemma tcp_passive_ok:
  assumes "net_ok st" "tcp_passive e src t st = Some st'"
  shows "net_ok st'"
proof (cases "has (th_flags t) TCP_SYN \<and> tcp_listener (th_dport t) st \<noteq> None")
  case True
  then obtain i where i: "tcp_listener (th_dport t) st = Some i" by auto
  obtain now st1 where k: "ktime_ns e st = (now, st1)" by fastforce
  have "net_ok st1" using assms(1) k net_ok_ktime(3) by blast
  then have "net_ok (set_conn i ((conn i st)\<lparr>tc_peer_ip := src, tc_peer_port := th_sport t, tc_rcv_nxt := th_seq t + 1,
                  tc_snd_una := ucast now, tc_snd_nxt := ucast now, tc_state := TCP_SYN_RCVD\<rparr>) st1)" (is "net_ok ?st")
    using net_ok_conn(1) [OF assms(1) tcp_find_bound(2) [OF i]] by (intro net_ok_conn(2)) simp_all
  moreover obtain ok where "tcp_emit e i (TCP_SYN OR TCP_ACK) [] ?st = Some (ok, st')"
    using assms(2) True i k by (auto simp: tcp_passive_def)
  ultimately show ?thesis using tcp_find_bound(2) [OF i] by (blast dest: tcp_emit_ok)
qed (use assms in \<open>auto simp: tcp_passive_def split: if_splits\<close>)

lemma tcp_data_ok:
  assumes "net_ok st" "i < TCP_CONNS" "tcp_data e i t payload st = Some st'"
  shows "net_ok st'"
  using assms(3) net_ok_conn(1) [OF assms(1,2)] assms(1)
  by (auto simp: tcp_data_def split: if_splits intro!: conn_ok_store intro: tcp_ack_ok net_ok_conn(2))

lemma tcp_done_ok: "net_ok st \<Longrightarrow> i < TCP_CONNS \<Longrightarrow> net_ok (set_conn i ((conn i st)\<lparr>tc_state := s\<rparr>) st)"
  using net_ok_conn(1) by (intro net_ok_conn(2)) simp_all

lemma tcp_fin_ok:
  assumes "net_ok st" "i < TCP_CONNS" "tcp_fin e i t payload st = Some st'"
  shows "net_ok st'"
proof -
  define b where "b \<longleftrightarrow> has (th_flags t) TCP_FIN \<and> th_seq t + of_nat (length payload) = tc_rcv_nxt (conn i st)"
  obtain st1 where st1: "(if b then do {
             st \<leftarrow> tcp_ack e i (set_conn i ((conn i st)\<lparr>tc_rcv_nxt := tc_rcv_nxt (conn i st) + 1, tc_peer_fin := True\<rparr>) st);
             Some (if tc_state (conn i st) = TCP_FIN_WAIT
                   then set_conn i ((conn i st)\<lparr>tc_state := TCP_DONE\<rparr>) st else st) }
           else Some st) = Some st1"
    and st': "st' = (if tc_state (conn i st1) = TCP_FIN_WAIT \<and> tc_retx_len (conn i st1) = 0 \<and> tc_peer_fin (conn i st1)
           then set_conn i ((conn i st1)\<lparr>tc_state := TCP_DONE\<rparr>) st1 else st1)"
    using assms(3) unfolding tcp_fin_def b_def [symmetric] by (auto simp: bind_eq_Some_conv)
  have "net_ok (set_conn i ((conn i st)\<lparr>tc_rcv_nxt := tc_rcv_nxt (conn i st) + 1, tc_peer_fin := True\<rparr>) st)"
    using net_ok_conn(1) [OF assms(1,2)] assms(1) by (intro net_ok_conn(2)) simp_all
  note ack = tcp_ack_ok [OF this]
  have "net_ok st1"
  proof (cases b)
    case True
    with st1 obtain st2 where "tcp_ack e i (set_conn i ((conn i st)\<lparr>tc_rcv_nxt := tc_rcv_nxt (conn i st) + 1, tc_peer_fin := True\<rparr>) st) = Some st2"
      and s2: "st1 = (if tc_state (conn i st2) = TCP_FIN_WAIT then set_conn i ((conn i st2)\<lparr>tc_state := TCP_DONE\<rparr>) st2 else st2)"
      by (auto simp: bind_eq_Some_conv)
    then have "net_ok st2" by (intro ack)
    then show ?thesis using assms(2) unfolding s2 by (simp add: tcp_done_ok)
  qed (use st1 assms(1) in simp)
  then show ?thesis using assms(2) by (simp add: st' tcp_done_ok)
qed

lemma tcp_deliver_ok:
  assumes "net_ok st" "i < TCP_CONNS" "tcp_deliver e i t payload st = Some st'"
  shows "net_ok st'"
proof (cases "has (th_flags t) TCP_RST")
  case True
  then show ?thesis
    using assms net_ok_conn(1) [OF assms(1,2)] by (auto simp: tcp_deliver_def intro!: net_ok_conn(2))
next
  case False
  define st1 where "st1 = set_conn i (tcp_acked t (conn i st)) st"
  have ok1: "net_ok st1"
    unfolding st1_def using net_ok_conn(1) [OF assms(1,2)] assms(1) by (intro net_ok_conn(2) conn_ok_acked)
  have "conn_ok ((conn i st1)\<lparr>tc_rcv_nxt := th_seq t + 1, tc_state := TCP_ESTABLISHED\<rparr>)"
    using net_ok_conn(1) [OF ok1 assms(2)] by simp
  with ok1 have ok2: "net_ok (set_conn i ((conn i st1)\<lparr>tc_rcv_nxt := th_seq t + 1, tc_state := TCP_ESTABLISHED\<rparr>) st1)"
    by (rule net_ok_conn(2))
  have body: "(if tc_state (conn i st1) = TCP_SYN_SENT then
      (if has (th_flags t) TCP_SYN \<and> has (th_flags t) TCP_ACK
       then tcp_ack e i (set_conn i ((conn i st1)\<lparr>tc_rcv_nxt := th_seq t + 1, tc_state := TCP_ESTABLISHED\<rparr>) st1)
       else Some st1)
    else do { st \<leftarrow> tcp_data e i t payload st1; tcp_fin e i t payload st }) = Some st'"
    using assms(3) False unfolding tcp_deliver_def st1_def [symmetric] Let_def by simp
  show ?thesis
  proof (cases "tc_state (conn i st1) = TCP_SYN_SENT")
    case True
    with body ok1 tcp_ack_ok [OF ok2] show ?thesis by (simp split: if_splits)
  next
    case False
    with body obtain st2 where d: "tcp_data e i t payload st1 = Some st2" and f: "tcp_fin e i t payload st2 = Some st'"
      by (auto simp: bind_eq_Some_conv)
    show ?thesis by (rule tcp_fin_ok [OF tcp_data_ok [OF ok1 assms(2) d] assms(2) f])
  qed
qed

lemma tcp_input_ok:
  assumes "net_ok st" "tcp_input e src data st = Some st'"
  shows "net_ok st'"
proof (cases "length data < 20")
  case False
  then obtain t where t: "tcp_unpack data = Some t" using tcp_unpack_total [of data] by auto
  define hlen where "hlen = unat (drop_bit 4 (th_off t)) * 4"
  show ?thesis
    using assms False t unfolding tcp_input_def
    by (auto simp: Let_def hlen_def [symmetric] split: if_splits option.splits
        dest: tcp_find_bound(1) dest!: tcp_passive_ok [OF assms(1)] tcp_deliver_ok [OF assms(1) tcp_find_bound(1)])
qed (use assms in \<open>simp add: tcp_input_def\<close>)

end

context pump
begin

lemma tick_loop_ok:
  "net_ok st \<Longrightarrow> set is \<subseteq> {0..<TCP_CONNS} \<Longrightarrow> tick_loop e now is st = Some st' \<Longrightarrow> net_ok st'"
proof (induction "is" arbitrary: st)
  case (Cons i "is")
  let ?c = "conn i st"
  have i: "i < TCP_CONNS" and sub: "set is \<subseteq> {0..<TCP_CONNS}" using Cons.prems(2) by auto
  have cok: "conn_ok ?c" using net_ok_conn(1) [OF Cons.prems(1) i] .
  define drop1 where "drop1 = set_conn i (?c\<lparr>tc_state := TCP_DONE, tc_retx_len := 0\<rparr>) st"
  define again where "again = set_conn i (?c\<lparr>tc_retx_tries := tc_retx_tries ?c + 1, tc_retx_at_ms := now\<rparr>) st"
  have d: "net_ok drop1" and a: "net_ok again"
    unfolding drop1_def again_def using cok Cons.prems(1) by (auto intro!: net_ok_conn(2))
  consider "tick_loop e now is st = Some st'" | "tick_loop e now is drop1 = Some st'"
    | ok st1 where "ip_send e (tc_peer_ip ?c) IP_PROTO_TCP (take (tc_retx_len ?c) (tc_retx ?c)) again = Some (ok, st1)"
      "tick_loop e now is st1 = Some st'"
    using Cons.prems(3) by (auto simp: Let_def drop1_def again_def bind_eq_Some_conv split: if_splits)
  then show ?case
  proof cases
    case 3
    have "length (take (tc_retx_len ?c) (tc_retx ?c)) \<le> 1566" using cok by (simp add: conn_ok_def net_sizes)
    from ip_send_ok [OF a this 3(1)] show ?thesis using 3(2) Cons.IH sub by blast
  qed (use Cons.IH Cons.prems(1) d sub in blast)+
qed simp

lemma tcp_tick_ok:
  assumes "net_ok st" "tcp_tick e st = Some st'"
  shows "net_ok st'"
proof -
  obtain now st1 where k: "ktime_ms e st = (now, st1)" by fastforce
  then have "net_ok st1" using assms(1) net_ok_ktime(1) by blast
  from tick_loop_ok [OF this, of "[0..<TCP_CONNS]" now st'] show ?thesis using assms(2) k by (simp add: tcp_tick_def)
qed

lemma tcp_wait_ok: "net_ok st \<Longrightarrow> tcp_wait e n i cond deadline st = Some (ok, st') \<Longrightarrow> net_ok st'"
proof (induction n arbitrary: st)
  case (Suc n)
  show ?case
  proof (cases "cond (conn i st)")
    case True
    with Suc.prems(2) obtain st1 where p: "e_poll e st = Some st1" by (auto simp: bind_eq_Some_conv)
    obtain now st2 where k: "ktime_ms e st1 = (now, st2)" by fastforce
    have ok1: "net_ok st1" using poll_ok [OF Suc.prems(1) p] .
    then have "net_ok st2" using k net_ok_ktime(1) by blast
    with ok1 Suc.prems(2) True p k show ?thesis by (auto split: if_splits dest: Suc.IH)
  qed (use Suc.prems in simp)
qed simp

lemma tcp_connect_ok:
  assumes "net_ok st" "net_tcp_connect e dst port t st = Some (r, st')"
  shows "net_ok st'"
proof (cases "ready st \<and> tcp_free st \<noteq> None")
  case True
  then obtain i where i: "tcp_free st = Some i" by auto
  obtain lport st1 where p: "net_next_ephemeral st = (lport, st1)" by fastforce
  obtain now st2 where k: "ktime_ns e st1 = (now, st2)" by fastforce
  define c where "c = tcp_zero\<lparr>tc_in_use := True, tc_state := TCP_SYN_SENT, tc_peer_ip := dst, tc_peer_port := port,
                tc_local_port := lport, tc_snd_una := ucast now, tc_snd_nxt := ucast now\<rparr>"
  have "net_ok st2" using assms(1) p k net_ok_ephemeral net_ok_ktime(3) by blast
  then have ok2: "net_ok (set_conn i c st2)" by (rule net_ok_conn(2)) (simp add: c_def)
  obtain sent st3 where em: "tcp_emit e i TCP_SYN [] (set_conn i c st2) = Some (sent, st3)"
    using assms(2) True i p k by (auto simp: net_tcp_connect_def bind_eq_Some_conv c_def)
  obtain now2 st4 where k2: "ktime_ms e st3 = (now2, st4)" by fastforce
  have ok4: "net_ok st4" using tcp_emit_ok [OF ok2 tcp_find_bound(3) [OF i] em] k2 net_ok_ktime(1) by blast
  obtain ok st5 where w: "tcp_wait e (e_fuel e) i (\<lambda>c. tc_state c = TCP_SYN_SENT) (now2 + ucast t) st4 = Some (ok, st5)"
    and r: "(r, st') = (if ok then (int i, st5) else (-1, set_conn i ((conn i st5)\<lparr>tc_in_use := False\<rparr>) st5))"
    using assms(2) True i p k em k2 by (auto simp: net_tcp_connect_def bind_eq_Some_conv c_def)
  have ok5: "net_ok st5" by (rule tcp_wait_ok [OF ok4 w])
  then have "net_ok (set_conn i ((conn i st5)\<lparr>tc_in_use := False\<rparr>) st5)"
    by (rule net_ok_conn(2)) (simp add: net_ok_conn(1) [OF ok5 tcp_find_bound(3) [OF i]])
  with ok5 r show ?thesis by (simp split: if_splits)
qed (use assms in \<open>auto simp: net_tcp_connect_def split: option.splits\<close>)

lemma tcp_accept_ok:
  assumes "net_ok st" "net_tcp_accept e cid t st = Some (r, st')"
  shows "net_ok st'"
proof (cases "tcp_valid cid st")
  case True
  obtain now st1 where k: "ktime_ms e st = (now, st1)" by fastforce
  then have "net_ok st1" using assms(1) net_ok_ktime(1) by blast
  moreover obtain ok where "tcp_wait e (e_fuel e) (nat cid) (\<lambda>c. tc_state c \<noteq> TCP_ESTABLISHED) (now + ucast t) st1 = Some (ok, st')"
    using assms(2) True k by (auto simp: net_tcp_accept_def bind_eq_Some_conv)
  ultimately show ?thesis by (rule tcp_wait_ok)
qed (use assms in \<open>simp add: net_tcp_accept_def\<close>)

lemma tcp_send_loop_ok:
  "net_ok st \<Longrightarrow> i < TCP_CONNS \<Longrightarrow> tcp_send_loop e i p sent st = Some (r, st') \<Longrightarrow> net_ok st'"
proof (induction "length p" arbitrary: p sent st rule: less_induct)
  case less
  show ?case
  proof (cases "p = [] \<or> tc_state (conn i st) \<noteq> TCP_ESTABLISHED")
    case True
    with less.prems show ?thesis by (subst (asm) tcp_send_loop.simps) (auto split: if_splits)
  next
    case False
    define chunk where "chunk = min (length p) TCP_MSS"
    obtain out st1 where em: "tcp_emit e i (TCP_ACK OR TCP_PSH) (take chunk p) st = Some (out, st1)"
      using less.prems(3) False unfolding tcp_send_loop.simps [of e i p] chunk_def [symmetric] Let_def
      by (auto simp: bind_eq_Some_conv)
    obtain now st2 where k: "ktime_ms e st1 = (now, st2)" by fastforce
    obtain ok st3 where w: "tcp_wait e (e_fuel e) i (\<lambda>c. tc_retx_len c \<noteq> 0)
        (now + TCP_RTO_MS * of_nat (TCP_MAX_RETX + 2)) st2 = Some (ok, st3)"
      and rest: "(if \<not> ok then Some (if sent \<noteq> 0 then int sent else -1, st3)
          else tcp_send_loop e i (drop chunk p) (sent + chunk) st3) = Some (r, st')"
      using less.prems(3) False em k unfolding tcp_send_loop.simps [of e i p] chunk_def [symmetric] Let_def
      by (auto simp: bind_eq_Some_conv simp del: of_nat_add)
    have "net_ok st2" using tcp_emit_ok [OF less.prems(1,2) em] k net_ok_ktime(1) by blast
    then have ok3: "net_ok st3" using w by (rule tcp_wait_ok)
    have "length (drop chunk p) < length p" using False by (simp add: chunk_def net_sizes)
    from less.hyps [OF this ok3 less.prems(2)] rest ok3 show ?thesis by (auto split: if_splits)
  qed
qed

end

lemma net_ok_tcp_listen [preserves]: "net_ok st \<Longrightarrow> net_tcp_listen port st = (r, st') \<Longrightarrow> net_ok st'"
  by (auto simp: net_tcp_listen_def split: if_splits option.splits intro!: net_ok_conn(2))

lemma conn_ok_take [preserves]: "conn_ok c \<Longrightarrow> tcp_take cap c = (out, c') \<Longrightarrow> conn_ok c'"
  by (auto simp: tcp_take_def Let_def conn_ok_def net_sizes)

context pump
begin

lemma tcp_send_ok:
  assumes "net_ok st" "net_tcp_send e cid data st = Some (r, st')"
  shows "net_ok st'"
proof (cases "tcp_valid cid st")
  case True
  with assms(2) show ?thesis
    by (intro tcp_send_loop_ok [OF assms(1) tcp_find_bound(4)]) (auto simp: net_tcp_send_def)
qed (use assms in \<open>simp add: net_tcp_send_def\<close>)

lemma tcp_recv_wait_ok: "net_ok st \<Longrightarrow> tcp_recv_wait e n i deadline st = Some (r, st') \<Longrightarrow> net_ok st'"
proof (induction n arbitrary: st)
  case (Suc n)
  show ?case
  proof (cases "tc_rx_len (conn i st) \<noteq> 0 \<or> tc_peer_fin (conn i st) \<or> tc_state (conn i st) = TCP_DONE")
    case False
    with Suc.prems(2) obtain st1 where p: "e_poll e st = Some st1" by (auto simp: bind_eq_Some_conv)
    obtain now st2 where k: "ktime_ms e st1 = (now, st2)" by fastforce
    then have "net_ok st2" using poll_ok [OF Suc.prems(1) p] net_ok_ktime(1) by blast
    with Suc.prems(2) False p k show ?thesis by (auto split: if_splits dest: Suc.IH)
  qed (use Suc.prems in \<open>auto split: if_splits\<close>)
qed simp

lemma tcp_recv_ok:
  assumes "net_ok st" "net_tcp_recv e cid cap t st = Some (r, st')"
  shows "net_ok st'"
proof (cases "tcp_valid cid st")
  case True
  obtain now st1 where k: "ktime_ms e st = (now, st1)" by fastforce
  obtain w st2 where w: "tcp_recv_wait e (e_fuel e) (nat cid) (now + ucast t) st1 = Some (w, st2)"
    using assms(2) True k by (auto simp: net_tcp_recv_def bind_eq_Some_conv)
  have ok: "net_ok st2" using assms(1) k tcp_recv_wait_ok [OF _ w] net_ok_ktime(1) by blast
  obtain out c where t: "tcp_take cap (conn (nat cid) st2) = (out, c)" by fastforce
  have "net_ok (set_conn (nat cid) c st2)"
    by (rule net_ok_conn(2) [OF ok conn_ok_take [OF net_ok_conn(1) [OF ok tcp_find_bound(4) [OF True]] t]])
  with ok assms(2) True k w t show ?thesis by (cases w) (auto simp: net_tcp_recv_def)
qed (use assms in \<open>simp add: net_tcp_recv_def\<close>)

lemma tcp_close_wait_ok: "net_ok st \<Longrightarrow> tcp_close_wait e n i deadline st = Some st' \<Longrightarrow> net_ok st'"
proof (induction n arbitrary: st)
  case (Suc n)
  obtain now st1 where k: "ktime_ms e st = (now, st1)" by fastforce
  then have ok1: "net_ok st1" using Suc.prems(1) net_ok_ktime(1) by blast
  show ?case
  proof (cases "tc_state (conn i st) = TCP_FIN_WAIT \<and> now < deadline")
    case True
    with Suc.prems(2) k obtain st2 where p: "e_poll e st1 = Some st2" "tcp_close_wait e n i deadline st2 = Some st'"
      by (auto simp: bind_eq_Some_conv)
    from Suc.IH [OF poll_ok [OF ok1 p(1)] p(2)] show ?thesis .
  qed (use Suc.prems k ok1 in \<open>auto split: if_splits\<close>)
qed simp

lemma tcp_close_ok:
  assumes "net_ok st" "net_tcp_close e cid st = Some st'"
  shows "net_ok st'"
proof (cases "tcp_valid cid st")
  case True
  let ?i = "nat cid"
  have i: "?i < TCP_CONNS" using True by (rule tcp_find_bound(4))
  obtain st1 where st1: "(if tc_state (conn ?i st) = TCP_ESTABLISHED
              then do {
                (sent, st) \<leftarrow> tcp_emit e ?i (TCP_FIN OR TCP_ACK) [] st;
                let st = set_conn ?i ((conn ?i st)\<lparr>tc_state := TCP_FIN_WAIT\<rparr>) st; (now, st) = ktime_ms e st in
                tcp_close_wait e (e_fuel e) ?i (now + 1000) st }
              else Some st) = Some st1" and st': "st' = set_conn ?i ((conn ?i st1)\<lparr>tc_in_use := False\<rparr>) st1"
    using assms(2) True unfolding net_tcp_close_def by (auto simp: bind_eq_Some_conv Let_def)
  have "net_ok st1"
  proof (cases "tc_state (conn ?i st) = TCP_ESTABLISHED")
    case True
    with st1 obtain sent st2 where em: "tcp_emit e ?i (TCP_FIN OR TCP_ACK) [] st = Some (sent, st2)"
      by (auto simp: bind_eq_Some_conv)
    have ok2: "net_ok (set_conn ?i ((conn ?i st2)\<lparr>tc_state := TCP_FIN_WAIT\<rparr>) st2)"
      by (rule tcp_done_ok [OF tcp_emit_ok [OF assms(1) i em] i])
    obtain now st3 where k: "ktime_ms e (set_conn ?i ((conn ?i st2)\<lparr>tc_state := TCP_FIN_WAIT\<rparr>) st2) = (now, st3)" by fastforce
    have "net_ok st3" using ok2 k net_ok_ktime(1) by blast
    moreover have "tcp_close_wait e (e_fuel e) ?i (now + 1000) st3 = Some st1"
      using st1 True em k by (simp add: Let_def)
    ultimately show ?thesis by (rule tcp_close_wait_ok)
  qed (use st1 assms(1) in simp)
  then show ?thesis unfolding st' by (rule net_ok_conn(2)) (simp add: net_ok_conn(1) [OF \<open>net_ok st1\<close> i])
qed (use assms in \<open>simp add: net_tcp_close_def\<close>)

end

end
