(* ===== verification/Net_Stack.thy ===== *)
theory Net_Stack
  imports Tcp
begin

text \<open>
  The input side of \<^verbatim>\<open>src/src/net.c\<close> and the pump \<^verbatim>\<open>net_poll\<close>, which close the recursion between the
  layers: \<open>net_poll n\<close> is the pump with at most \<open>n\<close> nested rounds, and \<open>stack_env e n\<close> the environment in
  which a blocking operation runs on it. The main result is that no traffic can make the stack store outside
  a buffer or leave its well-formed states, whatever operations are called and however they are interleaved.
\<close>

subsection \<open>Definitions\<close>

definition ip_input :: "'w env \<Rightarrow> bytes \<Rightarrow> 'w net \<Rightarrow> 'w net option" where
  "ip_input e data st =
     (if length data < 20 then Some st
      else case ip_unpack data of
        None \<Rightarrow> Some (st\<lparr>net_fault := True\<rparr>)
      | Some ip \<Rightarrow>
          if drop_bit 4 (ip_ver_ihl ip) \<noteq> 4 then Some st
          else let ihl = unat (ip_ver_ihl ip AND 0x0F) * 4 in
          if ihl < 20 \<or> ihl > length data then Some st
          else if ip_dst ip \<noteq> my_ip st \<and> ip_dst ip \<noteq> 0xFFFFFFFF then Some st
          else let tot = unat (ip_tot_len ip) in
          if tot > length data \<or> tot < ihl then Some st
          else let payload = take (tot - ihl) (drop ihl data) in
          if ip_proto ip = IP_PROTO_ICMP then icmp_input e (ip_src ip) payload st
          else if ip_proto ip = IP_PROTO_UDP then Some (udp_input (ip_src ip) payload st)
          else if ip_proto ip = IP_PROTO_TCP then tcp_input e (ip_src ip) payload st
          else Some st)"

definition ether_input :: "'w env \<Rightarrow> bytes \<Rightarrow> 'w net \<Rightarrow> 'w net option" where
  "ether_input e data st =
     (if length data < 14 then Some st
      else case eth_unpack data of
        None \<Rightarrow> Some (st\<lparr>net_fault := True\<rparr>)
      | Some eth \<Rightarrow>
          if \<not> mac_eq (eth_dst eth) (my_mac st) \<and> \<not> mac_eq (eth_dst eth) bcast_mac then Some st
          else if eth_type eth = ETH_ARP then Some (arp_input e (drop 14 data) st)
          else if eth_type eth = ETH_IP then ip_input e (drop 14 data) st
          else Some st)"

fun rx_loop :: "'w env \<Rightarrow> nat \<Rightarrow> 'w net \<Rightarrow> 'w net option" where
  "rx_loop e 0 st = None"
| "rx_loop e (Suc n) st =
     (let (f, w) = e_rx e (wire st); st = st\<lparr>wire := w\<rparr> in
      case f of
        None \<Rightarrow> Some st
      | Some data \<Rightarrow> do { st \<leftarrow> ether_input e data st; rx_loop e n st })"

definition poll_round :: "'w env \<Rightarrow> 'w net \<Rightarrow> 'w net option" where
  "poll_round e st =
     (if \<not> ready st then Some st
      else do { st \<leftarrow> rx_loop e (e_fuel e) st; tcp_tick e st })"

primrec net_poll :: "nat \<Rightarrow> 'w env \<Rightarrow> 'w net \<Rightarrow> 'w net option" where
  "net_poll 0 = (\<lambda>e st. None)"
| "net_poll (Suc n) = (\<lambda>e st. poll_round (e\<lparr>e_poll := net_poll n e, e_fuel := n\<rparr>) st)"

definition stack_env :: "'w env \<Rightarrow> nat \<Rightarrow> 'w env" where
  "stack_env e n = e\<lparr>e_poll := net_poll n e, e_fuel := n\<rparr>"

definition PING_PAYLOAD :: nat where "PING_PAYLOAD = 32"

definition ping_packet :: "u16 \<Rightarrow> bytes" where
  "ping_packet seq =
     (let h = \<lparr>icmp_type = ICMP_ECHO_REQUEST, icmp_code = 0, icmp_csum = 0, icmp_id = PING_ID, icmp_seq = seq\<rparr>;
          payload = map of_nat [0..<PING_PAYLOAD]
      in icmp_pack (h\<lparr>icmp_csum := inet_csum (icmp_pack h @ payload)\<rparr>) @ payload)"

fun ping_wait :: "'w env \<Rightarrow> nat \<Rightarrow> u64 \<Rightarrow> 'w net \<Rightarrow> (bool \<times> 'w net) option" where
  "ping_wait e 0 deadline st = None"
| "ping_wait e (Suc n) deadline st =
     (if ping_got st then Some (True, st)
      else do {
        st \<leftarrow> e_poll e st;
        let (now, st) = ktime_ms e st in
        if now \<ge> deadline then Some (False, st) else ping_wait e n deadline st })"

text \<open>The result is the round-trip time, when a reply came.\<close>

definition net_ping :: "'w env \<Rightarrow> u32 \<Rightarrow> u32 \<Rightarrow> 'w net \<Rightarrow> (u64 option \<times> 'w net) option" where
  "net_ping e dst_ip timeout_ms st =
     (if \<not> ready st then Some (None, st)
      else let st = st\<lparr>ping_seq := ping_seq st + 1, ping_got := False\<rparr>; (now, st) = ktime_us e st;
               st = st\<lparr>ping_send_us := now\<rparr> in do {
        (sent, st) \<leftarrow> ip_send e dst_ip IP_PROTO_ICMP (ping_packet (ping_seq st)) st;
        (if \<not> sent then Some (None, st)
         else let (now, st) = ktime_ms e st in do {
           (got, st) \<leftarrow> ping_wait e (e_fuel e) (now + ucast timeout_ms) st;
           Some (if got then Some (ping_rtt_us st) else None, st) }) })"

definition net_config :: "u32 \<Rightarrow> u32 \<Rightarrow> u32 \<Rightarrow> 'w net \<Rightarrow> 'w net" where
  "net_config ip netmask gateway_ip st = st\<lparr>my_ip := ip, my_mask := netmask, my_gw := gateway_ip\<rparr>"

subsection \<open>The stack stays well formed\<close>

lemma eth_unpack_total: "14 \<le> length data \<Longrightarrow> \<exists>h. eth_unpack data = Some h"
  by (simp add: eth_unpack_def get_be16_def get_bytes_def)

lemma ip_unpack_total: "20 \<le> length data \<Longrightarrow> \<exists>h. ip_unpack data = Some h"
  by (cases data) (auto simp: ip_unpack_def get_be16_def get_be32_def get_le16_def rd_def)

lemma length_ping_packet [simp]: "length (ping_packet seq) = 40"
  by (simp add: ping_packet_def Let_def PING_PAYLOAD_def)

context pump
begin

lemma ip_input_ok:
  assumes "net_ok st" "ip_input e data st = Some st'"
  shows "net_ok st'"
proof (cases "length data < 20")
  case False
  then obtain ip where ip: "ip_unpack data = Some ip" using ip_unpack_total [of data] by auto
  show ?thesis
    using assms(2) False ip assms(1) unfolding ip_input_def
    by (auto simp: Let_def split: if_splits intro: net_ok_udp_input
        dest!: icmp_input_ok [OF assms(1)] tcp_input_ok [OF assms(1)])
qed (use assms in \<open>simp add: ip_input_def\<close>)

lemma ether_input_ok:
  assumes "net_ok st" "ether_input e data st = Some st'"
  shows "net_ok st'"
proof (cases "length data < 14")
  case False
  then obtain eth where eth: "eth_unpack data = Some eth" using eth_unpack_total [of data] by auto
  show ?thesis
    using assms(2) False eth assms(1) unfolding ether_input_def
    by (auto split: if_splits intro: net_ok_arp_input dest!: ip_input_ok [OF assms(1)])
qed (use assms in \<open>simp add: ether_input_def\<close>)

lemma rx_loop_ok: "net_ok st \<Longrightarrow> rx_loop e n st = Some st' \<Longrightarrow> net_ok st'"
proof (induction n arbitrary: st)
  case (Suc n)
  obtain f w where r: "e_rx e (wire st) = (f, w)" by fastforce
  have ok1: "net_ok (st\<lparr>wire := w\<rparr>)" using Suc.prems(1) by simp
  show ?case
  proof (cases f)
    case (Some data)
    with Suc.prems(2) r obtain st1 where e1: "ether_input e data (st\<lparr>wire := w\<rparr>) = Some st1" "rx_loop e n st1 = Some st'"
      by (auto simp: bind_eq_Some_conv)
    from Suc.IH [OF ether_input_ok [OF ok1 e1(1)] e1(2)] show ?thesis .
  qed (use Suc.prems r ok1 in auto)
qed simp

lemma poll_round_ok:
  assumes "net_ok st" "poll_round e st = Some st'"
  shows "net_ok st'"
proof (cases "ready st")
  case True
  then obtain st1 where "rx_loop e (e_fuel e) st = Some st1" "tcp_tick e st1 = Some st'"
    using assms(2) by (auto simp: poll_round_def bind_eq_Some_conv)
  then show ?thesis using tcp_tick_ok [OF rx_loop_ok [OF assms(1)]] by blast
qed (use assms in \<open>simp add: poll_round_def\<close>)

lemma ping_wait_ok: "net_ok st \<Longrightarrow> ping_wait e n deadline st = Some (got, st') \<Longrightarrow> net_ok st'"
proof (induction n arbitrary: st)
  case (Suc n)
  show ?case
  proof (cases "ping_got st")
    case False
    with Suc.prems(2) obtain st1 where p: "e_poll e st = Some st1" by (auto simp: bind_eq_Some_conv)
    obtain now st2 where k: "ktime_ms e st1 = (now, st2)" by fastforce
    then have "net_ok st2" using poll_ok [OF Suc.prems(1) p] net_ok_ktime(1) by blast
    with Suc.prems(2) False p k show ?thesis by (auto split: if_splits dest: Suc.IH)
  qed (use Suc.prems in simp)
qed simp

lemma net_ping_ok:
  assumes "net_ok st" "net_ping e dst t st = Some (r, st')"
  shows "net_ok st'"
proof (cases "ready st")
  case True
  define st0 where "st0 = st\<lparr>ping_seq := ping_seq st + 1, ping_got := False\<rparr>"
  obtain now st1 where k: "ktime_us e st0 = (now, st1)" by fastforce
  define st2 where "st2 = st1\<lparr>ping_send_us := now\<rparr>"
  have ok2: "net_ok st2" using assms(1) k net_ok_ktime(2) [of e st0 now st1] by (simp add: st0_def st2_def)
  obtain sent st3 where s: "ip_send e dst IP_PROTO_ICMP (ping_packet (ping_seq st2)) st2 = Some (sent, st3)"
    using assms(2) True k by (auto simp: net_ping_def bind_eq_Some_conv st0_def st2_def)
  have ok3: "net_ok st3" by (rule ip_send_ok [OF ok2 _ s]) simp
  obtain now' st4 where k': "ktime_ms e st3 = (now', st4)" by fastforce
  then have ok4: "net_ok st4" using ok3 net_ok_ktime(1) by blast
  show ?thesis
    using assms(2) True k s k' ok3 ping_wait_ok [OF ok4]
    by (auto simp: net_ping_def bind_eq_Some_conv st0_def st2_def split: if_splits)
qed (use assms in \<open>simp add: net_ping_def\<close>)

end

text \<open>The pump itself meets what the layers rely on, for every bound on its rounds.\<close>

lemma net_poll_ok: "net_ok st \<Longrightarrow> net_poll n e st = Some st' \<Longrightarrow> net_ok st'"
proof (induction n arbitrary: st st')
  case (Suc n)
  have "pump (e\<lparr>e_poll := net_poll n e, e_fuel := n\<rparr>)" by unfold_locales (simp add: Suc.IH)
  from pump.poll_round_ok [OF this Suc.prems(1)] Suc.prems(2) show ?case by simp
qed simp

interpretation stack: pump "stack_env e n" for e :: "'w env" and n
  by unfold_locales (simp add: stack_env_def net_poll_ok)

subsection \<open>A silent network\<close>

text \<open>A card that delivers nothing and a clock that advances by one millisecond with every reading.\<close>

definition silent :: "'w env \<Rightarrow> ('w \<Rightarrow> nat) \<Rightarrow> bool" where
  "silent e t \<longleftrightarrow> (\<forall>w. e_rx e w = (None, w) \<and> fst (e_ms e w) = of_nat (t w) \<and> t (snd (e_ms e w)) = Suc (t w))"

definition idle_tcp :: "'w net \<Rightarrow> bool" where
  "idle_tcp st \<longleftrightarrow> (\<forall>i<TCP_CONNS. tc_retx_len (conn i st) = 0)"

lemma tick_loop_idle: "(\<forall>i\<in>set is. tc_retx_len (conn i st) = 0) \<Longrightarrow> tick_loop e now is st = Some st"
  by (induction "is") (auto simp: Let_def)

lemma silent_poll:
  assumes "silent e t" "ready st" "idle_tcp st"
  shows "net_poll (Suc (Suc n)) e st = Some (st\<lparr>wire := snd (e_ms e (wire st))\<rparr>)"
proof -
  let ?e = "e\<lparr>e_poll := net_poll (Suc n) e, e_fuel := Suc n\<rparr>"
  have rx: "rx_loop ?e (Suc n) st = Some st" using assms(1) by (simp add: silent_def)
  have "tick_loop ?e now [0..<TCP_CONNS] (st\<lparr>wire := w\<rparr>) = Some (st\<lparr>wire := w\<rparr>)" for now w
    using assms(3) by (intro tick_loop_idle) (simp add: idle_tcp_def)
  then have tick: "tcp_tick ?e st = Some (st\<lparr>wire := snd (e_ms e (wire st))\<rparr>)"
    by (simp add: tcp_tick_def ktime_ms_def split: prod.split)
  have "net_poll (Suc (Suc n)) e st = poll_round ?e st" by (subst net_poll.simps(2)) simp
  then show ?thesis using assms(2) rx tick unfolding poll_round_def by simp
qed

lemma silent_wait:
  assumes "silent e t"
  shows "ready st \<Longrightarrow> idle_tcp st \<Longrightarrow> us_count (udp_socks st ! i) = 0 \<Longrightarrow> unat deadline < t (wire st) + k \<Longrightarrow>
    t (wire st) + 2 * k < 2 ^ 64 \<Longrightarrow> 0 < k \<Longrightarrow>
    \<exists>st'. udp_wait (stack_env e (Suc (Suc n))) k i deadline st = Some (False, st')"
proof (induction k arbitrary: st)
  case (Suc k)
  define w1 where "w1 = snd (e_ms e (wire st))"
  define st2 where "st2 = st\<lparr>wire := snd (e_ms e w1)\<rparr>"
  have t1: "t w1 = Suc (t (wire st))" and t2: "t (wire st2) = Suc (Suc (t (wire st)))"
    using assms by (simp_all add: silent_def w1_def st2_def)
  let ?e = "stack_env e (Suc (Suc n))"
  have p: "e_poll ?e st = Some (st\<lparr>wire := w1\<rparr>)"
    using silent_poll [OF assms Suc.prems(1,2)] by (simp add: stack_env_def w1_def del: net_poll.simps)
  have now: "fst (e_ms e w1) = of_nat (Suc (t (wire st)))" using assms t1 by (simp only: silent_def)
  have k: "ktime_ms ?e (st\<lparr>wire := w1\<rparr>) = (of_nat (Suc (t (wire st))), st2)"
    using now by (auto simp: ktime_ms_def st2_def stack_env_def split: prod.split)
  have u: "unat (of_nat (Suc (t (wire st))) :: u64) = Suc (t (wire st))"
    using Suc.prems(5) by (intro unat_of_nat_small) simp
  show ?case
  proof (cases "deadline \<le> of_nat (Suc (t (wire st)))")
    case True
    then show ?thesis using Suc.prems(3) p k by simp
  next
    case False
    then have "Suc (t (wire st)) < unat deadline" using u by (simp add: word_le_nat_alt)
    then have "unat deadline < t (wire st2) + k" "0 < k" "t (wire st2) + 2 * k < 2 ^ 64"
      using Suc.prems(4,5) by (simp_all add: t2)
    moreover have "ready st2" "idle_tcp st2" "us_count (udp_socks st2 ! i) = 0"
      using Suc.prems by (simp_all add: st2_def idle_tcp_def)
    ultimately obtain st' where "udp_wait ?e k i deadline st2 = Some (False, st')" using Suc.IH by blast
    then show ?thesis using Suc.prems(3) p k False by simp
  qed
qed simp

subsection \<open>Reachable states\<close>

text \<open>Every state that the operations of the stack lead to, in any order, with any traffic and any clock.
  The second rule is the bring-up of the card in \<^verbatim>\<open>net_init\<close>.\<close>

inductive net_reach :: "'w env \<Rightarrow> 'w net \<Rightarrow> bool" for e where
  boot: "net_reach e (net_boot w)"
| up: "net_reach e st \<Longrightarrow> length mac = 6 \<Longrightarrow> net_reach e (st\<lparr>my_mac := mac, ready := True\<rparr>)"
| config: "net_reach e st \<Longrightarrow> net_reach e (net_config ip netmask gw st)"
| poll: "net_reach e st \<Longrightarrow> net_poll n e st = Some st' \<Longrightarrow> net_reach e st'"
| ping: "net_reach e st \<Longrightarrow> net_ping (stack_env e n) dst t st = Some (rtt, st') \<Longrightarrow> net_reach e st'"
| udp_open: "net_reach e st \<Longrightarrow> net_udp_open st = (s, st') \<Longrightarrow> net_reach e st'"
| udp_bind: "net_reach e st \<Longrightarrow> net_udp_bind s port st = (ok, st') \<Longrightarrow> net_reach e st'"
| udp_sendto: "net_reach e st \<Longrightarrow> net_udp_sendto (stack_env e n) s dst port data st = Some (ok, st') \<Longrightarrow> net_reach e st'"
| udp_recvfrom: "net_reach e st \<Longrightarrow> net_udp_recvfrom (stack_env e n) s t cap st = Some (r, st') \<Longrightarrow> net_reach e st'"
| udp_close: "net_reach e st \<Longrightarrow> net_reach e (net_udp_close s st)"
| tcp_connect: "net_reach e st \<Longrightarrow> net_tcp_connect (stack_env e n) dst port t st = Some (c, st') \<Longrightarrow> net_reach e st'"
| tcp_listen: "net_reach e st \<Longrightarrow> net_tcp_listen port st = (c, st') \<Longrightarrow> net_reach e st'"
| tcp_accept: "net_reach e st \<Longrightarrow> net_tcp_accept (stack_env e n) c t st = Some (r, st') \<Longrightarrow> net_reach e st'"
| tcp_send: "net_reach e st \<Longrightarrow> net_tcp_send (stack_env e n) c data st = Some (sent, st') \<Longrightarrow> net_reach e st'"
| tcp_recv: "net_reach e st \<Longrightarrow> net_tcp_recv (stack_env e n) c cap t st = Some (got, st') \<Longrightarrow> net_reach e st'"
| tcp_close: "net_reach e st \<Longrightarrow> net_tcp_close (stack_env e n) c st = Some st' \<Longrightarrow> net_reach e st'"

lemma net_reach_ok: "net_reach e st \<Longrightarrow> net_ok st"
proof (induction rule: net_reach.induct)
  case (boot w) show ?case by (rule net_ok_boot)
next
  case (up st mac) then show ?case by (simp add: net_ok_def)
next
  case (config st) then show ?case by (simp add: net_config_def net_ok_def)
qed (auto intro: net_ok_udp_close dest: net_poll_ok net_ok_udp_open net_ok_udp_bind net_ok_tcp_listen
      stack.net_ping_ok stack.udp_sendto_ok stack.udp_recvfrom_ok stack.tcp_connect_ok stack.tcp_accept_ok
      stack.tcp_send_ok stack.tcp_recv_ok stack.tcp_close_ok)

subsection \<open>Properties\<close>





end
