(* ===== verification/Dhcp.thy ===== *)
theory Dhcp
  imports Net_Stack
begin

text \<open>
  The DHCP client \<^verbatim>\<open>src/src/dhcp.c\<close> and the bring-up \<^verbatim>\<open>net_init\<close> of \<^verbatim>\<open>src/src/net.c\<close>, which runs it. The DNS
  server of the lease is the static variable \<^verbatim>\<open>g_dns\<close>; it is passed beside the state of the stack. The text an
  operation prints is part of its result. The lemmas show that parsing ends and stays in the buffer, that the
  options of a reply are read as they are encoded, and that the messages the client builds fit their buffer.
\<close>

subsection \<open>Definitions\<close>

definition DHCP_SERVER_PORT :: u16 where "DHCP_SERVER_PORT = 67"
definition DHCP_CLIENT_PORT :: u16 where "DHCP_CLIENT_PORT = 68"
definition BOOTREQUEST :: u8 where "BOOTREQUEST = 1"
definition BOOTREPLY :: u8 where "BOOTREPLY = 2"
definition DHCP_MAGIC_COOKIE :: u32 where "DHCP_MAGIC_COOKIE = 0x63825363"
definition DHCP_DISCOVER :: u8 where "DHCP_DISCOVER = 1"
definition DHCP_OFFER :: u8 where "DHCP_OFFER = 2"
definition DHCP_REQUEST :: u8 where "DHCP_REQUEST = 3"
definition DHCP_ACK :: u8 where "DHCP_ACK = 5"
definition OPT_MASK :: u8 where "OPT_MASK = 1"
definition OPT_ROUTER :: u8 where "OPT_ROUTER = 3"
definition OPT_DNS :: u8 where "OPT_DNS = 6"
definition OPT_MSGTYPE :: u8 where "OPT_MSGTYPE = 53"
definition OPT_REQIP :: u8 where "OPT_REQIP = 50"
definition OPT_SERVERID :: u8 where "OPT_SERVERID = 54"
definition OPT_PARAMLIST :: u8 where "OPT_PARAMLIST = 55"
definition OPT_END :: u8 where "OPT_END = 255"
definition DHCP_FIXED :: nat where "DHCP_FIXED = 236"

lemmas dhcp_opts = OPT_MASK_def OPT_ROUTER_def OPT_DNS_def OPT_MSGTYPE_def OPT_REQIP_def OPT_SERVERID_def
  OPT_PARAMLIST_def OPT_END_def

record dhcp_hdr =
  bp_op :: u8
  bp_htype :: u8
  bp_hlen :: u8
  bp_hops :: u8
  bp_xid :: u32
  bp_secs :: u16
  bp_flags :: u16
  bp_ciaddr :: u32
  bp_yiaddr :: u32
  bp_siaddr :: u32
  bp_giaddr :: u32
  bp_chaddr :: bytes
  bp_sname :: bytes
  bp_file :: bytes

definition dhcp_pack :: "dhcp_hdr \<Rightarrow> bytes" where
  "dhcp_pack h = [bp_op h, bp_htype h, bp_hlen h, bp_hops h] @ be32_bytes (bp_xid h) @ be16_bytes (bp_secs h) @
     be16_bytes (bp_flags h) @ be32_bytes (bp_ciaddr h) @ be32_bytes (bp_yiaddr h) @ be32_bytes (bp_siaddr h) @
     be32_bytes (bp_giaddr h) @ bp_chaddr h @ bp_sname h @ bp_file h"

text \<open>The fields of a reply that are used.\<close>

definition dhcp_unpack :: "bytes \<Rightarrow> (u8 \<times> u32 \<times> u32) option" where
  "dhcp_unpack d = do { op' \<leftarrow> rd d 0; xid \<leftarrow> get_be32 d 4; yiaddr \<leftarrow> get_be32 d 16; Some (op', xid, yiaddr) }"

definition nonce32 :: "u32 \<Rightarrow> u32 \<Rightarrow> u32" where
  "nonce32 lo hi = lo XOR push_bit 13 hi XOR drop_bit 7 hi"

definition put32 :: "u32 \<Rightarrow> bytes" where
  "put32 v = be32_bytes v"

definition get32 :: "bytes \<Rightarrow> nat \<Rightarrow> u32 option" where
  "get32 p i = get_be32 p i"

definition dhcp_options :: "u8 \<Rightarrow> u32 \<Rightarrow> u32 \<Rightarrow> bytes" where
  "dhcp_options type' req_ip server_id =
     [OPT_MSGTYPE, 1, type'] @
     (if type' = DHCP_REQUEST
      then [OPT_REQIP, 4] @ put32 req_ip @ [OPT_SERVERID, 4] @ put32 server_id else []) @
     [OPT_PARAMLIST, 3, OPT_MASK, OPT_ROUTER, OPT_DNS, OPT_END]"

definition build :: "u32 \<Rightarrow> u8 \<Rightarrow> u32 \<Rightarrow> u32 \<Rightarrow> bytes \<Rightarrow> bytes" where
  "build xid type' req_ip server_id mac =
     (let h = \<lparr>bp_op = BOOTREQUEST, bp_htype = 1, bp_hlen = 6, bp_hops = 0, bp_xid = xid, bp_secs = 0, bp_flags = 0x8000,
                bp_ciaddr = 0, bp_yiaddr = 0, bp_siaddr = 0, bp_giaddr = 0, bp_chaddr = mac @ replicate 10 0,
                bp_sname = replicate 64 0, bp_file = replicate 128 0\<rparr>;
          msg = dhcp_pack h @ put32 DHCP_MAGIC_COOKIE @ dhcp_options type' req_ip server_id
      in udp_pack \<lparr>uh_sport = DHCP_CLIENT_PORT, uh_dport = DHCP_SERVER_PORT, uh_len = of_nat (8 + length msg), uh_csum = 0\<rparr> @
         msg)"

record dhcp_lease =
  ls_ip :: u32
  ls_mask :: u32
  ls_gateway_ip :: u32
  ls_dns_ip :: u32
  ls_server_ip :: u32

record dhcp_req =
  rq_sock :: int
  rq_mac :: bytes
  rq_xid :: u32
  rq_slot_ms :: u32
  rq_type :: u8
  rq_want :: u8
  rq_req_ip :: u32
  rq_server_ip :: u32

text \<open>One option of code \<open>code\<close> with \<open>l\<close> bytes of data at offset \<open>i\<close>.\<close>

definition dhcp_option :: "bytes \<Rightarrow> u8 \<Rightarrow> nat \<Rightarrow> nat \<Rightarrow> u8 \<times> dhcp_lease \<Rightarrow> (u8 \<times> dhcp_lease) option" where
  "dhcp_option d code i l s =
     (if code = OPT_MSGTYPE \<and> l \<ge> 1 then do { t \<leftarrow> rd d i; Some (t, snd s) }
      else if code = OPT_MASK \<and> l \<ge> 4 then do { v \<leftarrow> get32 d i; Some (fst s, (snd s)\<lparr>ls_mask := v\<rparr>) }
      else if code = OPT_ROUTER \<and> l \<ge> 4 then do { v \<leftarrow> get32 d i; Some (fst s, (snd s)\<lparr>ls_gateway_ip := v\<rparr>) }
      else if code = OPT_DNS \<and> l \<ge> 4 then do { v \<leftarrow> get32 d i; Some (fst s, (snd s)\<lparr>ls_dns_ip := v\<rparr>) }
      else if code = OPT_SERVERID \<and> l \<ge> 4 then do { v \<leftarrow> get32 d i; Some (fst s, (snd s)\<lparr>ls_server_ip := v\<rparr>) }
      else Some s)"

function option_loop :: "bytes \<Rightarrow> nat \<Rightarrow> nat \<Rightarrow> u8 \<times> dhcp_lease \<Rightarrow> (u8 \<times> dhcp_lease) option" where
  "option_loop d n i s =
     (if i < n then
        case rd d i of
          None \<Rightarrow> None
        | Some code \<Rightarrow>
            if code = OPT_END then Some s
            else if code = 0 then option_loop d n (i + 1) s
            else if i + 1 \<ge> n then Some s
            else case rd d (i + 1) of
                None \<Rightarrow> None
              | Some l \<Rightarrow>
                  if i + 2 + unat l > n then Some s
                  else case dhcp_option d code (i + 2) (unat l) s of
                      None \<Rightarrow> None
                    | Some s' \<Rightarrow> option_loop d n (i + 2 + unat l) s'
      else Some s)"
  by pat_completeness auto
termination by (relation "measure (\<lambda>(d, n, i, s). n - i)") auto

declare option_loop.simps [simp del]

text \<open>The outer \<^const>\<open>None\<close> is a read outside \<open>d\<close>, the inner one the result false.\<close>

definition parse :: "bytes \<Rightarrow> nat \<Rightarrow> u32 \<Rightarrow> u8 \<Rightarrow> dhcp_lease option option" where
  "parse d n xid want =
     (if n < DHCP_FIXED + 4 then Some None
      else do {
        (op', x, yiaddr) \<leftarrow> dhcp_unpack d;
        if op' \<noteq> BOOTREPLY \<or> x \<noteq> xid then Some None
        else do {
          magic \<leftarrow> get32 d DHCP_FIXED;
          if magic \<noteq> DHCP_MAGIC_COOKIE then Some None
          else do {
            (mtype, lease) \<leftarrow> option_loop d n (DHCP_FIXED + 4)
              (0, \<lparr>ls_ip = yiaddr, ls_mask = 0, ls_gateway_ip = 0, ls_dns_ip = 0, ls_server_ip = 0\<rparr>);
            Some (if mtype = want then Some lease else None) } } })"

text \<open>The send and receive buffers have 600 bytes.\<close>

fun exchange :: "'w env \<Rightarrow> dhcp_req \<Rightarrow> nat \<Rightarrow> 'w net \<Rightarrow> (dhcp_lease option \<times> 'w net) option" where
  "exchange e req 0 st = Some (None, st)"
| "exchange e req (Suc k) st =
     (let msg = build (rq_xid req) (rq_type req) (rq_req_ip req) (rq_server_ip req) (rq_mac req) in
      if length msg > 600 then Some (None, st\<lparr>net_fault := True\<rparr>)
      else let (sent, st) = ip_send_bcast e 0 IP_PROTO_UDP msg st in do {
        (r, st) \<leftarrow> net_udp_recvfrom e (rq_sock req) (rq_slot_ms req) 600 st;
        (case r of
           Udp_error \<Rightarrow> exchange e req k st
         | Udp_dgram n d ip port \<Rightarrow>
             if n > 0 then
               (case parse d n (rq_xid req) (rq_want req) of
                  None \<Rightarrow> Some (None, st\<lparr>net_fault := True\<rparr>)
                | Some (Some lease) \<Rightarrow> Some (Some lease, st)
                | Some None \<Rightarrow> exchange e req k st)
             else exchange e req k st) })"

text \<open>\<open>merge_ack\<close> is the lease of the offer with what the acknowledgement confirms.\<close>

definition merge_ack :: "dhcp_lease \<Rightarrow> dhcp_lease \<Rightarrow> dhcp_lease" where
  "merge_ack lease ack = lease\<lparr>ls_ip := ls_ip ack,
     ls_mask := if ls_mask ack \<noteq> 0 then ls_mask ack else ls_mask lease,
     ls_gateway_ip := if ls_gateway_ip ack \<noteq> 0 then ls_gateway_ip ack else ls_gateway_ip lease,
     ls_dns_ip := if ls_dns_ip ack \<noteq> 0 then ls_dns_ip ack else ls_dns_ip lease\<rparr>"

definition net_dns_server :: "u32 \<Rightarrow> u32" where
  "net_dns_server g_dns = (if g_dns \<noteq> 0 then g_dns else 0x0A000203)"

definition ascii :: "string \<Rightarrow> bytes" where
  "ascii s = map of_char s"

definition ip_text :: "u32 \<Rightarrow> bytes" where
  "ip_text ip = butlast (net_ntoa ip)"

definition dora :: "'w env \<Rightarrow> dhcp_req \<Rightarrow> 'w net \<Rightarrow> (dhcp_lease option \<times> 'w net) option" where
  "dora e req st = do {
     (offer, st) \<leftarrow> exchange e req 3 st;
     (case offer of
        None \<Rightarrow> Some (None, st)
      | Some lease \<Rightarrow> do {
          (ack, st) \<leftarrow> exchange e (req\<lparr>rq_type := DHCP_REQUEST, rq_want := DHCP_ACK, rq_req_ip := ls_ip lease,
            rq_server_ip := ls_server_ip lease\<rparr>) 3 st;
          Some (map_option (merge_ack lease) ack, st) }) }"

text \<open>\<open>lo\<close> and \<open>hi\<close> are the halves of the time-stamp counter. The result is the answer, the text printed,
  \<^verbatim>\<open>g_dns\<close> and the stack.\<close>

definition net_dhcp :: "'w env \<Rightarrow> u32 \<Rightarrow> u32 \<Rightarrow> u32 \<Rightarrow> u32 \<Rightarrow> 'w net \<Rightarrow> (bool \<times> bytes \<times> u32 \<times> 'w net) option" where
  "net_dhcp e lo hi timeout_ms g_dns st =
     (let slot = (if timeout_ms div 6 < 200 then 200 else timeout_ms div 6);
          mac = my_mac st;
          (sock, st) = net_udp_open st
      in if sock < 0 then Some (False, [], g_dns, st)
         else let (bound, st) = net_udp_bind sock DHCP_CLIENT_PORT st in
         if \<not> bound then Some (False, [], g_dns, net_udp_close sock st)
         else do {
           (r, st) \<leftarrow> dora e \<lparr>rq_sock = sock, rq_mac = mac, rq_xid = nonce32 lo hi, rq_slot_ms = slot,
             rq_type = DHCP_DISCOVER, rq_want = DHCP_OFFER, rq_req_ip = 0, rq_server_ip = 0\<rparr> st;
           let st = net_udp_close sock st in
           Some (case r of
              None \<Rightarrow> (False, [], g_dns, st)
            | Some lease \<Rightarrow>
                let lease_mask = (if ls_mask lease = 0 then 0xFFFFFF00 else ls_mask lease);
                    st = net_config (ls_ip lease) lease_mask (ls_gateway_ip lease) st
                in (True, ascii ''juampiOS: net DHCP lease '' @ ip_text (ls_ip lease) @ ascii '' via '' @
                    ip_text (ls_gateway_ip lease) @ ascii '', dns '' @ ip_text (net_dns_server (ls_dns_ip lease)) @ [10],
                    ls_dns_ip lease, st)) })"

definition hexd :: bytes where
  "hexd = ascii ''0123456789abcdef''"

fun mac_text :: "bytes \<Rightarrow> bytes" where
  "mac_text [] = []"
| "mac_text (b # bs) = [hexd ! unat (drop_bit 4 b), hexd ! unat (b AND 0xF)] @ (if bs = [] then [] else [58]) @ mac_text bs"

text \<open>\<open>nic\<close> is the address of the card when \<^verbatim>\<open>e1000_init\<close> finds one. The results are the text printed,
  \<^verbatim>\<open>g_dns\<close> and the stack.\<close>

definition net_init :: "'w env \<Rightarrow> u32 \<Rightarrow> u32 \<Rightarrow> bytes option \<Rightarrow> u32 \<Rightarrow> 'w net \<Rightarrow> (bytes \<times> u32 \<times> 'w net) option" where
  "net_init e lo hi nic g_dns st =
     (case nic of
        None \<Rightarrow> Some (ascii ''juampiOS: net no NIC (e1000) found'' @ [10], g_dns, st)
      | Some mac \<Rightarrow> do {
          (ok, printed, g_dns, st) \<leftarrow> net_dhcp e lo hi 4000 g_dns (st\<lparr>my_mac := mac, ready := True\<rparr>);
          let (printed, st) = (if ok then (printed, st)
                else (printed @ ascii ''juampiOS: net DHCP failed, static 10.0.2.15'' @ [10],
                      net_config 0x0A00020F 0xFFFFFF00 0x0A000202 st)) in
          Some (printed @ ascii ''juampiOS: net e1000 up, mac='' @ mac_text (my_mac st) @ ascii '' ip='' @ ip_text (my_ip st) @ [10],
            g_dns, st) })"

subsection \<open>Messages fit their buffers\<close>

lemma length_dhcp_pack:
  "length (bp_chaddr h) = 16 \<Longrightarrow> length (bp_sname h) = 64 \<Longrightarrow> length (bp_file h) = 128 \<Longrightarrow> length (dhcp_pack h) = 236"
  by (simp add: dhcp_pack_def)

lemma length_build: "length mac = 6 \<Longrightarrow> length (build xid t ip server mac) \<le> 600"
  by (simp add: build_def Let_def dhcp_pack_def udp_pack_def dhcp_options_def put32_def)

lemma dhcp_option_total:
  "i + l \<le> length d \<Longrightarrow> \<exists>s'. dhcp_option d code i l s = Some s'"
  by (simp add: dhcp_option_def get32_def get_be32_def rd_def)

lemma option_loop_total: "n \<le> length d \<Longrightarrow> \<exists>s'. option_loop d n i s = Some s'"
proof (induction d n i s rule: option_loop.induct)
  case (1 d n i s)
  show ?case
  proof (cases "i < n \<and> d ! i \<noteq> OPT_END \<and> d ! i \<noteq> 0 \<and> i + 1 < n \<and> i + 2 + unat (d ! (i + 1)) \<le> n")
    case True
    then obtain s' where "dhcp_option d (d ! i) (i + 2) (unat (d ! (i + 1))) s = Some s'"
      using dhcp_option_total [of "i + 2" "unat (d ! (i + 1))" d "d ! i" s] "1.prems" by (meson order_trans)
    with True "1.IH"(2) [of "d ! i" "d ! (i + 1)" s'] "1.prems" show ?thesis by (subst option_loop.simps) (auto simp: rd_def)
  next
    case False
    with "1.IH"(1) [of "d ! i"] "1.prems" show ?thesis by (subst option_loop.simps) (auto simp: rd_def)
  qed
qed

lemma parse_total:
  assumes "n \<le> length d"
  shows "\<exists>r. parse d n xid want = Some r"
proof (cases "n < 240")
  case False
  with assms have "d \<noteq> []" by auto
  with assms False obtain x y where u: "dhcp_unpack d = Some (d ! 0, x, y)"
    by (simp add: dhcp_unpack_def get_be32_def rd_def)
  moreover obtain magic where "get32 d DHCP_FIXED = Some magic"
    using False assms by (auto simp: get32_def get_be32_def DHCP_FIXED_def)
  moreover obtain m l where "option_loop d n (DHCP_FIXED + 4)
      (0, \<lparr>ls_ip = y, ls_mask = 0, ls_gateway_ip = 0, ls_dns_ip = 0, ls_server_ip = 0\<rparr>) = Some (m, l)"
    using option_loop_total [OF assms] by fast
  ultimately show ?thesis by (simp add: parse_def)
qed (simp add: parse_def DHCP_FIXED_def)

subsection \<open>The options of a reply\<close>

datatype dhcp_opt = Pad | Opt u8 bytes

fun opt_ok :: "dhcp_opt \<Rightarrow> bool" where
  "opt_ok Pad \<longleftrightarrow> True"
| "opt_ok (Opt c d) \<longleftrightarrow> c \<noteq> 0 \<and> c \<noteq> OPT_END \<and> length d \<le> 255"

fun opt_bytes :: "dhcp_opt \<Rightarrow> bytes" where
  "opt_bytes Pad = [0]"
| "opt_bytes (Opt c d) = [c, of_nat (length d)] @ d"

definition opt_value :: "bytes \<Rightarrow> u32" where
  "opt_value d = be32 (d ! 0) (d ! 1) (d ! 2) (d ! 3)"

fun apply_opt :: "dhcp_opt \<Rightarrow> u8 \<times> dhcp_lease \<Rightarrow> u8 \<times> dhcp_lease" where
  "apply_opt Pad s = s"
| "apply_opt (Opt c d) s =
     (if c = 53 \<and> 1 \<le> length d then (d ! 0, snd s)
      else if length d < 4 then s
      else if c = 1 then (fst s, (snd s)\<lparr>ls_mask := opt_value d\<rparr>)
      else if c = 3 then (fst s, (snd s)\<lparr>ls_gateway_ip := opt_value d\<rparr>)
      else if c = 6 then (fst s, (snd s)\<lparr>ls_dns_ip := opt_value d\<rparr>)
      else if c = 54 then (fst s, (snd s)\<lparr>ls_server_ip := opt_value d\<rparr>)
      else s)"

lemma get32_append: "4 \<le> length d \<Longrightarrow> get32 (pre @ d @ post) (length pre) = Some (opt_value d)"
  by (auto simp: get32_def get_be32_def opt_value_def nth_append)

lemma dhcp_option_append:
  "dhcp_option (pre @ d @ post) c (length pre) (length d) s = Some (apply_opt (Opt c d) s)"
proof -
  have "rd (pre @ d @ post) (length pre) \<bind> f = f (d ! 0)" if "1 \<le> length d" for f :: "u8 \<Rightarrow> (u8 \<times> dhcp_lease) option"
    using that by (cases d) simp_all
  then show ?thesis by (auto simp: dhcp_option_def get32_append dhcp_opts simp del: rd_append)
qed

lemma option_loop_opts:
  "list_all opt_ok os \<Longrightarrow>
   option_loop (pre @ concat (map opt_bytes os) @ OPT_END # post) (length (pre @ concat (map opt_bytes os) @ OPT_END # post))
     (length pre) s = Some (fold apply_opt os s)"
proof (induction os arbitrary: pre s)
  case Nil
  then show ?case by (subst option_loop.simps) simp
next
  case (Cons x os)
  let ?r = "concat (map opt_bytes os) @ OPT_END # post"
  show ?case
  proof (cases x)
    case Pad
    have "option_loop ((pre @ [0]) @ ?r) (length ((pre @ [0]) @ ?r)) (length (pre @ [0])) s = Some (fold apply_opt os s)"
      using Cons.prems by (intro Cons.IH) simp
    then show ?thesis using Pad by (subst option_loop.simps) (simp add: OPT_END_def)
  next
    case (Opt c d)
    define m where "m = pre @ opt_bytes x @ ?r"
    have ok: "c \<noteq> 0" "c \<noteq> OPT_END" "length d \<le> 255" using Cons.prems Opt by simp_all
    have u: "unat (of_nat (length d) :: u8) = length d" using ok(3) by (intro unat_of_nat_small) simp
    have r0: "rd m (length pre) = Some c" and r1: "rd m (length pre + 1) = Some (of_nat (length d))"
      by (simp_all add: m_def Opt del: rd_eq_Some)
    have "dhcp_option ((pre @ [c, of_nat (length d)]) @ d @ ?r) c (length (pre @ [c, of_nat (length d)])) (length d) s =
        Some (apply_opt (Opt c d) s)" by (rule dhcp_option_append)
    then have o: "dhcp_option m c (length pre + 2) (length d) s = Some (apply_opt x s)" by (simp add: m_def Opt)
    have "option_loop ((pre @ opt_bytes x) @ ?r) (length ((pre @ opt_bytes x) @ ?r)) (length (pre @ opt_bytes x)) (apply_opt x s) =
        Some (fold apply_opt os (apply_opt x s))"
      using Cons.prems by (intro Cons.IH) simp
    then have rest: "option_loop m (length m) (length pre + 2 + length d) (apply_opt x s) = Some (fold apply_opt os (apply_opt x s))"
      by (simp add: m_def Opt add.assoc)
    have b: "length pre < length m" "length pre + 1 < length m" "length pre + 2 + length d \<le> length m" by (simp_all add: m_def Opt)
    have "option_loop m (length m) (length pre) s = Some (fold apply_opt os (apply_opt x s))"
      using ok(1,2) r0 r1 o rest b u by (subst option_loop.simps) (simp del: rd_eq_Some)
    then show ?thesis by (simp add: m_def)
  qed
qed

lemma dhcp_unpack_pack: "dhcp_unpack (dhcp_pack h @ rest) = Some (bp_op h, bp_xid h, bp_yiaddr h)"
  by (simp add: dhcp_unpack_def dhcp_pack_def get_be32_def be16_bytes_def be32_bytes_def)

subsection \<open>The stack stays well formed\<close>

text \<open>A reply that is not longer than the buffer is parsed without a fault, so what is left is the stack's own
  work.\<close>

context pump
begin

lemma ip_send_bcast_build:
  assumes "net_ok st" "length mac = 6" "ip_send_bcast e s p (build x t a b mac) st = (r, st')"
  shows "net_ok st'"
  using assms(1) _ assms(3) by (rule net_ok_ip_send_bcast) (use length_build [OF assms(2), of x t a b] in simp)

lemma exchange_ok:
  assumes "length (rq_mac req) = 6"
  shows "net_ok st \<Longrightarrow> exchange e req k st = Some (r, st') \<Longrightarrow> net_ok (st'\<lparr>net_fault := False\<rparr>)"
proof (induction k arbitrary: st)
  case (Suc k)
  define msg where "msg = build (rq_xid req) (rq_type req) (rq_req_ip req) (rq_server_ip req) (rq_mac req)"
  have len: "\<not> length msg > 600" using length_build [OF assms] by (simp add: msg_def not_less)
  obtain s st1 where s1: "ip_send_bcast e 0 IP_PROTO_UDP msg st = (s, st1)" by fastforce
  have ok1: "net_ok st1" using ip_send_bcast_build [OF Suc.prems(1) assms] s1 by (simp add: msg_def)
  obtain u st2 where u: "net_udp_recvfrom e (rq_sock req) (rq_slot_ms req) 600 st1 = Some (u, st2)"
    and c: "(case u of
           Udp_error \<Rightarrow> exchange e req k st2
         | Udp_dgram n d ip port \<Rightarrow>
             if n > 0 then
               (case parse d n (rq_xid req) (rq_want req) of
                  None \<Rightarrow> Some (None, st2\<lparr>net_fault := True\<rparr>)
                | Some (Some lease) \<Rightarrow> Some (Some lease, st2)
                | Some None \<Rightarrow> exchange e req k st2)
             else exchange e req k st2) = Some (r, st')"
    using Suc.prems(2) len s1 by (auto simp: Let_def msg_def bind_eq_Some_conv)
  have ok2: "net_ok st2" using udp_recvfrom_ok [OF ok1 u] .
  then have "net_ok (st2\<lparr>net_fault := False\<rparr>)" by (simp add: net_ok_def)
  with c Suc.IH [OF ok2] show ?case by (auto split: udp_recv.splits if_splits option.splits)
qed (simp add: net_ok_def)

end

subsection \<open>Properties\<close>

text \<open>C25. The options of a reply are read as they are encoded: for every sequence of options and padding before
  the end marker, the parser accepts the reply exactly when the last message-type option is the wanted one, and
  the lease holds the offered address and the last value of each of the mask, router, DNS and server options.
  Options of other codes, and options too short for a value, change nothing.\<close>

theorem dhcp_parse_reply:
  assumes "list_all opt_ok os" "bp_op h = BOOTREPLY"
    and "length (bp_chaddr h) = 16" "length (bp_sname h) = 64" "length (bp_file h) = 128"
  shows "parse (dhcp_pack h @ put32 DHCP_MAGIC_COOKIE @ concat (map opt_bytes os) @ OPT_END # rest)
      (length (dhcp_pack h @ put32 DHCP_MAGIC_COOKIE @ concat (map opt_bytes os) @ OPT_END # rest)) (bp_xid h) want =
    Some (let (mtype, lease) = fold apply_opt os
        (0, \<lparr>ls_ip = bp_yiaddr h, ls_mask = 0, ls_gateway_ip = 0, ls_dns_ip = 0, ls_server_ip = 0\<rparr>)
      in if mtype = want then Some lease else None)"
proof -
  define m where "m = dhcp_pack h @ put32 DHCP_MAGIC_COOKIE @ concat (map opt_bytes os) @ OPT_END # rest"
  have l: "length (dhcp_pack h) = DHCP_FIXED" using length_dhcp_pack assms(3-5) by (simp add: DHCP_FIXED_def)
  have "get32 (dhcp_pack h @ put32 DHCP_MAGIC_COOKIE @ concat (map opt_bytes os) @ OPT_END # rest) (length (dhcp_pack h)) =
      Some (opt_value (put32 DHCP_MAGIC_COOKIE))" by (rule get32_append) (simp add: put32_def)
  moreover have "opt_value (put32 DHCP_MAGIC_COOKIE) = DHCP_MAGIC_COOKIE" by (simp add: opt_value_def put32_def be32_bytes_def)
  ultimately have magic: "get32 m DHCP_FIXED = Some DHCP_MAGIC_COOKIE" by (simp add: m_def l)
  have u: "dhcp_unpack m = Some (BOOTREPLY, bp_xid h, bp_yiaddr h)"
    unfolding m_def by (subst dhcp_unpack_pack) (simp add: assms(2))
  have "option_loop m (length m) (DHCP_FIXED + 4) s = Some (fold apply_opt os s)" for s
    using option_loop_opts [OF assms(1), of "dhcp_pack h @ put32 DHCP_MAGIC_COOKIE" rest s] by (simp add: m_def l put32_def)
  moreover have "\<not> length m < DHCP_FIXED + 4" by (simp add: m_def l put32_def)
  ultimately have "parse m (length m) (bp_xid h) want =
    Some (let (mtype, lease) = fold apply_opt os
        (0, \<lparr>ls_ip = bp_yiaddr h, ls_mask = 0, ls_gateway_ip = 0, ls_dns_ip = 0, ls_server_ip = 0\<rparr>)
      in if mtype = want then Some lease else None)"
    using u magic by (simp add: parse_def Let_def split: prod.split)
  then show ?thesis by (simp only: m_def)
qed

theorem dhcp_parse_reply_witness:
  "parse (dhcp_pack \<lparr>bp_op = BOOTREPLY, bp_htype = 1, bp_hlen = 6, bp_hops = 0, bp_xid = 77, bp_secs = 0, bp_flags = 0, bp_ciaddr = 0,
        bp_yiaddr = 0x0A00020F, bp_siaddr = 0, bp_giaddr = 0, bp_chaddr = replicate 16 0, bp_sname = replicate 64 0,
        bp_file = replicate 128 0\<rparr> @ put32 DHCP_MAGIC_COOKIE @
        concat (map opt_bytes [Opt 53 [2], Pad, Opt 1 [255, 255, 255, 0], Opt 3 [10, 0, 2, 2]]) @ OPT_END # [])
      257 77 DHCP_OFFER =
    Some (Some \<lparr>ls_ip = 0x0A00020F, ls_mask = be32 255 255 255 0, ls_gateway_ip = be32 10 0 2 2, ls_dns_ip = 0, ls_server_ip = 0\<rparr>)"
  using dhcp_parse_reply [of "[Opt 53 [2], Pad, Opt 1 [255, 255, 255, 0], Opt 3 [10, 0, 2, 2]]"
    "\<lparr>bp_op = BOOTREPLY, bp_htype = 1, bp_hlen = 6, bp_hops = 0, bp_xid = 77, bp_secs = 0, bp_flags = 0, bp_ciaddr = 0,
        bp_yiaddr = 0x0A00020F, bp_siaddr = 0, bp_giaddr = 0, bp_chaddr = replicate 16 0, bp_sname = replicate 64 0,
        bp_file = replicate 128 0\<rparr>" "[]" DHCP_OFFER]
  by (simp add: length_dhcp_pack put32_def opt_value_def DHCP_OFFER_def dhcp_opts)

end
