(* ===== verification/Tcp_Stream.thy ===== *)
theory Tcp_Stream
  imports Tcp "HOL-Library.Sublist"
begin

text \<open>
  What the TCP layer delivers. The receive side of a connection is a transition system: segments of the
  peer's byte stream arrive in any order, repeated or lost, the peer's FIN arrives, and the application
  reads. The lemmas show by rule induction that the bytes read are always a prefix of the stream, and the
  whole stream once the end is reported.
\<close>

subsection \<open>Sequence numbers\<close>

lemma sint_u32: "sint (w :: u32) = (if unat w < 2 ^ 31 then int (unat w) else int (unat w) - 2 ^ 32)"
proof -
  have "uint w < 2 ^ 32" "0 \<le> uint w" using uint_lt2p [of w] by simp_all
  then have "uint w div 2 ^ 31 = (if 2 ^ 31 \<le> uint w then 1 else 0)" by auto
  then have "bit (uint w) 31 \<longleftrightarrow> 2 ^ 31 \<le> uint w" by (simp add: bit_iff_odd)
  moreover have "take_bit 32 (uint w) = uint w"
    using uint_lt2p [of w] by (simp add: take_bit_int_eq_self)
  moreover have "unat w < 2 ^ 31 \<longleftrightarrow> uint w < 2 ^ 31"
    by (simp add: uint_nat del: of_nat_unat)
  ultimately show ?thesis
    by (auto simp: sint_uint signed_take_bit_eq_take_bit_minus)
qed

lemma seq_lt_window: "0 < d \<Longrightarrow> d < 2 ^ 31 \<Longrightarrow> seq_lt a (a + of_nat d) \<and> \<not> seq_lt (a + of_nat d) a"
proof -
  assume d: "0 < d" "d < 2 ^ 31"
  have u: "unat (of_nat d :: u32) = d" using d(2) by (intro unat_of_nat_small) simp
  have "a - (a + of_nat d) = - (of_nat d :: u32)" by simp
  moreover have "unat (- (of_nat d :: u32)) = 2 ^ 32 - d"
  proof -
    have "(of_nat (2 ^ 32 - d) :: u32) + of_nat d = of_nat (2 ^ 32 - d + d)" by (simp only: of_nat_add)
    also have "\<dots> = 0" using d(2) by simp
    finally have "- (of_nat d :: u32) = of_nat (2 ^ 32 - d)" by (simp only: minus_unique add.commute)
    moreover have "unat (of_nat (2 ^ 32 - d) :: u32) = 2 ^ 32 - d" using d(1) by (intro unat_of_nat_small) simp
    ultimately show ?thesis by (simp only:)
  qed
  ultimately show ?thesis using d u by (simp add: seq_lt_def sint_u32)
qed

lemma seq_lt_irrefl [simp]: "\<not> seq_lt a a"
  by (simp add: seq_lt_def)

subsection \<open>The receive side\<close>

definition rx_ok :: "tcp_conn \<Rightarrow> bool" where
  "rx_ok c \<longleftrightarrow> length (tc_rx c) = TCP_RXBUF \<and> tc_rx_head c < TCP_RXBUF \<and> tc_rx_len c \<le> TCP_RXBUF"

definition rx_list :: "tcp_conn \<Rightarrow> bytes" where
  "rx_list c = cring_list TCP_RXBUF (tc_rx c) (tc_rx_head c) (tc_rx_len c)"

definition same_rx :: "tcp_conn \<Rightarrow> tcp_conn \<Rightarrow> bool" where
  "same_rx c d \<longleftrightarrow> tc_rx d = tc_rx c \<and> tc_rx_head d = tc_rx_head c \<and> tc_rx_len d = tc_rx_len c \<and>
     tc_rcv_nxt d = tc_rcv_nxt c \<and> tc_peer_fin d = tc_peer_fin c"

lemma same_rx_acked: "same_rx c (tcp_acked t c)"
  by (simp add: same_rx_def tcp_acked_def Let_def)

lemma tcp_store_list:
  assumes "rx_ok c" "tcp_accepts seq p c"
  shows "rx_ok (tcp_store p c)" "rx_list (tcp_store p c) = rx_list c @ p"
  using assms cring_store [of "tc_rx c" TCP_RXBUF "tc_rx_len c" p "tc_rx_head c"]
  by (simp_all add: rx_ok_def rx_list_def tcp_store_def tcp_accepts_def)

lemma tcp_take_list:
  assumes "rx_ok c" "tcp_take cap c = (bs, d)"
  shows "rx_ok d" "rx_list c = bs @ rx_list d" "length bs = min cap (tc_rx_len c)"
    "tc_rcv_nxt d = tc_rcv_nxt c" "tc_peer_fin d = tc_peer_fin c"
proof -
  define n where "n = (if tc_rx_len c < cap then tc_rx_len c else cap)"
  have bs: "bs = map (\<lambda>k. tc_rx c ! ((tc_rx_head c + k) mod TCP_RXBUF)) [0..<n]"
    and d: "d = c\<lparr>tc_rx_head := (tc_rx_head c + n) mod TCP_RXBUF, tc_rx_len := tc_rx_len c - n\<rparr>"
    using assms(2) by (simp_all add: tcp_take_def n_def Let_def)
  have n: "n \<le> tc_rx_len c" by (simp add: n_def)
  show "rx_ok d" using assms(1) by (auto simp: rx_ok_def d net_sizes)
  have "bs = take n (rx_list c)" using n by (simp add: bs rx_list_def cring_take)
  moreover have "rx_list d = drop n (rx_list c)" using n by (simp add: rx_list_def d cring_pop)
  ultimately show "rx_list c = bs @ rx_list d" by simp
  show "length bs = min cap (tc_rx_len c)" by (simp add: bs n_def)
  show "tc_rcv_nxt d = tc_rcv_nxt c" "tc_peer_fin d = tc_peer_fin c" by (simp_all add: d)
qed

text \<open>\<open>S\<close> is the peer's byte stream and \<open>base\<close> the sequence number of its first byte. The pair is the
  connection and what the application has read. The rules are \<^const>\<open>tcp_data\<close>, the FIN of \<^const>\<open>tcp_fin\<close>,
  \<^const>\<open>net_tcp_recv\<close>, and every step that leaves the receive side alone.\<close>

inductive tcp_rx_run :: "bytes \<Rightarrow> u32 \<Rightarrow> tcp_conn \<times> bytes \<Rightarrow> bool" for S base where
  start: "rx_ok c \<Longrightarrow> tc_rx_len c = 0 \<Longrightarrow> tc_rcv_nxt c = base \<Longrightarrow> \<not> tc_peer_fin c \<Longrightarrow> tcp_rx_run S base (c, [])"
| segment: "tcp_rx_run S base (c, out) \<Longrightarrow> off + length p \<le> length S \<Longrightarrow> p = bslice S off (length p) \<Longrightarrow>
    tcp_rx_run S base (if tcp_accepts (base + of_nat off) p c then tcp_store p c else c, out)"
| fin: "tcp_rx_run S base (c, out) \<Longrightarrow> base + of_nat (length S) = tc_rcv_nxt c \<Longrightarrow>
    tcp_rx_run S base (c\<lparr>tc_rcv_nxt := tc_rcv_nxt c + 1, tc_peer_fin := True\<rparr>, out)"
| read: "tcp_rx_run S base (c, out) \<Longrightarrow> tcp_take cap c = (bs, d) \<Longrightarrow> tcp_rx_run S base (d, out @ bs)"
| other: "tcp_rx_run S base (c, out) \<Longrightarrow> same_rx c d \<Longrightarrow> tcp_rx_run S base (d, out)"

definition stream_inv :: "bytes \<Rightarrow> u32 \<Rightarrow> tcp_conn \<Rightarrow> bytes \<Rightarrow> bool" where
  "stream_inv S base c out \<longleftrightarrow> rx_ok c \<and> (\<exists>k\<le>length S. out @ rx_list c = take k S \<and>
     (if tc_peer_fin c then k = length S \<and> tc_rcv_nxt c = base + of_nat (k + 1) else tc_rcv_nxt c = base + of_nat k))"

lemma of_nat_u32_inj: "a < 2 ^ 32 \<Longrightarrow> b < 2 ^ 32 \<Longrightarrow> (of_nat a :: u32) = of_nat b \<longleftrightarrow> a = b"
proof -
  assume "a < 2 ^ 32" "b < 2 ^ 32"
  then have "unat (of_nat a :: u32) = a" "unat (of_nat b :: u32) = b" by (intro unat_of_nat_small; simp)+
  then show ?thesis by metis
qed

lemma stream_inv_run:
  assumes "length S + 1 < 2 ^ 32"
  shows "tcp_rx_run S base (c, out) \<Longrightarrow> stream_inv S base c out"
proof (induction "(c, out)" arbitrary: c out rule: tcp_rx_run.induct)
  case (start c)
  then show ?case by (auto simp: stream_inv_def rx_list_def cring_list_def)
next
  case (segment c out off p)
  then obtain k where ok: "rx_ok c" and k: "k \<le> length S" "out @ rx_list c = take k S"
    and nxt: "tc_rcv_nxt c = base + of_nat (if tc_peer_fin c then k + 1 else k)" "tc_peer_fin c \<Longrightarrow> k = length S"
    by (auto simp: stream_inv_def split: if_splits)
  show ?case
  proof (cases "tcp_accepts (base + of_nat off) p c")
    case True
    then have "(of_nat off :: u32) = of_nat (if tc_peer_fin c then k + 1 else k)" using nxt by (simp add: tcp_accepts_def)
    then have e: "off = (if tc_peer_fin c then k + 1 else k)"
      using segment(3) k(1) assms by (subst (asm) of_nat_u32_inj) (auto split: if_splits)
    have nf: "\<not> tc_peer_fin c" using e segment(3) nxt(2) True by (auto simp: tcp_accepts_def)
    then have off: "off = k" using e by simp
    have "out @ rx_list (tcp_store p c) = take k S @ p" using tcp_store_list(2) [OF ok True] k(2) by simp
    also have "\<dots> = take (k + length p) S"
      using segment(4) unfolding off bslice_def by (metis take_add)
    finally have "out @ rx_list (tcp_store p c) = take (k + length p) S" .
    moreover have "tc_rcv_nxt (tcp_store p c) = base + of_nat (k + length p)" "\<not> tc_peer_fin (tcp_store p c)"
      using nxt(1) nf by (simp_all add: tcp_store_def)
    ultimately show ?thesis
      using True tcp_store_list(1) [OF ok True] segment(3) off by (auto simp: stream_inv_def)
  next
    case False
    with segment(2) show ?thesis by simp
  qed
next
  case (fin c out)
  then obtain k where ok: "rx_ok c" and k: "k \<le> length S" "out @ rx_list c = take k S"
    and nxt: "tc_rcv_nxt c = base + of_nat (if tc_peer_fin c then k + 1 else k)" "tc_peer_fin c \<Longrightarrow> k = length S"
    by (auto simp: stream_inv_def split: if_splits)
  have "(of_nat (length S) :: u32) = of_nat (if tc_peer_fin c then k + 1 else k)" using fin(3) nxt(1) by simp
  then have e: "length S = (if tc_peer_fin c then k + 1 else k)"
    using k(1) assms by (subst (asm) of_nat_u32_inj) (auto split: if_splits)
  with nxt(2) have "k = length S" "\<not> tc_peer_fin c" by (auto split: if_splits)
  with ok k nxt(1) show ?case by (auto simp: stream_inv_def rx_ok_def rx_list_def)
next
  case (read c out cap bs d)
  then show ?case using tcp_take_list [of c cap bs d] by (auto simp: stream_inv_def)
next
  case (other c out d)
  then have "rx_ok d = rx_ok c" "rx_list d = rx_list c" "tc_peer_fin d = tc_peer_fin c" "tc_rcv_nxt d = tc_rcv_nxt c"
    by (simp_all add: same_rx_def rx_ok_def rx_list_def)
  with other(2) show ?case unfolding stream_inv_def by (simp only:)
qed

subsection \<open>The receive side through the stack\<close>

text \<open>A packet for \<open>dst\<close> can be sent without waiting: the link address of its next hop is in the cache.\<close>

definition resolved :: "u32 \<Rightarrow> 'w net \<Rightarrow> bool" where
  "resolved dst st \<longleftrightarrow> arp_lookup (next_hop dst st) st \<noteq> None"

lemma resolved_set_conn [simp]: "resolved dst (set_conn i c st) = resolved dst st"
  by (simp add: resolved_def arp_lookup_def next_hop_def set_conn_def)

lemma conn_set_conn [simp]: "i < length (tcp_conns st) \<Longrightarrow> conn i (set_conn i c st) = c"
  by (simp add: set_conn_def)

lemma length_set_conn [simp]: "length (tcp_conns (set_conn i c st)) = length (tcp_conns st)"
  by (simp add: set_conn_def)

lemma ip_emit_frame:
  assumes "ip_emit e dmac s d p l4 st = (r, st')"
  shows "tcp_conns st' = tcp_conns st" "resolved dst st' = resolved dst st"
  using assms by (auto simp: ip_emit_def eth_send_def Let_def resolved_def arp_lookup_def next_hop_def split: if_splits prod.splits)

lemma ip_send_resolved:
  assumes "resolved dst st"
  obtains r st' where "ip_send e dst p l4 st = Some (r, st')" "tcp_conns st' = tcp_conns st"
    "\<And>d. resolved d st' = resolved d st"
proof -
  obtain mac where "arp_lookup (next_hop dst st) st = Some mac" using assms by (auto simp: resolved_def)
  then have s: "ip_send e dst p l4 st = Some (ip_emit e mac (my_ip st) dst p l4 st)"
    by (simp add: ip_send_def arp_resolve_def)
  obtain r st' where "ip_emit e mac (my_ip st) dst p l4 st = (r, st')" by fastforce
  with s that ip_emit_frame show ?thesis by metis
qed

lemma tcp_ack_resolved:
  assumes "resolved (tc_peer_ip (conn i st)) st"
  obtains st' where "tcp_ack e i st = Some st'" "tcp_conns st' = tcp_conns st" "\<And>d. resolved d st' = resolved d st"
proof -
  obtain r st' where "ip_send e (tc_peer_ip (conn i st)) IP_PROTO_TCP (tcp_segment (my_ip st) (conn i st) TCP_ACK []) st =
      Some (r, st')" "tcp_conns st' = tcp_conns st" "\<And>d. resolved d st' = resolved d st"
    using ip_send_resolved [OF assms] by blast
  then show ?thesis by (intro that [of st']) (simp_all add: tcp_ack_def)
qed

lemma tcp_data_resolved:
  assumes "resolved (tc_peer_ip (conn i st)) st" "i < length (tcp_conns st)"
  obtains st' where "tcp_data e i t p st = Some st'" "length (tcp_conns st') = length (tcp_conns st)"
    "conn i st' = (if tcp_accepts (th_seq t) p (conn i st) then tcp_store p (conn i st) else conn i st)"
    "\<And>d. resolved d st' = resolved d st"
proof (cases "tcp_accepts (th_seq t) p (conn i st)")
  case True
  let ?st = "set_conn i (tcp_store p (conn i st)) st"
  have "resolved (tc_peer_ip (conn i ?st)) ?st" using assms by (simp add: tcp_store_def)
  then obtain st' where "tcp_ack e i ?st = Some st'" "tcp_conns st' = tcp_conns ?st" "\<And>d. resolved d st' = resolved d ?st"
    by (rule tcp_ack_resolved) blast
  then show ?thesis using True assms(2) by (intro that [of st']) (simp_all add: tcp_data_def)
next
  case False
  obtain st' where "tcp_ack e i st = Some st'" "tcp_conns st' = tcp_conns st" "\<And>d. resolved d st' = resolved d st"
    using tcp_ack_resolved [OF assms(1)] by blast
  then show ?thesis
    using False by (cases "p = []") (auto intro: that [of st] that [of st'] simp: tcp_data_def)
qed

text \<open>The segments that carry the stream: each holds some bytes of \<open>S\<close> at their place in sequence space, and
  the FIN comes with or after the last byte.\<close>

definition peer_segment :: "bytes \<Rightarrow> u32 \<Rightarrow> tcp_hdr \<Rightarrow> bytes \<Rightarrow> bool" where
  "peer_segment S base t p \<longleftrightarrow> (\<exists>off. th_seq t = base + of_nat off \<and> off + length p \<le> length S \<and>
     p = bslice S off (length p) \<and> (has (th_flags t) TCP_FIN \<longrightarrow> off + length p = length S))"

lemma same_rx_state [simp]: "same_rx c (c\<lparr>tc_state := s\<rparr>)" "same_rx c (c\<lparr>tc_state := s, tc_retx_len := n\<rparr>)"
  by (simp_all add: same_rx_def)

lemma tcp_fin_run:
  assumes "tcp_rx_run S base (conn i st, out)" "resolved (tc_peer_ip (conn i st)) st" "i < length (tcp_conns st)"
    and "has (th_flags t) TCP_FIN \<Longrightarrow> th_seq t + of_nat (length p) = base + of_nat (length S)"
    and "tcp_fin e i t p st = Some st'"
  shows "tcp_rx_run S base (conn i st', out) \<and> length (tcp_conns st') = length (tcp_conns st)"
proof -
  have last: "tcp_rx_run S base (conn i st2, out) \<and> length (tcp_conns st2) = length (tcp_conns st)"
    if "tcp_rx_run S base (conn i st1, out)" "length (tcp_conns st1) = length (tcp_conns st)"
      "st2 = (if b then set_conn i ((conn i st1)\<lparr>tc_state := s\<rparr>) st1 else st1)" for st1 st2 b s
    using that assms(3) by (auto simp: set_conn_def intro: tcp_rx_run.other)
  show ?thesis
  proof (cases "has (th_flags t) TCP_FIN \<and> th_seq t + of_nat (length p) = tc_rcv_nxt (conn i st)")
    case True
    let ?c = "(conn i st)\<lparr>tc_rcv_nxt := tc_rcv_nxt (conn i st) + 1, tc_peer_fin := True\<rparr>"
    have "resolved (tc_peer_ip (conn i (set_conn i ?c st))) (set_conn i ?c st)" using assms(2,3) by simp
    then obtain st1 where a: "tcp_ack e i (set_conn i ?c st) = Some st1" "tcp_conns st1 = tcp_conns (set_conn i ?c st)"
      by (rule tcp_ack_resolved) blast
    have "tcp_rx_run S base (?c, out)" using tcp_rx_run.fin [OF assms(1)] True assms(4) by simp
    with a(2) assms(3) have r: "tcp_rx_run S base (conn i st1, out)" "length (tcp_conns st1) = length (tcp_conns st)"
      by (simp_all add: set_conn_def)
    define st2 where "st2 = (if tc_state (conn i st1) = TCP_FIN_WAIT then set_conn i ((conn i st1)\<lparr>tc_state := TCP_DONE\<rparr>) st1 else st1)"
    have "tcp_fin e i t p st =
        Some (if tc_state (conn i st2) = TCP_FIN_WAIT \<and> tc_retx_len (conn i st2) = 0 \<and> tc_peer_fin (conn i st2)
          then set_conn i ((conn i st2)\<lparr>tc_state := TCP_DONE\<rparr>) st2 else st2)"
      unfolding tcp_fin_def st2_def if_P [OF True] a(1) by simp
    with assms(5) have "st' = (if tc_state (conn i st2) = TCP_FIN_WAIT \<and> tc_retx_len (conn i st2) = 0 \<and>
        tc_peer_fin (conn i st2) then set_conn i ((conn i st2)\<lparr>tc_state := TCP_DONE\<rparr>) st2 else st2)"
      by simp
    from last [OF conjunct1 conjunct2 this, OF last [OF r st2_def] last [OF r st2_def]] show ?thesis .
  next
    case False
    have "st' = (if tc_state (conn i st) = TCP_FIN_WAIT \<and> tc_retx_len (conn i st) = 0 \<and> tc_peer_fin (conn i st)
           then set_conn i ((conn i st)\<lparr>tc_state := TCP_DONE\<rparr>) st else st)"
      using assms(5) False unfolding tcp_fin_def by (subst (asm) if_not_P) simp_all
    from last [OF assms(1) refl this] show ?thesis .
  qed
qed

lemma tcp_deliver_run:
  assumes "tcp_rx_run S base (conn i st, out)" "resolved (tc_peer_ip (conn i st)) st" "i < length (tcp_conns st)"
    and "peer_segment S base t p" "tc_state (conn i st) \<noteq> TCP_SYN_SENT" "tcp_deliver e i t p st = Some st'"
  shows "tcp_rx_run S base (conn i st', out) \<and> length (tcp_conns st') = length (tcp_conns st)"
proof (cases "has (th_flags t) TCP_RST")
  case True
  then show ?thesis
    using assms by (auto simp: tcp_deliver_def set_conn_def intro: tcp_rx_run.other)
next
  case False
  let ?st = "set_conn i (tcp_acked t (conn i st)) st"
  have c: "conn i ?st = tcp_acked t (conn i st)" using assms(3) by simp
  have ns: "tc_state (tcp_acked t (conn i st)) \<noteq> TCP_SYN_SENT" "tc_peer_ip (tcp_acked t (conn i st)) = tc_peer_ip (conn i st)"
    using assms(5) by (simp_all add: tcp_acked_def Let_def)
  have run0: "tcp_rx_run S base (conn i ?st, out)" unfolding c by (rule tcp_rx_run.other [OF assms(1) same_rx_acked])
  have r0: "resolved (tc_peer_ip (conn i ?st)) ?st" "i < length (tcp_conns ?st)"
    using assms(2,3) ns by (simp_all add: c)
  obtain st1 where d: "tcp_data e i t p ?st = Some st1" "length (tcp_conns st1) = length (tcp_conns ?st)"
    "conn i st1 = (if tcp_accepts (th_seq t) p (conn i ?st) then tcp_store p (conn i ?st) else conn i ?st)"
    "\<And>d. resolved d st1 = resolved d ?st"
    using tcp_data_resolved [OF r0] by blast
  obtain off where off: "th_seq t = base + of_nat off" "off + length p \<le> length S" "p = bslice S off (length p)"
    "has (th_flags t) TCP_FIN \<Longrightarrow> off + length p = length S"
    using assms(4) by (auto simp: peer_segment_def)
  have run1: "tcp_rx_run S base (conn i st1, out)"
    unfolding d(3) off(1) by (rule tcp_rx_run.segment [OF run0 off(2,3)])
  have r1: "resolved (tc_peer_ip (conn i st1)) st1" "i < length (tcp_conns st1)"
    using r0 by (simp_all add: d(2,4)) (simp add: d(3) tcp_store_def)
  have "tcp_fin e i t p st1 = Some st'" using assms(6) False d(1) ns(1) c by (simp add: tcp_deliver_def Let_def)
  moreover have "th_seq t + of_nat (length p) = base + of_nat (length S)" if "has (th_flags t) TCP_FIN"
    using off(4) [OF that, symmetric] off(1) by (simp add: add.assoc)
  ultimately have "tcp_rx_run S base (conn i st', out) \<and> length (tcp_conns st') = length (tcp_conns st1)"
    by (intro tcp_fin_run [OF run1 r1])
  then show ?thesis using d(2) by simp
qed

text \<open>What happens to connection \<open>i\<close> of the stack. A \<^const>\<open>net_tcp_recv\<close> that has to wait runs the pump first,
  whose deliveries are steps of their own; every operation on other connections, and the send side of this
  one, is a step \<open>other\<close>.\<close>

inductive tcp_session :: "'w env \<Rightarrow> nat \<Rightarrow> bytes \<Rightarrow> u32 \<Rightarrow> 'w net \<times> bytes \<Rightarrow> bool" for e i S base where
  start: "net_ok st \<Longrightarrow> tc_rx_len (conn i st) = 0 \<Longrightarrow> tc_rcv_nxt (conn i st) = base \<Longrightarrow> \<not> tc_peer_fin (conn i st) \<Longrightarrow>
    tcp_session e i S base (st, [])"
| arrive: "tcp_session e i S base (st, out) \<Longrightarrow> peer_segment S base t p \<Longrightarrow> tc_state (conn i st) \<noteq> TCP_SYN_SENT \<Longrightarrow>
    resolved (tc_peer_ip (conn i st)) st \<Longrightarrow> tcp_deliver e i t p st = Some st' \<Longrightarrow> tcp_session e i S base (st', out)"
| recv: "tcp_session e i S base (st, out) \<Longrightarrow> tc_rx_len (conn i st) \<noteq> 0 \<or> tc_peer_fin (conn i st) \<Longrightarrow>
    net_tcp_recv e (int i) cap timeout st = Some ((n, bs), st') \<Longrightarrow> tcp_session e i S base (st', out @ bs)"
| other: "tcp_session e i S base (st, out) \<Longrightarrow> same_rx (conn i st) (conn i st') \<Longrightarrow> length (tcp_conns st') = TCP_CONNS \<Longrightarrow>
    tcp_session e i S base (st', out)"

lemma tcp_recv_ready:
  assumes "tc_rx_len (conn i st) \<noteq> 0 \<or> tc_peer_fin (conn i st)" "i < length (tcp_conns st)"
    and "net_tcp_recv e (int i) cap timeout st = Some ((n, bs), st')"
  shows "length (tcp_conns st') = length (tcp_conns st) \<and>
    (bs = [] \<and> same_rx (conn i st) (conn i st') \<or> tcp_take cap (conn i st) = (bs, conn i st'))"
proof (cases "tcp_valid (int i) st")
  case True
  obtain now st1 where k: "ktime_ms e st = (now, st1)" by fastforce
  then have s1: "tcp_conns st1 = tcp_conns st" by (auto simp: ktime_ms_def split: prod.splits)
  obtain m where m: "e_fuel e = Suc m" using assms(3) True k by (cases "e_fuel e") (auto simp: net_tcp_recv_def)
  obtain out c where "tcp_take cap (conn i st) = (out, c)" by fastforce
  then show ?thesis
    using assms True k s1 m
    by (auto simp: net_tcp_recv_def set_conn_def same_rx_def split: if_splits)
qed (use assms in \<open>auto simp: net_tcp_recv_def same_rx_def\<close>)

lemma tcp_session_run:
  assumes "i < TCP_CONNS"
  shows "tcp_session e i S base (st, out) \<Longrightarrow> length (tcp_conns st) = TCP_CONNS \<and> tcp_rx_run S base (conn i st, out)"
proof (induction "(st, out)" arbitrary: st out rule: tcp_session.induct)
  case (start st)
  then have "conn_ok (conn i st)" using net_ok_conn(1) assms by blast
  with start show ?case by (auto simp: net_ok_def conn_ok_def rx_ok_def intro: tcp_rx_run.start)
next
  case (arrive st out t p st')
  then show ?case using tcp_deliver_run [of S base st i out t p e st'] assms by auto
next
  case (recv st out cap timeout n bs st')
  then show ?case
    using tcp_recv_ready [of st i e cap timeout n bs st'] assms by (auto intro: tcp_rx_run.read tcp_rx_run.other)
next
  case (other st out st')
  then show ?case using tcp_rx_run.other by blast
qed

subsection \<open>Properties\<close>



end
