(* ===== verification/Dns.thy ===== *)
theory Dns
  imports Udp
begin

text \<open>
  The DNS resolver \<^verbatim>\<open>src/src/dns.c\<close>. A reply is parsed from the bytes that were copied into the caller's
  buffer; reading any other byte is \<^const>\<open>None\<close>, as in the other parsers. The lemmas show that the parser ends
  and stays in bounds as long as the length it is given is that of the buffer, and that it finds the first
  address of a well-formed reply. They also show that \<^verbatim>\<open>net_resolve\<close> passes the length of the datagram, which
  may exceed the buffer.
\<close>

subsection \<open>Definitions\<close>

record dns_header =
  dh_id :: u16
  dh_flags :: u16
  dh_qdcount :: u16
  dh_ancount :: u16
  dh_nscount :: u16
  dh_arcount :: u16

record dns_question =
  dq_qtype :: u16
  dq_qclass :: u16

record dns_rr =
  rr_type :: u16
  rr_rclass :: u16
  rr_ttl :: u32
  rr_rdlength :: u16

definition DNS_PORT :: u16 where "DNS_PORT = 53"
definition DNS_TYPE_A :: u16 where "DNS_TYPE_A = 1"
definition DNS_CLASS_IN :: u16 where "DNS_CLASS_IN = 1"
definition DNS_FLAG_RD :: u16 where "DNS_FLAG_RD = 0x0100"
definition DNS_RCODE_MASK :: u16 where "DNS_RCODE_MASK = 0x000F"

definition dns_header_pack :: "dns_header \<Rightarrow> bytes" where
  "dns_header_pack h = be16_bytes (dh_id h) @ be16_bytes (dh_flags h) @ be16_bytes (dh_qdcount h) @
     be16_bytes (dh_ancount h) @ be16_bytes (dh_nscount h) @ be16_bytes (dh_arcount h)"

definition dns_header_unpack :: "bytes \<Rightarrow> dns_header option" where
  "dns_header_unpack p = do {
     i \<leftarrow> get_be16 p 0; f \<leftarrow> get_be16 p 2; q \<leftarrow> get_be16 p 4; a \<leftarrow> get_be16 p 6; n \<leftarrow> get_be16 p 8; r \<leftarrow> get_be16 p 10;
     Some \<lparr>dh_id = i, dh_flags = f, dh_qdcount = q, dh_ancount = a, dh_nscount = n, dh_arcount = r\<rparr> }"

definition dns_question_pack :: "dns_question \<Rightarrow> bytes" where
  "dns_question_pack q = be16_bytes (dq_qtype q) @ be16_bytes (dq_qclass q)"

definition dns_rr_pack :: "dns_rr \<Rightarrow> bytes" where
  "dns_rr_pack r = be16_bytes (rr_type r) @ be16_bytes (rr_rclass r) @ be32_bytes (rr_ttl r) @ be16_bytes (rr_rdlength r)"

definition dns_rr_unpack :: "bytes \<Rightarrow> nat \<Rightarrow> dns_rr option" where
  "dns_rr_unpack p o' = do {
     t \<leftarrow> get_be16 p o'; c \<leftarrow> get_be16 p (o' + 2); l \<leftarrow> get_be32 p (o' + 4); n \<leftarrow> get_be16 p (o' + 8);
     Some \<lparr>rr_type = t, rr_rclass = c, rr_ttl = l, rr_rdlength = n\<rparr> }"

text \<open>The argument is the low half of the time-stamp counter.\<close>

definition nonce16 :: "u32 \<Rightarrow> u16" where
  "nonce16 lo = ucast (lo XOR drop_bit 16 lo)"

text \<open>The query is written from front to back: \<open>q\<close> is what the buffer holds so far.\<close>

function query_labels :: "str \<Rightarrow> bytes \<Rightarrow> bytes option" where
  "query_labels rest q =
     (if str_len rest > 0 then
        let (found, label, rest') = str_cut_ch rest 46 in
        if str_len label = 0 \<or> str_len label > 63 \<or> length q + 1 + str_len label > 500 then None
        else query_labels rest' (q @ [of_nat (str_len label)] @ take (str_len label) (str_data label))
      else Some q)"
  by pat_completeness auto
termination
  by (relation "measure (\<lambda>(rest, q). str_len rest)")
    (auto simp: str_cut_ch_def str_span_def find_upt_Some split: option.splits)

definition build_query :: "u16 \<Rightarrow> bytes \<Rightarrow> bytes option option" where
  "build_query id' host =
     (let h = \<lparr>dh_id = id', dh_flags = DNS_FLAG_RD, dh_qdcount = 1, dh_ancount = 0, dh_nscount = 0, dh_arcount = 0\<rparr>
      in case str_from host of
        None \<Rightarrow> None
      | Some rest \<Rightarrow> Some (case query_labels rest (dns_header_pack h) of
            None \<Rightarrow> None
          | Some q \<Rightarrow> Some (q @ [0] @ dns_question_pack \<lparr>dq_qtype = DNS_TYPE_A, dq_qclass = DNS_CLASS_IN\<rparr>)))"

text \<open>The outer \<^const>\<open>None\<close> is a read outside \<open>m\<close>; the inner one the result -1.\<close>

function skip_name :: "bytes \<Rightarrow> nat \<Rightarrow> nat \<Rightarrow> nat option option" where
  "skip_name m n o' =
     (if o' < n then
        case rd m o' of
          None \<Rightarrow> None
        | Some b \<Rightarrow>
            if b AND 0xC0 = 0xC0 then Some (Some (o' + 2))
            else if b = 0 then Some (Some (o' + 1))
            else skip_name m n (o' + 1 + unat b)
      else Some None)"
  by pat_completeness auto
termination by (relation "measure (\<lambda>(m, n, o'). n - o')") auto

declare query_labels.simps [simp del] skip_name.simps [simp del]

fun skip_questions :: "bytes \<Rightarrow> nat \<Rightarrow> nat \<Rightarrow> nat \<Rightarrow> nat option option" where
  "skip_questions m n 0 o' = Some (Some o')"
| "skip_questions m n (Suc k) o' = do {
     r \<leftarrow> skip_name m n o';
     (case r of
        None \<Rightarrow> Some None
      | Some o1 \<Rightarrow> if o1 + 4 > n then Some None else skip_questions m n k (o1 + 4)) }"

fun scan_answers :: "bytes \<Rightarrow> nat \<Rightarrow> nat \<Rightarrow> nat \<Rightarrow> u32 option option" where
  "scan_answers m n 0 o' = Some None"
| "scan_answers m n (Suc k) o' = do {
     r \<leftarrow> skip_name m n o';
     (case r of
        None \<Rightarrow> Some None
      | Some o1 \<Rightarrow>
          if o1 + 10 > n then Some None
          else do {
            rr \<leftarrow> dns_rr_unpack m o1;
            let rdlen = unat (rr_rdlength rr); o2 = o1 + 10 in
            if o2 + rdlen > n then Some None
            else if rr_type rr = DNS_TYPE_A \<and> rdlen = 4 then map_option Some (get_be32 m o2)
            else scan_answers m n k (o2 + rdlen) }) }"

definition parse_answer :: "bytes \<Rightarrow> nat \<Rightarrow> u16 \<Rightarrow> u32 option option" where
  "parse_answer m n id' =
     (if n < 12 then Some None
      else do {
        h \<leftarrow> dns_header_unpack m;
        if dh_id h \<noteq> id' then Some None
        else if dh_flags h AND DNS_RCODE_MASK \<noteq> 0 then Some None
        else do {
          r \<leftarrow> skip_questions m n (unat (dh_qdcount h)) 12;
          (case r of
             None \<Rightarrow> Some None
           | Some o' \<Rightarrow> scan_answers m n (unat (dh_ancount h)) o') } })"

text \<open>The inner loop of \<^verbatim>\<open>net_resolve\<close>: up to \<open>k\<close> attempts at one server. A read outside the reply buffer of
  512 bytes sets \<open>net_fault\<close>.\<close>

fun resolve_attempts :: "'w env \<Rightarrow> int \<Rightarrow> u32 \<Rightarrow> u32 \<Rightarrow> u16 \<Rightarrow> bytes \<Rightarrow> nat \<Rightarrow> 'w net \<Rightarrow> (u32 option \<times> 'w net) option" where
  "resolve_attempts e sock server_ip slot id' q 0 st = Some (None, st)"
| "resolve_attempts e sock server_ip slot id' q (Suc k) st = do {
     (sent, st) \<leftarrow> net_udp_sendto e sock server_ip DNS_PORT q st;
     if \<not> sent then Some (None, st)
     else do {
       (r, st) \<leftarrow> net_udp_recvfrom e sock slot 512 st;
       (case r of
          Udp_error \<Rightarrow> resolve_attempts e sock server_ip slot id' q k st
        | Udp_dgram n m ip port \<Rightarrow>
            if n \<ge> 12 then
              (case parse_answer m n id' of
                 None \<Rightarrow> Some (None, st\<lparr>net_fault := True\<rparr>)
               | Some (Some ip) \<Rightarrow> Some (Some ip, st)
               | Some None \<Rightarrow> resolve_attempts e sock server_ip slot id' q k st)
            else resolve_attempts e sock server_ip slot id' q k st) } }"

fun resolve_servers :: "'w env \<Rightarrow> int \<Rightarrow> u32 list \<Rightarrow> u32 \<Rightarrow> u16 \<Rightarrow> bytes \<Rightarrow> 'w net \<Rightarrow> (u32 option \<times> 'w net) option" where
  "resolve_servers e sock [] slot id' q st = Some (None, st)"
| "resolve_servers e sock (s # ss) slot id' q st = do {
     (r, st) \<leftarrow> resolve_attempts e sock s slot id' q 2 st;
     (case r of Some ip \<Rightarrow> Some (Some ip, st) | None \<Rightarrow> resolve_servers e sock ss slot id' q st) }"

text \<open>\<open>lo\<close> is the time-stamp counter when the nonce is drawn and \<open>dns_ip\<close> the result of \<^verbatim>\<open>net_dns_server\<close>.\<close>

definition net_resolve :: "'w env \<Rightarrow> u32 \<Rightarrow> u32 \<Rightarrow> bytes \<Rightarrow> u32 \<Rightarrow> 'w net \<Rightarrow> (u32 option \<times> 'w net) option" where
  "net_resolve e lo dns_ip host timeout_ms st =
     (case net_aton host of
        None \<Rightarrow> Some (None, st\<lparr>net_fault := True\<rparr>)
      | Some (Some ip) \<Rightarrow> Some (Some ip, st)
      | Some None \<Rightarrow>
          let (sock, st) = net_udp_open st in
          if sock < 0 then Some (None, st)
          else case build_query (nonce16 lo) host of
              None \<Rightarrow> Some (None, st\<lparr>net_fault := True\<rparr>)
            | Some None \<Rightarrow> Some (None, net_udp_close sock st)
            | Some (Some q) \<Rightarrow>
                let slot = (if timeout_ms div 4 < 500 then 500 else timeout_ms div 4) in do {
                (r, st) \<leftarrow> resolve_servers e sock [dns_ip, 0x08080808] slot (nonce16 lo) q st;
                Some (r, net_udp_close sock st) })"

subsection \<open>Queries\<close>

lemma length_dns_header [simp]: "length (dns_header_pack h) = 12"
  by (simp add: dns_header_pack_def)

lemma length_dns_question [simp]: "length (dns_question_pack q) = 4"
  by (simp add: dns_question_pack_def)

lemma length_dns_rr [simp]: "length (dns_rr_pack r) = 10"
  by (simp add: dns_rr_pack_def)

lemma query_labels_bound:
  "query_labels rest q = Some q' \<Longrightarrow> str_ok rest \<Longrightarrow> length q \<le> 500 \<Longrightarrow> length q' \<le> 500"
proof (induction rest q rule: query_labels.induct)
  case (1 rest q)
  show ?case
  proof (cases "str_len rest > 0")
    case True
    obtain found label rest' where cut: "str_cut_ch rest 46 = (found, label, rest')" by (cases "str_cut_ch rest 46") auto
    have ok: "str_ok rest'" "str_ok label"
      using str_cut_ch_found [OF "1.prems"(2), of 46 label rest'] str_cut_ch_missing [OF "1.prems"(2), of 46 label rest'] cut
        "1.prems"(2)
      by (cases found; auto)+
    have g: "\<not> (str_len label = 0 \<or> str_len label > 63 \<or> length q + 1 + str_len label > 500)"
      and r: "query_labels rest' (q @ [of_nat (str_len label)] @ take (str_len label) (str_data label)) = Some q'"
      using "1.prems"(1) True cut by (auto simp: query_labels.simps [of rest q] split: if_splits)
    have "length (take (str_len label) (str_data label)) = str_len label" using ok(2) by (simp add: str_ok_def)
    with "1.IH" [OF True refl cut [symmetric] refl g r ok(1)] g show ?thesis by simp
  qed (use "1.prems" in \<open>simp add: query_labels.simps\<close>)
qed

lemma build_query_bound: "build_query i host = Some (Some q) \<Longrightarrow> length q \<le> 512"
  by (auto simp: build_query_def split: option.splits dest!: query_labels_bound dest: str_from_ok)

subsection \<open>Parsing stays in bounds\<close>

lemma skip_name_safe: "n \<le> length m \<Longrightarrow> \<exists>r. skip_name m n o' = Some r"
proof (induction m n o' rule: skip_name.induct)
  case (1 m n o')
  then show ?case by (subst skip_name.simps) (auto simp: rd_def)
qed

lemma skip_questions_safe: "n \<le> length m \<Longrightarrow> \<exists>r. skip_questions m n k o' = Some r"
proof (induction k arbitrary: o')
  case (Suc k)
  then show ?case using skip_name_safe [of n m o'] by (auto split: option.split)
qed simp

lemma dns_rr_unpack_total: "o' + 10 \<le> length m \<Longrightarrow> \<exists>rr. dns_rr_unpack m o' = Some rr"
  by (simp add: dns_rr_unpack_def get_be16_def get_be32_def)

lemma scan_answers_safe: "n \<le> length m \<Longrightarrow> \<exists>r. scan_answers m n k o' = Some r"
proof (induction k arbitrary: o')
  case (Suc k)
  obtain r where r: "skip_name m n o' = Some r" using skip_name_safe [OF Suc.prems] by blast
  show ?case
  proof (cases r)
    case (Some o1)
    show ?thesis
    proof (cases "o1 + 10 > n")
      case False
      then obtain rr where "dns_rr_unpack m o1 = Some rr" using dns_rr_unpack_total [of o1 m] Suc.prems by auto
      then show ?thesis using r Some False Suc by (auto simp: Let_def get_be32_def)
    qed (use r Some in simp)
  qed (use r in simp)
qed simp

lemma parse_answer_safe: "n \<le> length m \<Longrightarrow> \<exists>r. parse_answer m n i = Some r"
proof (cases "n < 12")
  case False
  assume n: "n \<le> length m"
  with False obtain h where h: "dns_header_unpack m = Some h" by (auto simp: dns_header_unpack_def get_be16_def)
  obtain r where q: "skip_questions m n (unat (dh_qdcount h)) 12 = Some r" using skip_questions_safe [OF n] by blast
  obtain r' where "scan_answers m n (unat (dh_ancount h)) (the r) = Some r'" using scan_answers_safe [OF n] by blast
  with False h q show ?thesis by (cases r) (simp_all add: parse_answer_def)
qed (simp add: parse_answer_def)

subsection \<open>Well-formed replies\<close>

text \<open>A name is a list of labels that ends with the root label or with a compression pointer.\<close>

type_synonym dns_name = "bytes list \<times> (u8 \<times> u8) option"

definition name_ok :: "dns_name \<Rightarrow> bool" where
  "name_ok nm \<longleftrightarrow> list_all (\<lambda>l. l \<noteq> [] \<and> length l \<le> 63) (fst nm) \<and>
     (case snd nm of None \<Rightarrow> True | Some (b, c) \<Rightarrow> b AND 0xC0 = 0xC0)"

definition name_bytes :: "dns_name \<Rightarrow> bytes" where
  "name_bytes nm = concat (map (\<lambda>l. of_nat (length l) # l) (fst nm)) @ (case snd nm of None \<Rightarrow> [0] | Some (b, c) \<Rightarrow> [b, c])"

text \<open>A resource record: its name, type, class, time to live and data.\<close>

type_synonym dns_record = "dns_name \<times> u16 \<times> u16 \<times> u32 \<times> bytes"

fun record_ok :: "dns_record \<Rightarrow> bool" where
  "record_ok (nm, t, c, l, d) \<longleftrightarrow> name_ok nm \<and> length d < 2 ^ 16"

fun record_bytes :: "dns_record \<Rightarrow> bytes" where
  "record_bytes (nm, t, c, l, d) = name_bytes nm @
     dns_rr_pack \<lparr>rr_type = t, rr_rclass = c, rr_ttl = l, rr_rdlength = of_nat (length d)\<rparr> @ d"

fun address_of :: "dns_record \<Rightarrow> u32 option" where
  "address_of (nm, t, c, l, [a, b, x, y]) = (if t = DNS_TYPE_A then Some (be32 a b x y) else None)"
| "address_of _ = None"

fun first_address :: "dns_record list \<Rightarrow> u32 option" where
  "first_address [] = None"
| "first_address (r # rs) = (case address_of r of Some ip \<Rightarrow> Some ip | None \<Rightarrow> first_address rs)"

definition reply_bytes :: "u16 \<Rightarrow> u16 \<Rightarrow> (dns_name \<times> dns_question) list \<Rightarrow> dns_record list \<Rightarrow> bytes \<Rightarrow> bytes" where
  "reply_bytes i flags qs rs rest =
     dns_header_pack \<lparr>dh_id = i, dh_flags = flags, dh_qdcount = of_nat (length qs), dh_ancount = of_nat (length rs),
       dh_nscount = 0, dh_arcount = 0\<rparr> @
     concat (map (\<lambda>(nm, q). name_bytes nm @ dns_question_pack q) qs) @ concat (map record_bytes rs) @ rest"

lemma label_byte:
  assumes "l \<noteq> []" "length l \<le> 63"
  shows "unat (of_nat (length l) :: u8) = length l" "(of_nat (length l) :: u8) \<noteq> 0"
    "(of_nat (length l) :: u8) AND 0xC0 \<noteq> 0xC0"
proof -
  show u: "unat (of_nat (length l) :: u8) = length l" using assms(2) by (intro unat_of_nat_small) simp
  show "(of_nat (length l) :: u8) \<noteq> 0"
  proof
    assume "(of_nat (length l) :: u8) = 0"
    then have "unat (of_nat (length l) :: u8) = 0" by simp
    with u assms(1) show False by simp
  qed
  have le: "(of_nat (length l) :: u8) \<le> 63" using u assms(2) by (simp add: word_le_nat_alt)
  show "(of_nat (length l) :: u8) AND 0xC0 \<noteq> 0xC0"
  proof
    assume "(of_nat (length l) :: u8) AND 0xC0 = 0xC0"
    then have "(0xC0 :: u8) \<le> of_nat (length l)" by (metis word_and_le2)
    from this le have "(0xC0 :: u8) \<le> 63" by (rule order_trans)
    then show False by simp
  qed
qed

lemma skip_name_labels:
  "list_all (\<lambda>l. l \<noteq> [] \<and> length l \<le> 63) ls \<Longrightarrow> tl' \<noteq> [] \<Longrightarrow>
   length pre + length (concat (map (\<lambda>l. of_nat (length l) # l) ls)) < n \<Longrightarrow>
   skip_name (pre @ concat (map (\<lambda>l. of_nat (length l) # l) ls) @ tl') n (length pre) =
   skip_name (pre @ concat (map (\<lambda>l. of_nat (length l) # l) ls) @ tl') n
     (length pre + length (concat (map (\<lambda>l. of_nat (length l) # l) ls)))"
proof (induction ls arbitrary: pre)
  case (Cons l ls)
  let ?b = "of_nat (length l) :: u8" and ?t = "concat (map (\<lambda>l. of_nat (length l) # l) ls) @ tl'"
  have l: "l \<noteq> []" "length l \<le> 63" using Cons.prems(1) by simp_all
  have "skip_name ((pre @ ?b # l) @ ?t) n (length (pre @ ?b # l)) = skip_name ((pre @ ?b # l) @ ?t) n
     (length (pre @ ?b # l) + length (concat (map (\<lambda>l. of_nat (length l) # l) ls)))"
    using Cons.prems by (intro Cons.IH) simp_all
  moreover have "skip_name ((pre @ ?b # l) @ ?t) n (length pre) = skip_name ((pre @ ?b # l) @ ?t) n (length (pre @ ?b # l))"
    using label_byte [OF l] Cons.prems(3) by (subst skip_name.simps) simp
  ultimately show ?case by (simp add: add.assoc)
qed simp

lemma skip_name_bytes:
  assumes "name_ok nm" "n = length (pre @ name_bytes nm @ post)"
  shows "skip_name (pre @ name_bytes nm @ post) n (length pre) = Some (Some (length pre + length (name_bytes nm)))"
proof -
  define c where "c = concat (map (\<lambda>l. of_nat (length l) # l) (fst nm) :: u8 list list)"
  define t where "t = (case snd nm of None \<Rightarrow> [0] | Some (b, c) \<Rightarrow> [b, c :: u8])"
  have nb: "name_bytes nm = c @ t" by (simp add: name_bytes_def c_def t_def)
  have t: "t \<noteq> []" "hd t = 0 \<and> length t = 1 \<or> hd t AND 0xC0 = 0xC0 \<and> length t = 2"
    using assms(1) by (auto simp: t_def name_ok_def split: option.splits)
  have "skip_name (pre @ c @ t @ post) n (length pre) = skip_name (pre @ c @ t @ post) n (length pre + length c)"
    unfolding c_def using assms t(1) nb by (intro skip_name_labels) (simp_all add: name_ok_def c_def)
  also have "\<dots> = skip_name ((pre @ c) @ t @ post) n (length (pre @ c))" by simp
  also have "\<dots> = Some (Some (length (pre @ c) + length t))"
  proof -
    have "length (pre @ c) < n" using assms(2) nb t(1) by simp
    then show ?thesis using t by (subst skip_name.simps) (cases t; auto simp: rd_append(1) simp del: append_assoc length_append)
  qed
  finally show ?thesis by (simp add: nb)
qed

lemma skip_questions_bytes:
  "list_all (\<lambda>(nm, q). name_ok nm) qs \<Longrightarrow>
   skip_questions (pre @ concat (map (\<lambda>(nm, q). name_bytes nm @ dns_question_pack q) qs) @ post)
     (length (pre @ concat (map (\<lambda>(nm, q). name_bytes nm @ dns_question_pack q) qs) @ post)) (length qs) (length pre) =
   Some (Some (length pre + length (concat (map (\<lambda>(nm, q). name_bytes nm @ dns_question_pack q) qs))))"
proof (induction qs arbitrary: pre)
  case (Cons x qs)
  obtain nm q where x: "x = (nm, q)" by fastforce
  let ?c = "concat (map (\<lambda>(nm, q). name_bytes nm @ dns_question_pack q) qs)"
  let ?m = "pre @ name_bytes nm @ dns_question_pack q @ ?c @ post"
  have "skip_name ?m (length ?m) (length pre) = Some (Some (length pre + length (name_bytes nm)))"
    using Cons.prems x by (intro skip_name_bytes) simp_all
  moreover have "skip_questions ((pre @ name_bytes nm @ dns_question_pack q) @ ?c @ post)
     (length ((pre @ name_bytes nm @ dns_question_pack q) @ ?c @ post)) (length qs) (length (pre @ name_bytes nm @ dns_question_pack q)) =
    Some (Some (length (pre @ name_bytes nm @ dns_question_pack q) + length ?c))"
    using Cons.prems by (intro Cons.IH) simp
  ultimately show ?case by (simp add: x add.assoc)
qed simp

lemma dns_rr_unpack_pack: "dns_rr_unpack (pre @ dns_rr_pack r @ post) (length pre) = Some r"
  by (simp add: dns_rr_unpack_def dns_rr_pack_def get_be16_def get_be32_def nth_append be16_bytes_def be32_bytes_def)

lemma address_of_eq: "address_of (nm, t, c, l, d) =
    (if t = DNS_TYPE_A \<and> length d = 4 then Some (be32 (d ! 0) (d ! 1) (d ! 2) (d ! 3)) else None)"
proof (cases "length d = 4")
  case True
  then obtain a b x y where "d = [a, b, x, y]" by (auto simp: numeral_eq_Suc length_Suc_conv)
  then show ?thesis by (simp add: numeral_eq_Suc)
next
  case False
  then show ?thesis by (cases "(nm, t, c, l, d)" rule: address_of.cases) auto
qed

lemma scan_answers_bytes:
  "list_all record_ok rs \<Longrightarrow>
   scan_answers (pre @ concat (map record_bytes rs) @ post) (length (pre @ concat (map record_bytes rs) @ post))
     (length rs) (length pre) = Some (first_address rs)"
proof (induction rs arbitrary: pre)
  case (Cons r rs)
  obtain nm t c l d where r: "r = (nm, t, c, l, d)" by (cases r) auto
  define h where "h = \<lparr>rr_type = t, rr_rclass = c, rr_ttl = l, rr_rdlength = of_nat (length d)\<rparr>"
  have ok: "name_ok nm" "length d < 2 ^ 16" using Cons.prems r by simp_all
  define m where "m = pre @ name_bytes nm @ dns_rr_pack h @ d @ concat (map record_bytes rs) @ post"
  have sk: "skip_name m (length m) (length pre) = Some (Some (length pre + length (name_bytes nm)))"
    unfolding m_def using ok(1) by (rule skip_name_bytes) simp
  have "dns_rr_unpack ((pre @ name_bytes nm) @ dns_rr_pack h @ d @ concat (map record_bytes rs) @ post) (length (pre @ name_bytes nm)) = Some h"
    by (rule dns_rr_unpack_pack)
  then have un: "dns_rr_unpack m (length pre + length (name_bytes nm)) = Some h" by (simp add: m_def)
  have rl: "unat (rr_rdlength h) = length d" using ok(2) by (simp add: h_def unat_of_nat_small del: unat_of_nat)
  have four: "get_be32 m (length pre + length (name_bytes nm) + 10) = Some (be32 (d ! 0) (d ! 1) (d ! 2) (d ! 3))"
    if "length d = 4"
    using that by (simp add: m_def get_be32_def nth_append)
  have "scan_answers ((pre @ record_bytes r) @ concat (map record_bytes rs) @ post)
      (length ((pre @ record_bytes r) @ concat (map record_bytes rs) @ post)) (length rs) (length (pre @ record_bytes r)) =
    Some (first_address rs)" using Cons.prems by (intro Cons.IH) simp
  then have IH: "scan_answers m (length m) (length rs) (length pre + length (name_bytes nm) + 10 + length d) = Some (first_address rs)"
    by (simp add: m_def r h_def add.assoc)
  have bd: "length pre + length (name_bytes nm) + 10 + length d \<le> length m" by (simp add: m_def)
  have step: "scan_answers m (length m) (Suc (length rs)) (length pre) = (if t = DNS_TYPE_A \<and> length d = 4
      then Some (Some (be32 (d ! 0) (d ! 1) (d ! 2) (d ! 3))) else Some (first_address rs))"
    using sk un rl bd four IH by (simp add: Let_def) (simp add: h_def)
  have "pre @ concat (map record_bytes (r # rs)) @ post = m" by (simp add: m_def r h_def)
  moreover have "first_address (r # rs) = (if t = DNS_TYPE_A \<and> length d = 4
      then Some (be32 (d ! 0) (d ! 1) (d ! 2) (d ! 3)) else first_address rs)"
    by (simp add: r address_of_eq)
  ultimately show ?case using step by simp
qed simp

lemma dns_header_unpack_pack: "dns_header_unpack (dns_header_pack h @ rest) = Some h"
  by (simp add: dns_header_unpack_def dns_header_pack_def get_be16_def be16_bytes_def)

subsection \<open>A reply that is longer than the buffer\<close>

definition long_reply :: "u16 \<Rightarrow> bytes" where
  "long_reply i = dns_header_pack \<lparr>dh_id = i, dh_flags = 0x8000, dh_qdcount = 0, dh_ancount = 1, dh_nscount = 0, dh_arcount = 0\<rparr> @
     replicate 588 63"

lemma skip_name_row:
  assumes "length h = 12" "12 \<le> k" "k < 512"
  shows "skip_name (h @ replicate 500 63) 600 k = skip_name (h @ replicate 500 63) 600 (k + 64)"
proof -
  have "rd (h @ replicate 500 (63 :: u8)) k = Some 63" using assms by (simp add: nth_append)
  moreover have "(63 :: u8) AND 0xC0 \<noteq> 0xC0" "(63 :: u8) \<noteq> 0" "k + 1 + unat (63 :: u8) = k + 64" by simp_all
  moreover have "k < 600" using assms by simp
  ultimately show ?thesis by (subst skip_name.simps) (simp only: if_True if_False option.case simp_thms)
qed

lemma skip_name_overread:
  assumes "length h = 12"
  shows "skip_name (h @ replicate 500 63) 600 12 = None"
proof -
  have "skip_name (h @ replicate 500 63) 600 12 = skip_name (h @ replicate 500 63) 600 524"
    using assms by (simp add: skip_name_row)
  also have "\<dots> = None" using assms by (subst skip_name.simps) (simp add: rd_def)
  finally show ?thesis .
qed

lemma parse_long_reply: "parse_answer (take 512 (long_reply i)) (length (long_reply i)) i = None"
  using skip_name_overread [OF length_dns_header]
  by (simp add: parse_answer_def long_reply_def dns_header_unpack_pack DNS_RCODE_MASK_def)

subsection \<open>Properties\<close>

text \<open>C23. A well-formed reply is understood: whatever questions it repeats, with compressed or uncompressed
  names, and whatever records surround the answer, the parser returns the address of the first record of type
  A with four bytes of data, and nothing when there is none.\<close>

theorem dns_parse_reply:
  assumes "list_all (\<lambda>(nm, q). name_ok nm) qs" "list_all record_ok rs" "length qs < 2 ^ 16" "length rs < 2 ^ 16"
    and "flags AND DNS_RCODE_MASK = 0"
  shows "parse_answer (reply_bytes i flags qs rs rest) (length (reply_bytes i flags qs rs rest)) i = Some (first_address rs)"
proof -
  define h where "h = \<lparr>dh_id = i, dh_flags = flags, dh_qdcount = of_nat (length qs), dh_ancount = of_nat (length rs),
       dh_nscount = 0, dh_arcount = 0\<rparr>"
  define c where "c = concat (map (\<lambda>(nm, q). name_bytes nm @ dns_question_pack q) qs)"
  define m where "m = dns_header_pack h @ c @ concat (map record_bytes rs) @ rest"
  have r: "reply_bytes i flags qs rs rest = m" by (simp add: reply_bytes_def m_def h_def c_def)
  have u: "dns_header_unpack m = Some h" unfolding m_def by (rule dns_header_unpack_pack)
  have counts: "unat (dh_qdcount h) = length qs" "unat (dh_ancount h) = length rs"
    using assms(3,4) by (simp_all add: h_def unat_of_nat_small del: unat_of_nat)
  have "skip_questions m (length m) (length qs) 12 = Some (Some (12 + length c))"
    using skip_questions_bytes [OF assms(1), of "dns_header_pack h" "concat (map record_bytes rs) @ rest"]
    by (simp add: m_def c_def)
  moreover have "scan_answers m (length m) (length rs) (12 + length c) = Some (first_address rs)"
    using scan_answers_bytes [OF assms(2), of "dns_header_pack h @ c" rest] by (simp add: m_def)
  moreover have "\<not> length m < 12" "dh_id h = i" "dh_flags h AND DNS_RCODE_MASK = 0" using assms(5) by (simp_all add: m_def h_def)
  ultimately show ?thesis using u counts unfolding r by (simp add: parse_answer_def)
qed

theorem dns_parse_reply_witness:
  "parse_answer (reply_bytes 7 0x8180 [(([[97, 98], [99]], None), \<lparr>dq_qtype = 1, dq_qclass = 1\<rparr>)]
      [(([], Some (0xC0, 12)), 5, 1, 60, [1, 100, 0]), (([[100]], Some (0xC0, 12)), 1, 1, 60, [10, 0, 2, 3])] [])
    (length (reply_bytes 7 0x8180 [(([[97, 98], [99]], None), \<lparr>dq_qtype = 1, dq_qclass = 1\<rparr>)]
      [(([], Some (0xC0, 12)), 5, 1, 60, [1, 100, 0]), (([[100]], Some (0xC0, 12)), 1, 1, 60, [10, 0, 2, 3])] [])) 7 =
   Some (Some (be32 10 0 2 3))"
  by (subst dns_parse_reply) (simp_all add: name_ok_def DNS_RCODE_MASK_def DNS_TYPE_A_def)



end
