(* ===== verification/Bcache.thy ===== *)
theory Bcache
  imports Links "HOL-Library.Monad_Syntax"
begin

text \<open>
  The write-back block cache \<^verbatim>\<open>src/src/bcache.c\<close>. A slot is its index in the array \<^verbatim>\<open>c->slots\<close>; the fields of
  the slots are functions of the index, one for each member of \<^verbatim>\<open>struct bcache_slot\<close>, so that the LRU list and
  the hash chains are the link functions that \<open>Links\<close> describes. The device below is a parameter: the three
  functions of \<^verbatim>\<open>struct blockdev\<close> over a state \<open>'d\<close>. A result \<^const>\<open>None\<close> is a chain walk that does not end or
  a NULL pointer that is followed; the lemmas show that neither happens.
\<close>

subsection \<open>Definitions\<close>

record 'd blockdev =
  bd_read :: "u64 \<Rightarrow> u32 \<Rightarrow> 'd \<Rightarrow> bool \<times> bytes \<times> 'd"
  bd_write :: "u64 \<Rightarrow> u32 \<Rightarrow> bytes \<Rightarrow> 'd \<Rightarrow> bool \<times> 'd"
  bd_sectors :: "'d \<Rightarrow> u64"

record bcache_stats =
  st_hits :: u64
  st_misses :: u64
  st_writebacks :: u64
  st_evictions :: u64

record 'd bcache =
  bc_dev :: 'd
  bc_block_size :: u32
  bc_spb :: u32
  bc_nslots :: u32
  sl_blk :: "nat \<Rightarrow> u32"
  sl_valid :: "nat \<Rightarrow> bool"
  sl_dirty :: "nat \<Rightarrow> bool"
  sl_data :: "nat \<Rightarrow> bytes"
  lru_prev :: "nat \<Rightarrow> nat option"
  lru_next :: "nat \<Rightarrow> nat option"
  hash_next :: "nat \<Rightarrow> nat option"
  bc_buckets :: "nat \<Rightarrow> nat option"
  bc_nbuckets :: u32
  lru_head :: "nat option"
  lru_tail :: "nat option"
  bc_stats :: bcache_stats

definition READAHEAD :: nat where "READAHEAD = 3"

definition bucket_of :: "u32 \<Rightarrow> u32 \<Rightarrow> nat" where
  "bucket_of nbuckets blk = unat (blk AND (nbuckets - 1))"

definition lru_unlink :: "nat \<Rightarrow> 'd bcache \<Rightarrow> 'd bcache" where
  "lru_unlink s c =
     (let c = (case lru_prev c s of
                 Some p \<Rightarrow> c\<lparr>lru_next := (lru_next c)(p := lru_next c s)\<rparr>
               | None \<Rightarrow> c\<lparr>lru_head := lru_next c s\<rparr>);
          c = (case lru_next c s of
                 Some n \<Rightarrow> c\<lparr>lru_prev := (lru_prev c)(n := lru_prev c s)\<rparr>
               | None \<Rightarrow> c\<lparr>lru_tail := lru_prev c s\<rparr>)
      in c\<lparr>lru_prev := (lru_prev c)(s := None), lru_next := (lru_next c)(s := None)\<rparr>)"

definition lru_push_front :: "nat \<Rightarrow> 'd bcache \<Rightarrow> 'd bcache" where
  "lru_push_front s c =
     (let c = c\<lparr>lru_prev := (lru_prev c)(s := None), lru_next := (lru_next c)(s := lru_head c)\<rparr>;
          c = (case lru_head c of Some h \<Rightarrow> c\<lparr>lru_prev := (lru_prev c)(h := Some s)\<rparr> | None \<Rightarrow> c);
          c = c\<lparr>lru_head := Some s\<rparr>
      in if lru_tail c = None then c\<lparr>lru_tail := Some s\<rparr> else c)"

definition lru_push_back :: "nat \<Rightarrow> 'd bcache \<Rightarrow> 'd bcache" where
  "lru_push_back s c =
     (let c = c\<lparr>lru_next := (lru_next c)(s := None), lru_prev := (lru_prev c)(s := lru_tail c)\<rparr>;
          c = (case lru_tail c of Some t \<Rightarrow> c\<lparr>lru_next := (lru_next c)(t := Some s)\<rparr> | None \<Rightarrow> c);
          c = c\<lparr>lru_tail := Some s\<rparr>
      in if lru_head c = None then c\<lparr>lru_head := Some s\<rparr> else c)"

definition lru_touch :: "nat \<Rightarrow> 'd bcache \<Rightarrow> 'd bcache" where
  "lru_touch s c = (if lru_head c = Some s then c else lru_push_front s (lru_unlink s c))"

definition hash_insert :: "nat \<Rightarrow> 'd bcache \<Rightarrow> 'd bcache" where
  "hash_insert s c =
     (let b = bucket_of (bc_nbuckets c) (sl_blk c s) in
      c\<lparr>hash_next := (hash_next c)(s := bc_buckets c b), bc_buckets := (bc_buckets c)(b := Some s)\<rparr>)"

text \<open>\<^verbatim>\<open>while (*pp && *pp != s) pp = &(*pp)->hash_next\<close>: \<open>pp\<close> is the bucket head (\<^const>\<open>None\<close>) or the link of a
  slot, and \<open>p\<close> its value.\<close>

partial_function (option) hash_walk :: "'d bcache \<Rightarrow> nat \<Rightarrow> nat option \<Rightarrow> nat option \<Rightarrow> (nat option \<times> nat option) option" where
  "hash_walk c s pp p =
     (case p of
        None \<Rightarrow> Some (pp, None)
      | Some x \<Rightarrow> if x = s then Some (pp, Some x) else hash_walk c s (Some x) (hash_next c x))"

definition hash_remove :: "nat \<Rightarrow> 'd bcache \<Rightarrow> 'd bcache option" where
  "hash_remove s c =
     (let b = bucket_of (bc_nbuckets c) (sl_blk c s) in do {
        (pp, p) \<leftarrow> hash_walk c s None (bc_buckets c b);
        let c = (case p of
              None \<Rightarrow> c
            | Some x \<Rightarrow> (case pp of
                  None \<Rightarrow> c\<lparr>bc_buckets := (bc_buckets c)(b := hash_next c s)\<rparr>
                | Some y \<Rightarrow> c\<lparr>hash_next := (hash_next c)(y := hash_next c s)\<rparr>)) in
        Some (c\<lparr>hash_next := (hash_next c)(s := None)\<rparr>) })"

partial_function (option) lookup_walk :: "'d bcache \<Rightarrow> u32 \<Rightarrow> nat option \<Rightarrow> nat option option" where
  "lookup_walk c blk p =
     (case p of
        None \<Rightarrow> Some None
      | Some s \<Rightarrow> if sl_valid c s \<and> sl_blk c s = blk then Some (Some s) else lookup_walk c blk (hash_next c s))"

definition lookup :: "'d bcache \<Rightarrow> u32 \<Rightarrow> nat option option" where
  "lookup c blk = lookup_walk c blk (bc_buckets c (bucket_of (bc_nbuckets c) blk))"

definition dev_read_block :: "'d blockdev \<Rightarrow> u32 \<Rightarrow> 'd bcache \<Rightarrow> bool \<times> bytes \<times> 'd" where
  "dev_read_block dev blk c = bd_read dev (ucast blk * ucast (bc_spb c)) (bc_spb c) (bc_dev c)"

definition dev_write_block :: "'d blockdev \<Rightarrow> u32 \<Rightarrow> bytes \<Rightarrow> 'd bcache \<Rightarrow> bool \<times> 'd" where
  "dev_write_block dev blk buf c = bd_write dev (ucast blk * ucast (bc_spb c)) (bc_spb c) buf (bc_dev c)"

definition count_hit :: "'d bcache \<Rightarrow> 'd bcache" where
  "count_hit c = c\<lparr>bc_stats := (bc_stats c)\<lparr>st_hits := st_hits (bc_stats c) + 1\<rparr>\<rparr>"

definition count_miss :: "'d bcache \<Rightarrow> 'd bcache" where
  "count_miss c = c\<lparr>bc_stats := (bc_stats c)\<lparr>st_misses := st_misses (bc_stats c) + 1\<rparr>\<rparr>"

definition count_eviction :: "'d bcache \<Rightarrow> 'd bcache" where
  "count_eviction c = c\<lparr>bc_stats := (bc_stats c)\<lparr>st_evictions := st_evictions (bc_stats c) + 1\<rparr>\<rparr>"

definition flush_slot :: "'d blockdev \<Rightarrow> nat \<Rightarrow> 'd bcache \<Rightarrow> bool \<times> 'd bcache" where
  "flush_slot dev s c =
     (if \<not> sl_valid c s \<or> \<not> sl_dirty c s then (True, c)
      else let (ok, d) = dev_write_block dev (sl_blk c s) (sl_data c s) c; c = c\<lparr>bc_dev := d\<rparr> in
        if \<not> ok then (False, c)
        else (True, c\<lparr>sl_dirty := (sl_dirty c)(s := False),
          bc_stats := (bc_stats c)\<lparr>st_writebacks := st_writebacks (bc_stats c) + 1\<rparr>\<rparr>))"

definition claim :: "'d blockdev \<Rightarrow> u32 \<Rightarrow> 'd bcache \<Rightarrow> (nat \<times> 'd bcache) option" where
  "claim dev blk c =
     (case lru_tail c of
        None \<Rightarrow> None
      | Some s \<Rightarrow> do {
          c \<leftarrow> (if sl_valid c s
               then let (ok, c) = flush_slot dev s c in map_option count_eviction (hash_remove s c)
               else Some c);
          let c = c\<lparr>sl_valid := (sl_valid c)(s := False), sl_dirty := (sl_dirty c)(s := False),
            sl_blk := (sl_blk c)(s := blk)\<rparr> in
          Some (s, lru_touch s (hash_insert s c)) })"

definition fill :: "'d blockdev \<Rightarrow> u32 \<Rightarrow> 'd bcache \<Rightarrow> (nat option \<times> 'd bcache) option" where
  "fill dev blk c = do {
     r \<leftarrow> lookup c blk;
     (case r of
        Some s \<Rightarrow> Some (Some s, lru_touch s (count_hit c))
      | None \<Rightarrow> do {
          (s, c) \<leftarrow> claim dev blk (count_miss c);
          let (ok, buf, d) = dev_read_block dev blk c; c = c\<lparr>bc_dev := d, sl_data := (sl_data c)(s := buf)\<rparr> in
          if \<not> ok then do { c \<leftarrow> hash_remove s c; Some (None, c\<lparr>sl_blk := (sl_blk c)(s := 0)\<rparr>) }
          else Some (Some s, c\<lparr>sl_valid := (sl_valid c)(s := True)\<rparr>) }) }"

fun readahead_loop :: "'d blockdev \<Rightarrow> u64 \<Rightarrow> u32 \<Rightarrow> nat list \<Rightarrow> 'd bcache \<Rightarrow> 'd bcache option" where
  "readahead_loop dev tot blk [] c = Some c"
| "readahead_loop dev tot blk (i # is) c =
     (let nxt = blk + of_nat i in
      if tot \<noteq> 0 \<and> ucast nxt \<ge> tot then Some c
      else do {
        r \<leftarrow> lookup c nxt;
        if r \<noteq> None then readahead_loop dev tot blk is c
        else case lru_tail c of
            None \<Rightarrow> None
          | Some t \<Rightarrow>
              if sl_valid c t \<and> sl_dirty c t then Some c
              else do {
                (s, c) \<leftarrow> fill dev nxt c;
                if s = None then Some c else readahead_loop dev tot blk is c } })"

definition readahead :: "'d blockdev \<Rightarrow> u32 \<Rightarrow> 'd bcache \<Rightarrow> 'd bcache option" where
  "readahead dev blk c = readahead_loop dev (bd_sectors dev (bc_dev c) div ucast (bc_spb c)) blk [1..<READAHEAD + 1] c"

text \<open>\<^verbatim>\<open>while (nb < nslots) nb <<= 1\<close> on 32-bit integers.\<close>

partial_function (option) round_up :: "u32 \<Rightarrow> u32 \<Rightarrow> u32 option" where
  "round_up nslots nb = (if nb < nslots then round_up nslots (push_bit 1 nb) else Some nb)"

text \<open>The blocks a cache draws from the heap, which are zeroed.\<close>

datatype bc_block = Bc_self | Bc_slots | Bc_buckets | Bc_data nat

fun seed_slots :: "nat list \<Rightarrow> 'd bcache \<Rightarrow> bc_block list \<times> 'd bcache" where
  "seed_slots [] c = ([], c)"
| "seed_slots (i # is) c =
     (let c = c\<lparr>sl_data := (sl_data c)(i := replicate (unat (bc_block_size c)) 0), sl_valid := (sl_valid c)(i := False),
        sl_dirty := (sl_dirty c)(i := False)\<rparr>;
          (bs, c) = seed_slots is (lru_push_front i c)
      in (Bc_data i # bs, c))"

text \<open>The inner \<^const>\<open>None\<close> is the result NULL.\<close>

definition bcache_create :: "u32 \<Rightarrow> u32 \<Rightarrow> 'd \<Rightarrow> (bc_block list \<times> 'd bcache) option option" where
  "bcache_create block_size' nslots' d =
     (if block_size' = 0 \<or> block_size' mod 512 \<noteq> 0 \<or> nslots' = 0 then Some None
      else do {
        nb \<leftarrow> round_up nslots' 1;
        let c = \<lparr>bc_dev = d, bc_block_size = block_size', bc_spb = block_size' div 512, bc_nslots = nslots',
              sl_blk = \<lambda>s. 0, sl_valid = \<lambda>s. False, sl_dirty = \<lambda>s. False, sl_data = \<lambda>s. [],
              lru_prev = \<lambda>s. None, lru_next = \<lambda>s. None, hash_next = \<lambda>s. None, bc_buckets = \<lambda>b. None,
              bc_nbuckets = nb, lru_head = None, lru_tail = None,
              bc_stats = \<lparr>st_hits = 0, st_misses = 0, st_writebacks = 0, st_evictions = 0\<rparr>\<rparr>;
            (bs, c) = seed_slots [0..<unat nslots'] c in
        Some (Some ([Bc_self, Bc_slots, Bc_buckets] @ bs, c)) })"

definition bcache_read :: "'d blockdev \<Rightarrow> u32 \<Rightarrow> 'd bcache \<Rightarrow> (bytes option \<times> 'd bcache) option" where
  "bcache_read dev blk c = do {
     r \<leftarrow> lookup c blk;
     (case r of
        Some s \<Rightarrow> (let c = lru_touch s (count_hit c) in Some (Some (take (unat (bc_block_size c)) (sl_data c s)), c))
      | None \<Rightarrow> do {
          (f, c) \<leftarrow> fill dev blk c;
          (case f of
             None \<Rightarrow> Some (None, c)
           | Some s \<Rightarrow>
               (let buf = take (unat (bc_block_size c)) (sl_data c s) in do {
                  c \<leftarrow> readahead dev blk c;
                  Some (Some buf, c) })) }) }"

definition bcache_write :: "'d blockdev \<Rightarrow> u32 \<Rightarrow> bytes \<Rightarrow> 'd bcache \<Rightarrow> 'd bcache option" where
  "bcache_write dev blk buf c = do {
     r \<leftarrow> lookup c blk;
     (s, c) \<leftarrow> (case r of
         None \<Rightarrow> do { (s, c) \<leftarrow> claim dev blk c; Some (s, c\<lparr>sl_valid := (sl_valid c)(s := True)\<rparr>) }
       | Some s \<Rightarrow> Some (s, lru_touch s c));
     Some (c\<lparr>sl_data := (sl_data c)(s := take (unat (bc_block_size c)) buf), sl_dirty := (sl_dirty c)(s := True)\<rparr>) }"

fun any_resident :: "'d bcache \<Rightarrow> u32 list \<Rightarrow> bool option" where
  "any_resident c [] = Some False"
| "any_resident c (b # bs) = do { r \<leftarrow> lookup c b; if r \<noteq> None then Some True else any_resident c bs }"

text \<open>\<open>p\<close> is the buffer from the place of the next block on; a block that cannot be read leaves it as it is.\<close>

fun read_blocks :: "'d blockdev \<Rightarrow> u32 list \<Rightarrow> bytes \<Rightarrow> 'd bcache \<Rightarrow> (bool \<times> bytes \<times> 'd bcache) option" where
  "read_blocks dev [] p c = Some (True, p, c)"
| "read_blocks dev (b # bs) p c = do {
     (r, c) \<leftarrow> bcache_read dev b c;
     (case r of
        None \<Rightarrow> Some (False, p, c)
      | Some x \<Rightarrow> do { (ok, q, c) \<leftarrow> read_blocks dev bs (drop (length x) p) c; Some (ok, x @ q, c) }) }"

definition bcache_read_run :: "'d blockdev \<Rightarrow> u32 \<Rightarrow> u32 \<Rightarrow> bytes \<Rightarrow> 'd bcache \<Rightarrow> (bool \<times> bytes \<times> 'd bcache) option" where
  "bcache_read_run dev blk n p c =
     (if n = 0 then Some (True, p, c)
      else let bs = map (\<lambda>i. blk + of_nat i) [0..<unat n] in do {
        found \<leftarrow> any_resident c bs;
        if \<not> found
        then let (ok, x, d) = bd_read dev (ucast blk * ucast (bc_spb c)) (n * bc_spb c) (bc_dev c)
             in Some (ok, x @ drop (length x) p, c\<lparr>bc_dev := d\<rparr>)
        else read_blocks dev bs p c })"

fun sync_slots :: "'d blockdev \<Rightarrow> nat list \<Rightarrow> bool \<Rightarrow> 'd bcache \<Rightarrow> bool \<times> 'd bcache" where
  "sync_slots dev [] ok c = (ok, c)"
| "sync_slots dev (i # is) ok c = (let (w, c) = flush_slot dev i c in sync_slots dev is (if \<not> w then False else ok) c)"

definition bcache_sync :: "'d blockdev \<Rightarrow> 'd bcache \<Rightarrow> bool \<times> 'd bcache" where
  "bcache_sync dev c = sync_slots dev [0..<unat (bc_nslots c)] True c"

definition bcache_forget :: "'d blockdev \<Rightarrow> u32 \<Rightarrow> 'd bcache \<Rightarrow> 'd bcache option" where
  "bcache_forget dev blk c = do {
     r \<leftarrow> lookup c blk;
     (case r of
        None \<Rightarrow> Some c
      | Some s \<Rightarrow> let (ok, c) = flush_slot dev s c in do {
          c \<leftarrow> hash_remove s c;
          Some (lru_push_back s (lru_unlink s
            (c\<lparr>sl_valid := (sl_valid c)(s := False), sl_dirty := (sl_dirty c)(s := False)\<rparr>))) }) }"

text \<open>The blocks given back to the heap, in order, and the cache as it is then.\<close>

definition bcache_destroy :: "'d blockdev \<Rightarrow> 'd bcache \<Rightarrow> bc_block list \<times> 'd bcache" where
  "bcache_destroy dev c =
     (map Bc_data [0..<unat (bc_nslots c)] @ [Bc_buckets, Bc_slots, Bc_self], snd (bcache_sync dev c))"

definition bcache_get_stats :: "'d bcache \<Rightarrow> bcache_stats" where
  "bcache_get_stats c = bc_stats c"

subsection \<open>The lists\<close>

text \<open>What the link fields describe: \<open>xs\<close> is the LRU list, most recently used first.\<close>

abbreviation lru_list :: "'d bcache \<Rightarrow> nat list \<Rightarrow> bool" where
  "lru_list c xs \<equiv> dll (lru_prev c) (lru_next c) (lru_head c) (lru_tail c) xs"

lemma lru_unlink_dll:
  assumes "lru_list c (as @ s # bs)"
  shows "lru_list (lru_unlink s c) (as @ bs)"
proof -
  have px: "lru_prev c s \<noteq> Some s" "lru_next c s \<noteq> Some s"
    using chain_prev_of [OF assms] dll_distinct [OF assms] by (auto dest: last_in_set hd_in_set)
  have "lru_prev (lru_unlink s c) = unlink_prv (lru_prev c) (lru_next c) s"
    "lru_next (lru_unlink s c) = unlink_nxt (lru_prev c) (lru_next c) s"
    "lru_head (lru_unlink s c) = (if lru_prev c s = None then lru_next c s else lru_head c)"
    "lru_tail (lru_unlink s c) = (if lru_next c s = None then lru_prev c s else lru_tail c)"
    using px by (auto simp: lru_unlink_def unlink_prv_def unlink_nxt_def Let_def split: option.split)
  with dll_unlink [OF assms] show ?thesis by simp
qed

lemma lru_push_front_dll:
  assumes "lru_list c xs" "s \<notin> set xs"
  shows "lru_list (lru_push_front s c) (s # xs)"
proof -
  have h: "lru_head c \<noteq> Some s" using dll_head [OF assms(1)] assms(2) by auto
  have "lru_prev (lru_push_front s c) = (case lru_head c of Some h \<Rightarrow> (lru_prev c)(h := Some s) | None \<Rightarrow> lru_prev c)(s := None)"
    "lru_next (lru_push_front s c) = (lru_next c)(s := lru_head c)"
    "lru_head (lru_push_front s c) = Some s"
    "lru_tail (lru_push_front s c) = (if lru_tail c = None then Some s else lru_tail c)"
    using h by (auto simp: lru_push_front_def Let_def split: option.split)
  with dll_push_front [OF assms] show ?thesis by simp
qed

lemma lru_push_back_dll:
  assumes "lru_list c xs" "s \<notin> set xs"
  shows "lru_list (lru_push_back s c) (xs @ [s])"
proof -
  have t: "lru_tail c \<noteq> Some s" using dll_tail [OF assms(1)] assms(2) by auto
  have "lru_next (lru_push_back s c) = (case lru_tail c of Some t \<Rightarrow> (lru_next c)(t := Some s) | None \<Rightarrow> lru_next c)(s := None)"
    "lru_prev (lru_push_back s c) = (lru_prev c)(s := lru_tail c)"
    "lru_tail (lru_push_back s c) = Some s"
    "lru_head (lru_push_back s c) = (if lru_head c = None then Some s else lru_head c)"
    using t by (auto simp: lru_push_back_def Let_def split: option.split)
  with dll_push_back [OF assms] show ?thesis by simp
qed

lemma lru_touch_dll:
  assumes "lru_list c xs" "s \<in> set xs"
  shows "\<exists>ys. lru_list (lru_touch s c) ys \<and> set ys = set xs"
proof (cases "lru_head c = Some s")
  case True
  with assms show ?thesis by (auto simp: lru_touch_def)
next
  case False
  obtain as bs where xs: "xs = as @ s # bs" using assms(2) by (auto simp: in_set_conv_decomp)
  have "lru_list (lru_unlink s c) (as @ bs)" using assms(1) lru_unlink_dll unfolding xs by blast
  moreover have "s \<notin> set (as @ bs)" using dll_distinct [OF assms(1)] xs by auto
  ultimately have "lru_list (lru_touch s c) (s # as @ bs)" using False lru_push_front_dll [of "lru_unlink s c" "as @ bs" s] by (simp add: lru_touch_def)
  then show ?thesis by (intro exI [of _ "s # as @ bs"]) (auto simp: xs)
qed

text \<open>The list operations change nothing but the links they are about.\<close>

lemma lru_unlink_frame [simp]:
  "bc_dev (lru_unlink s c) = bc_dev c" "bc_block_size (lru_unlink s c) = bc_block_size c" "bc_spb (lru_unlink s c) = bc_spb c"
  "bc_nslots (lru_unlink s c) = bc_nslots c" "sl_blk (lru_unlink s c) = sl_blk c" "sl_valid (lru_unlink s c) = sl_valid c"
  "sl_dirty (lru_unlink s c) = sl_dirty c" "sl_data (lru_unlink s c) = sl_data c" "hash_next (lru_unlink s c) = hash_next c"
  "bc_buckets (lru_unlink s c) = bc_buckets c" "bc_nbuckets (lru_unlink s c) = bc_nbuckets c"
  by (simp_all add: lru_unlink_def Let_def split: option.split)

lemma lru_push_front_frame [simp]:
  "bc_dev (lru_push_front s c) = bc_dev c" "bc_block_size (lru_push_front s c) = bc_block_size c"
  "bc_spb (lru_push_front s c) = bc_spb c" "bc_nslots (lru_push_front s c) = bc_nslots c"
  "sl_blk (lru_push_front s c) = sl_blk c" "sl_valid (lru_push_front s c) = sl_valid c"
  "sl_dirty (lru_push_front s c) = sl_dirty c" "sl_data (lru_push_front s c) = sl_data c"
  "hash_next (lru_push_front s c) = hash_next c" "bc_buckets (lru_push_front s c) = bc_buckets c"
  "bc_nbuckets (lru_push_front s c) = bc_nbuckets c"
  by (simp_all add: lru_push_front_def Let_def split: option.split)

lemma lru_push_back_frame [simp]:
  "bc_dev (lru_push_back s c) = bc_dev c" "bc_block_size (lru_push_back s c) = bc_block_size c"
  "bc_spb (lru_push_back s c) = bc_spb c" "bc_nslots (lru_push_back s c) = bc_nslots c"
  "sl_blk (lru_push_back s c) = sl_blk c" "sl_valid (lru_push_back s c) = sl_valid c"
  "sl_dirty (lru_push_back s c) = sl_dirty c" "sl_data (lru_push_back s c) = sl_data c"
  "hash_next (lru_push_back s c) = hash_next c" "bc_buckets (lru_push_back s c) = bc_buckets c"
  "bc_nbuckets (lru_push_back s c) = bc_nbuckets c"
  by (simp_all add: lru_push_back_def Let_def split: option.split)

lemma lru_touch_frame [simp]:
  "bc_dev (lru_touch s c) = bc_dev c" "bc_block_size (lru_touch s c) = bc_block_size c" "bc_spb (lru_touch s c) = bc_spb c"
  "bc_nslots (lru_touch s c) = bc_nslots c" "sl_blk (lru_touch s c) = sl_blk c" "sl_valid (lru_touch s c) = sl_valid c"
  "sl_dirty (lru_touch s c) = sl_dirty c" "sl_data (lru_touch s c) = sl_data c" "hash_next (lru_touch s c) = hash_next c"
  "bc_buckets (lru_touch s c) = bc_buckets c" "bc_nbuckets (lru_touch s c) = bc_nbuckets c"
  by (simp_all add: lru_touch_def)

subsection \<open>The hash chains\<close>

text \<open>\<open>H\<close> is the set of slots that are on a chain: bucket \<open>b\<close> lists those whose block hashes to \<open>b\<close>.\<close>

definition hashed :: "'d bcache \<Rightarrow> nat set \<Rightarrow> bool" where
  "hashed c H \<longleftrightarrow> (\<forall>b. \<exists>ys. chain (hash_next c) (bc_buckets c b) ys \<and>
     set ys = {s\<in>H. bucket_of (bc_nbuckets c) (sl_blk c s) = b})"

lemma bucket_of_bound [bounds]: "nb \<noteq> 0 \<Longrightarrow> bucket_of nb blk < unat nb"
proof -
  assume "nb \<noteq> 0"
  then have "unat (nb - 1) < unat nb" by (simp add: unat_minus_one unat_gt_0)
  moreover have "unat (blk AND (nb - 1)) \<le> unat (nb - 1)" using word_and_le1 [of blk "nb - 1"] by (simp add: word_le_nat_alt)
  ultimately show ?thesis by (simp add: bucket_of_def)
qed

lemma hash_walk_chain:
  "chain (hash_next c) p (as @ s # bs) \<Longrightarrow> s \<notin> set as \<Longrightarrow>
   hash_walk c s pp p = Some (if as = [] then pp else Some (last as), Some s)"
  by (induction as arbitrary: p pp) (subst hash_walk.simps; auto)+

lemma hashed_insert:
  assumes "hashed c H" "s \<notin> H"
  shows "hashed (hash_insert s c) (insert s H)"
proof -
  have "\<exists>zs. chain ((hash_next c)(s := bc_buckets c b)) (((bc_buckets c)(b := Some s)) b') zs \<and>
      set zs = {t\<in>insert s H. bucket_of (bc_nbuckets c) (sl_blk c t) = b'}"
    if b: "b = bucket_of (bc_nbuckets c) (sl_blk c s)" for b b'
  proof -
    obtain ys where ys: "chain (hash_next c) (bc_buckets c b') ys" "set ys = {t\<in>H. bucket_of (bc_nbuckets c) (sl_blk c t) = b'}"
      using assms(1) unfolding hashed_def by blast
    have "s \<notin> set ys" using ys(2) assms(2) by auto
    then show ?thesis
      using ys b by (intro exI [of _ "if b' = b then s # ys else ys"]) auto
  qed
  then show ?thesis by (simp add: hashed_def hash_insert_def Let_def)
qed

lemma hashed_remove:
  assumes "hashed c H" "s \<in> H"
  obtains hn bu where "hash_remove s c = Some (c\<lparr>hash_next := hn, bc_buckets := bu\<rparr>)"
    "hashed (c\<lparr>hash_next := hn, bc_buckets := bu\<rparr>) (H - {s})"
proof -
  define b where "b = bucket_of (bc_nbuckets c) (sl_blk c s)"
  obtain ys where ys: "chain (hash_next c) (bc_buckets c b) ys" "set ys = {t\<in>H. bucket_of (bc_nbuckets c) (sl_blk c t) = b}"
    using assms(1) unfolding hashed_def by blast
  then have "s \<in> set ys" using assms(2) b_def by simp
  then obtain as bs where split: "ys = as @ s # bs" "s \<notin> set as" by (meson split_list_first)
  have dist: "distinct ys" using ys(1) by (rule chain_distinct)
  define hn where "hn = (if as = [] then hash_next c else (hash_next c)(last as := hash_next c s))(s := None)"
  define bu where "bu = (if as = [] then (bc_buckets c)(b := hash_next c s) else bc_buckets c)"
  have "hash_walk c s None (bc_buckets c b) = Some (if as = [] then None else Some (last as), Some s)"
    using ys(1) split by (intro hash_walk_chain) simp_all
  then have r: "hash_remove s c = Some (c\<lparr>hash_next := hn, bc_buckets := bu\<rparr>)"
    by (cases "as = []") (simp_all add: hash_remove_def hn_def bu_def flip: b_def)
  have main: "chain hn (bu b) (as @ bs)"
    using chain_remove [of "hash_next c" "bc_buckets c b" as s bs] ys(1) split dist
    by (auto simp: hn_def bu_def)
  have other: "chain hn (bu b') zs" if "b' \<noteq> b" "chain (hash_next c) (bc_buckets c b') zs"
    "set zs = {t\<in>H. bucket_of (bc_nbuckets c) (sl_blk c t) = b'}" for b' zs
  proof -
    have "s \<notin> set zs" using that by (auto simp: b_def)
    moreover have "as \<noteq> [] \<Longrightarrow> last as \<notin> set zs"
      using that ys(2) split(1) last_in_set [of as] by fastforce
    ultimately show ?thesis using that by (simp add: hn_def bu_def)
  qed
  have "hashed (c\<lparr>hash_next := hn, bc_buckets := bu\<rparr>) (H - {s})"
  proof -
    have "\<exists>zs. chain hn (bu b') zs \<and> set zs = {t\<in>H - {s}. bucket_of (bc_nbuckets c) (sl_blk c t) = b'}" for b'
    proof (cases "b' = b")
      case True
      have "set (as @ bs) = set ys - {s}" using split dist by auto
      with main True ys(2) show ?thesis by (intro exI [of _ "as @ bs"]) auto
    next
      case False
      obtain zs where "chain (hash_next c) (bc_buckets c b') zs" "set zs = {t\<in>H. bucket_of (bc_nbuckets c) (sl_blk c t) = b'}"
        using assms(1) unfolding hashed_def by blast
      with other [OF False] False show ?thesis by (intro exI [of _ zs]) (auto simp: b_def)
    qed
    then show ?thesis by (simp add: hashed_def)
  qed
  with r that show thesis by blast
qed

lemma lookup_chain:
  "chain (hash_next c) p ys \<Longrightarrow> lookup_walk c blk p = Some (find (\<lambda>s. sl_valid c s \<and> sl_blk c s = blk) ys)"
  by (induction ys arbitrary: p) (subst lookup_walk.simps; auto)+

end
