(* ===== verification/Bcache_Inv.thy ===== *)
theory Bcache_Inv
  imports Bcache
begin

text \<open>
  The invariant of the block cache and what its operations do to the blocks a client sees. The view of a cache
  gives every block its contents: those of the slot that holds it, and otherwise those of the device. A read
  returns the view and keeps it, a write changes it at one block, and a sync makes the device agree with it.
  The device is described by the contents of its sectors; it may refuse a read at any time.
\<close>

subsection \<open>The device and the view\<close>

text \<open>\<open>sec d i\<close> is sector \<open>i\<close> of a device in state \<open>d\<close>. A successful read returns the sectors, a write changes
  no sector outside its range, and a successful write stores the buffer.\<close>

definition dev_ok :: "'d blockdev \<Rightarrow> ('d \<Rightarrow> nat \<Rightarrow> bytes) \<Rightarrow> bool" where
  "dev_ok dev sec \<longleftrightarrow>
     (\<forall>d i. length (sec d i) = 512) \<and>
     (\<forall>d lba n. case bd_read dev lba n d of (ok, buf, d') \<Rightarrow>
        length buf = 512 * unat n \<and> sec d' = sec d \<and>
        (ok \<longrightarrow> buf = concat (map (sec d) [unat lba..<unat lba + unat n]))) \<and>
     (\<forall>d lba n buf. length buf = 512 * unat n \<longrightarrow> (case bd_write dev lba n buf d of (ok, d') \<Rightarrow>
        (\<forall>i. i < unat lba \<or> unat lba + unat n \<le> i \<longrightarrow> sec d' i = sec d i) \<and>
        (ok \<longrightarrow> concat (map (sec d') [unat lba..<unat lba + unat n]) = buf)))"

definition writes_ok :: "'d blockdev \<Rightarrow> bool" where
  "writes_ok dev \<longleftrightarrow> (\<forall>d lba n buf. fst (bd_write dev lba n buf d))"

definition block_at :: "('d \<Rightarrow> nat \<Rightarrow> bytes) \<Rightarrow> u32 \<Rightarrow> 'd \<Rightarrow> u32 \<Rightarrow> bytes" where
  "block_at sec spb d b = concat (map (sec d) [unat b * unat spb..<unat b * unat spb + unat spb])"

definition view :: "('d \<Rightarrow> nat \<Rightarrow> bytes) \<Rightarrow> 'd bcache \<Rightarrow> u32 \<Rightarrow> bytes" where
  "view sec c b =
     (case find (\<lambda>s. sl_valid c s \<and> sl_blk c s = b) [0..<unat (bc_nslots c)] of
        Some s \<Rightarrow> sl_data c s
      | None \<Rightarrow> block_at sec (bc_spb c) (bc_dev c) b)"

lemma unat_lba: "unat (ucast (b :: u32) * ucast (s :: u32) :: u64) = unat b * unat s"
proof -
  have "unat b * unat s < 2 ^ 32 * 2 ^ 32" using unat_u32_lt [of b] unat_u32_lt [of s] by (intro mult_strict_mono) simp_all
  then show ?thesis by (subst unat_mult_small) simp_all
qed

lemma dev_ok_read:
  assumes "dev_ok dev sec" "bd_read dev lba n d = (ok, buf, d')"
  shows "length buf = 512 * unat n" "sec d' = sec d" "ok \<Longrightarrow> buf = concat (map (sec d) [unat lba..<unat lba + unat n])"
proof -
  have "case bd_read dev lba n d of (ok, buf, d') \<Rightarrow> length buf = 512 * unat n \<and> sec d' = sec d \<and>
      (ok \<longrightarrow> buf = concat (map (sec d) [unat lba..<unat lba + unat n]))"
    using assms(1) unfolding dev_ok_def by (elim conjE allE)
  then show "length buf = 512 * unat n" "sec d' = sec d" "ok \<Longrightarrow> buf = concat (map (sec d) [unat lba..<unat lba + unat n])"
    using assms(2) by simp_all
qed

lemma dev_ok_write:
  assumes "dev_ok dev sec" "bd_write dev lba n buf d = (ok, d')" "length buf = 512 * unat n"
  shows "i < unat lba \<or> unat lba + unat n \<le> i \<Longrightarrow> sec d' i = sec d i"
    and "ok \<Longrightarrow> concat (map (sec d') [unat lba..<unat lba + unat n]) = buf"
proof -
  have "length buf = 512 * unat n \<longrightarrow> (case bd_write dev lba n buf d of (ok, d') \<Rightarrow>
      (\<forall>i. i < unat lba \<or> unat lba + unat n \<le> i \<longrightarrow> sec d' i = sec d i) \<and>
      (ok \<longrightarrow> concat (map (sec d') [unat lba..<unat lba + unat n]) = buf))"
    using assms(1) unfolding dev_ok_def by (elim conjE allE)
  then show "i < unat lba \<or> unat lba + unat n \<le> i \<Longrightarrow> sec d' i = sec d i"
    and "ok \<Longrightarrow> concat (map (sec d') [unat lba..<unat lba + unat n]) = buf"
    using assms(2,3) by auto
qed

lemma dev_read_block_ok:
  assumes "dev_ok dev sec" "dev_read_block dev b c = (ok, buf, d)" "unat (bc_block_size c) = 512 * unat (bc_spb c)"
  shows "length buf = unat (bc_block_size c)" "sec d = sec (bc_dev c)" "ok \<Longrightarrow> buf = block_at sec (bc_spb c) (bc_dev c) b"
  using dev_ok_read [OF assms(1) assms(2) [unfolded dev_read_block_def]] assms(3)
  by (simp_all only: block_at_def unat_lba)

lemma block_apart: "b \<noteq> b' \<Longrightarrow> i < s \<Longrightarrow> b' * s + i < b * s \<or> b * s + s \<le> b' * s + (i :: nat)"
proof (cases "b' < b")
  case True
  assume "i < s"
  from True have "(b' + 1) * s \<le> b * s" by (intro mult_le_mono1) simp
  with \<open>i < s\<close> show ?thesis by simp
next
  case False
  assume "b \<noteq> b'"
  with False have "(b + 1) * s \<le> b' * s" by (intro mult_le_mono1) simp
  then show ?thesis by simp
qed

lemma dev_write_block_ok:
  assumes "dev_ok dev sec" "dev_write_block dev b buf c = (ok, d)" "length buf = 512 * unat (bc_spb c)"
  shows "b' \<noteq> b \<Longrightarrow> block_at sec (bc_spb c) d b' = block_at sec (bc_spb c) (bc_dev c) b'"
    and "ok \<Longrightarrow> block_at sec (bc_spb c) d b = buf"
proof -
  let ?l = "unat b * unat (bc_spb c)"
  note w = dev_ok_write [OF assms(1) assms(2) [unfolded dev_write_block_def] assms(3), unfolded unat_lba]
  show "ok \<Longrightarrow> block_at sec (bc_spb c) d b = buf" using w(2) by (simp add: block_at_def)
  assume "b' \<noteq> b"
  then have "unat b \<noteq> unat b'" by (simp add: word_unat_eq_iff)
  have "sec d i = sec (bc_dev c) i"
    if "unat b' * unat (bc_spb c) \<le> i" "i < unat b' * unat (bc_spb c) + unat (bc_spb c)" for i
  proof -
    have "i < ?l \<or> ?l + unat (bc_spb c) \<le> i"
      using block_apart [OF \<open>unat b \<noteq> unat b'\<close>, of "i - unat b' * unat (bc_spb c)" "unat (bc_spb c)"] that by auto
    then show ?thesis by (rule w(1))
  qed
  then show "block_at sec (bc_spb c) d b' = block_at sec (bc_spb c) (bc_dev c) b'"
    unfolding block_at_def by (intro arg_cong [of _ _ concat] map_cong) simp_all
qed

subsection \<open>The invariant\<close>

text \<open>\<open>H\<close> is the set of slots on the hash chains, which between the claim of a slot and its use has one slot
  more than the valid ones. A clean slot holds what the device holds.\<close>

definition cache_inv :: "('d \<Rightarrow> nat \<Rightarrow> bytes) \<Rightarrow> 'd bcache \<Rightarrow> nat set \<Rightarrow> bool" where
  "cache_inv sec c H \<longleftrightarrow>
     0 < unat (bc_nslots c) \<and> bc_nbuckets c \<noteq> 0 \<and> unat (bc_block_size c) = 512 * unat (bc_spb c) \<and>
     (\<exists>xs. lru_list c xs \<and> set xs = {0..<unat (bc_nslots c)}) \<and>
     hashed c H \<and> H \<subseteq> {0..<unat (bc_nslots c)} \<and> inj_on (sl_blk c) H \<and>
     (\<forall>s<unat (bc_nslots c). length (sl_data c s) = unat (bc_block_size c)) \<and>
     (\<forall>s<unat (bc_nslots c). sl_valid c s \<longrightarrow> \<not> sl_dirty c s \<longrightarrow> sl_data c s = block_at sec (bc_spb c) (bc_dev c) (sl_blk c s))"

definition valid_slots :: "'d bcache \<Rightarrow> nat set" where
  "valid_slots c = {s. s < unat (bc_nslots c) \<and> sl_valid c s}"

definition cache_ok :: "('d \<Rightarrow> nat \<Rightarrow> bytes) \<Rightarrow> 'd bcache \<Rightarrow> bool" where
  "cache_ok sec c \<longleftrightarrow> cache_inv sec c (valid_slots c)"

lemma cache_inv_lru:
  assumes "cache_inv sec c H" "s < unat (bc_nslots c)"
  shows "cache_inv sec (lru_touch s c) H"
proof -
  obtain xs where "lru_list c xs" "set xs = {0..<unat (bc_nslots c)}" using assms(1) by (auto simp: cache_inv_def)
  with assms(2) obtain ys where "lru_list (lru_touch s c) ys" "set ys = {0..<unat (bc_nslots c)}"
    using lru_touch_dll [of c xs s] by auto
  with assms(1) show ?thesis unfolding cache_inv_def hashed_def by (intro conjI) (simp_all, blast)
qed

lemma cache_inv_stats [simp]: "cache_inv sec (c\<lparr>bc_stats := st\<rparr>) H = cache_inv sec c H"
  by (simp add: cache_inv_def hashed_def)

lemma view_frame:
  "sl_valid c' = sl_valid c \<Longrightarrow> sl_blk c' = sl_blk c \<Longrightarrow> sl_data c' = sl_data c \<Longrightarrow> bc_nslots c' = bc_nslots c \<Longrightarrow>
   bc_spb c' = bc_spb c \<Longrightarrow> sec (bc_dev c') = sec (bc_dev c) \<Longrightarrow> view sec c' = view sec c"
  by (rule ext) (simp add: view_def block_at_def split: option.split)

lemma block_at_cong: "sec d' = sec d \<Longrightarrow> block_at sec spb d' = block_at sec spb d"
  by (rule ext) (simp add: block_at_def)

lemma find_slot:
  assumes "inj_on (sl_blk c) H" "valid_slots c \<subseteq> H" "s \<in> valid_slots c"
  shows "find (\<lambda>t. sl_valid c t \<and> sl_blk c t = sl_blk c s) [0..<unat (bc_nslots c)] = Some s"
  using assms by (auto simp: find_upt_Some valid_slots_def dest!: inj_onD [of "sl_blk c" H _ s])

lemma find_no_slot:
  "b \<notin> sl_blk c ` valid_slots c \<Longrightarrow> find (\<lambda>t. sl_valid c t \<and> sl_blk c t = b) [0..<unat (bc_nslots c)] = None"
  by (auto simp: find_upt_None valid_slots_def)

lemma view_eq:
  assumes "inj_on (sl_blk c) (valid_slots c)"
  shows "s \<in> valid_slots c \<Longrightarrow> view sec c (sl_blk c s) = sl_data c s"
    and "b \<notin> sl_blk c ` valid_slots c \<Longrightarrow> view sec c b = block_at sec (bc_spb c) (bc_dev c) b"
  unfolding view_def by (simp add: find_slot [OF assms order_refl]) (simp only: find_no_slot option.case not_False_eq_True)

lemma lookup_view:
  assumes "cache_ok sec c"
  shows "lookup c b = Some (find (\<lambda>s. sl_valid c s \<and> sl_blk c s = b) [0..<unat (bc_nslots c)])"
proof -
  obtain ys where ys: "chain (hash_next c) (bc_buckets c (bucket_of (bc_nbuckets c) b)) ys"
    "set ys = {s\<in>valid_slots c. bucket_of (bc_nbuckets c) (sl_blk c s) = bucket_of (bc_nbuckets c) b}"
    using assms unfolding cache_ok_def cache_inv_def hashed_def by blast
  have inj: "inj_on (sl_blk c) (valid_slots c)" using assms by (simp add: cache_ok_def cache_inv_def)
  have l: "lookup c b = Some (find (\<lambda>s. sl_valid c s \<and> sl_blk c s = b) ys)"
    unfolding lookup_def by (rule lookup_chain [OF ys(1)])
  show ?thesis
  proof (cases "b \<in> sl_blk c ` valid_slots c")
    case True
    then obtain s where s: "s \<in> valid_slots c" "sl_blk c s = b" by blast
    then have "s \<in> set ys" using ys(2) by simp
    then obtain t where t: "find (\<lambda>s. sl_valid c s \<and> sl_blk c s = b) ys = Some t"
      using s by (cases "find (\<lambda>s. sl_valid c s \<and> sl_blk c s = b) ys") (auto simp: find_None_iff valid_slots_def)
    then have "t \<in> set ys" "sl_blk c t = b" by (auto simp: find_Some_iff)
    then have "t = s" using s ys(2) inj by (auto dest: inj_onD)
    with t have "find (\<lambda>s. sl_valid c s \<and> sl_blk c s = b) ys = Some s" by simp
    then show ?thesis using l find_slot [OF inj order_refl s(1)] s(2) by simp
  next
    case False
    then have "find (\<lambda>s. sl_valid c s \<and> sl_blk c s = b) ys = None" using ys(2) by (auto simp: find_None_iff)
    then show ?thesis using l find_no_slot [OF False] by simp
  qed
qed

subsection \<open>Writing back\<close>

text \<open>What stays the same for the clients of a cache.\<close>

definition same_geom :: "'d bcache \<Rightarrow> 'd bcache \<Rightarrow> bool" where
  "same_geom c c' \<longleftrightarrow> bc_block_size c' = bc_block_size c \<and> bc_spb c' = bc_spb c \<and> bc_nslots c' = bc_nslots c"

lemma flush_slot_frame:
  assumes "flush_slot dev s c = (ok, c')"
  shows "c' = c\<lparr>bc_dev := bc_dev c', sl_dirty := sl_dirty c', bc_stats := bc_stats c'\<rparr>"
    and "t \<noteq> s \<Longrightarrow> sl_dirty c' t = sl_dirty c t"
  using assms by (auto simp: flush_slot_def Let_def split: if_splits prod.splits)

lemma flush_slot_inv:
  assumes "dev_ok dev sec" "cache_inv sec c H" "valid_slots c \<subseteq> H" "s < unat (bc_nslots c)" "flush_slot dev s c = (ok, c')"
  shows "cache_inv sec c' H" "view sec c' = view sec c" "ok \<Longrightarrow> sl_valid c s \<Longrightarrow> \<not> sl_dirty c' s"
    "b \<noteq> sl_blk c s \<Longrightarrow> block_at sec (bc_spb c) (bc_dev c') b = block_at sec (bc_spb c) (bc_dev c) b"
proof -
  have len: "length (sl_data c s) = 512 * unat (bc_spb c)" using assms(2,4) by (auto simp: cache_inv_def)
  have inj: "inj_on (sl_blk c) H" using assms(2) by (simp add: cache_inv_def)
  obtain w d where w: "dev_write_block dev (sl_blk c s) (sl_data c s) c = (w, d)" by fastforce
  note blk = dev_write_block_ok [OF assms(1) w len]
  show "ok \<Longrightarrow> sl_valid c s \<Longrightarrow> \<not> sl_dirty c' s"
    using assms(5) w by (auto simp: flush_slot_def Let_def split: if_splits)
  show "b \<noteq> sl_blk c s \<Longrightarrow> block_at sec (bc_spb c) (bc_dev c') b = block_at sec (bc_spb c) (bc_dev c) b"
    using assms(5) w blk(1) by (auto simp: flush_slot_def Let_def split: if_splits)
  show "cache_inv sec c' H"
  proof (cases "sl_valid c s \<and> sl_dirty c s")
    case True
    note c' = flush_slot_frame [OF assms(5)]
    have d: "bc_dev c' = d" "\<not> sl_dirty c' s \<Longrightarrow> w" using assms(5) True w by (auto simp: flush_slot_def Let_def split: if_splits)
    have "sl_data c t = block_at sec (bc_spb c) d (sl_blk c t)"
      if t: "t < unat (bc_nslots c)" "sl_valid c t" "\<not> sl_dirty c' t" for t
    proof (cases "t = s")
      case True
      then show ?thesis using blk(2) d(2) t(3) by simp
    next
      case False
      then have "sl_blk c t \<noteq> sl_blk c s" using inj assms(3,4) t True by (auto simp: valid_slots_def dest: inj_onD)
      then show ?thesis using assms(2) t c'(2) False blk(1) by (simp add: cache_inv_def)
    qed
    then show ?thesis using assms(2) by (subst c'(1)) (simp add: cache_inv_def hashed_def d(1))
  next
    case False
    with assms(2,5) show ?thesis by (auto simp: flush_slot_def Let_def split: if_splits)
  qed
  show "view sec c' = view sec c"
  proof (cases "sl_valid c s \<and> sl_dirty c s")
    case True
    have d: "bc_dev c' = d" using assms(5) True w by (auto simp: flush_slot_def Let_def split: if_splits)
    have c': "sl_valid c' = sl_valid c" "sl_blk c' = sl_blk c" "sl_data c' = sl_data c" "bc_nslots c' = bc_nslots c"
      "bc_spb c' = bc_spb c" by (subst flush_slot_frame(1) [OF assms(5)], simp)+
    have inj': "inj_on (sl_blk c) (valid_slots c)" using inj assms(3) by (rule inj_on_subset)
    show ?thesis
    proof
      fix b
      show "view sec c' b = view sec c b"
      proof (cases "b \<in> sl_blk c ` valid_slots c")
        case True
        then obtain t where "t \<in> valid_slots c" "b = sl_blk c t" by blast
        then show ?thesis using find_slot [OF inj' order_refl] by (simp add: view_def c')
      next
        case False
        moreover have "s \<in> valid_slots c" using True assms(4) by (simp add: valid_slots_def)
        ultimately have "b \<noteq> sl_blk c s" by blast
        then show ?thesis using find_no_slot [OF False] blk(1) by (simp add: view_def c' d)
      qed
    qed
  next
    case False
    with assms(5) show ?thesis by (auto simp: flush_slot_def Let_def split: if_splits)
  qed
qed

subsection \<open>Taking a slot\<close>

lemma cache_inv_remove:
  assumes "cache_inv sec c H" "s \<in> H"
  obtains hn bu where "hash_remove s c = Some (c\<lparr>hash_next := hn, bc_buckets := bu\<rparr>)"
    "cache_inv sec (c\<lparr>hash_next := hn, bc_buckets := bu\<rparr>) (H - {s})"
proof -
  have "hashed c H" using assms(1) by (simp add: cache_inv_def)
  then obtain hn bu where r: "hash_remove s c = Some (c\<lparr>hash_next := hn, bc_buckets := bu\<rparr>)"
    "hashed (c\<lparr>hash_next := hn, bc_buckets := bu\<rparr>) (H - {s})"
    using assms(2) by (rule hashed_remove)
  have "cache_inv sec (c\<lparr>hash_next := hn, bc_buckets := bu\<rparr>) (H - {s})"
    using assms(1) r(2) by (auto simp: cache_inv_def intro: inj_on_subset)
  with r(1) that show thesis by blast
qed

lemma cache_inv_retag:
  assumes "cache_inv sec c H" "s \<notin> H"
  shows "cache_inv sec (c\<lparr>sl_valid := (sl_valid c)(s := False), sl_dirty := (sl_dirty c)(s := False), sl_blk := (sl_blk c)(s := b)\<rparr>) H"
proof -
  have "hashed (c\<lparr>sl_valid := (sl_valid c)(s := False), sl_dirty := (sl_dirty c)(s := False), sl_blk := (sl_blk c)(s := b)\<rparr>) H"
  proof -
    have "{t\<in>H. bucket_of nb (if t = s then b else sl_blk c t) = x} = {t\<in>H. bucket_of nb (sl_blk c t) = x}" for nb x
      using assms(2) by auto
    with assms(1) show ?thesis by (simp add: cache_inv_def hashed_def)
  qed
  moreover have "inj_on ((sl_blk c)(s := b)) H"
    using assms by (simp add: cache_inv_def inj_on_def)
  ultimately show ?thesis using assms(1) by (simp add: cache_inv_def)
qed

lemma cache_inv_insert:
  assumes "cache_inv sec c H" "s \<notin> H" "s < unat (bc_nslots c)" "sl_blk c s \<notin> sl_blk c ` H"
  shows "cache_inv sec (hash_insert s c) (insert s H)"
  using assms hashed_insert [of c H s] by (simp add: cache_inv_def) (simp add: hash_insert_def Let_def)

text \<open>Dropping a clean slot does not change what clients see.\<close>

lemma view_drop:
  assumes "cache_inv sec c H" "valid_slots c \<subseteq> H" "sl_valid c s \<Longrightarrow> \<not> sl_dirty c s" "s < unat (bc_nslots c)"
    and "sl_valid c' = (sl_valid c)(s := False)" "\<And>t. t \<noteq> s \<Longrightarrow> sl_blk c' t = sl_blk c t" "\<And>t. t \<noteq> s \<Longrightarrow> sl_data c' t = sl_data c t"
    and "bc_nslots c' = bc_nslots c" "bc_spb c' = bc_spb c" "sec (bc_dev c') = sec (bc_dev c)"
  shows "view sec c' = view sec c" "valid_slots c' = valid_slots c - {s}"
proof -
  note dev = block_at_cong [of sec, OF assms(10)]
  show vs: "valid_slots c' = valid_slots c - {s}" using assms(5,8) by (auto simp: valid_slots_def)
  have inj: "inj_on (sl_blk c) (valid_slots c)" using assms(1,2) by (auto simp: cache_inv_def intro: inj_on_subset)
  have inj': "inj_on (sl_blk c') (valid_slots c')"
    using inj assms(6) vs by (auto simp: inj_on_def)
  have clean: "sl_data c s = block_at sec (bc_spb c) (bc_dev c) (sl_blk c s)" if "s \<in> valid_slots c"
    using assms(1,3,4) that by (auto simp: cache_inv_def valid_slots_def)
  show "view sec c' = view sec c"
  proof
    fix b
    consider (kept) t where "t \<in> valid_slots c" "t \<noteq> s" "b = sl_blk c t" | (dropped) "s \<in> valid_slots c" "b = sl_blk c s"
      | (absent) "b \<notin> sl_blk c ` valid_slots c" by blast
    then show "view sec c' b = view sec c b"
    proof cases
      case kept
      then have "view sec c' (sl_blk c' t) = sl_data c' t" using vs by (intro view_eq(1) [OF inj']) simp
      with kept view_eq(1) [OF inj kept(1)] assms(6,7) show ?thesis by simp
    next
      case dropped
      have "b \<notin> sl_blk c' ` valid_slots c'"
        using dropped inj assms(6) vs by (auto dest: inj_onD)
      then show ?thesis using view_eq(2) [OF inj'] view_eq(1) [OF inj dropped(1)] clean dropped assms(9) dev by simp
    next
      case absent
      then have "b \<notin> sl_blk c' ` valid_slots c'" using assms(6) vs by auto
      then show ?thesis using view_eq(2) [OF inj'] view_eq(2) [OF inj absent] assms(9) dev by simp
    qed
  qed
qed

definition retag :: "nat \<Rightarrow> u32 \<Rightarrow> 'd bcache \<Rightarrow> 'd bcache" where
  "retag s b c = c\<lparr>sl_valid := (sl_valid c)(s := False), sl_dirty := (sl_dirty c)(s := False), sl_blk := (sl_blk c)(s := b)\<rparr>"

lemma evict_ok:
  assumes "dev_ok dev sec" "writes_ok dev" "cache_ok sec c" "s < unat (bc_nslots c)"
  obtains c1 where "(if sl_valid c s then let (ok, c) = flush_slot dev s c in map_option count_eviction (hash_remove s c) else Some c) = Some c1"
    "cache_inv sec c1 (valid_slots c - {s})" "same_geom c c1" "sl_valid c1 = sl_valid c" "sl_blk c1 = sl_blk c"
    "view sec (retag s b c1) = view sec c"
proof -
  have inv: "cache_inv sec c (valid_slots c)" using assms(3) by (simp add: cache_ok_def)
  show thesis
  proof (cases "sl_valid c s")
    case True
    obtain ok c0 where f: "flush_slot dev s c = (ok, c0)" by fastforce
    have ok using assms(2) f
      by (auto simp: flush_slot_def writes_ok_def dev_write_block_def Let_def split: if_splits prod.splits) (metis fst_conv)
    note fi = flush_slot_inv [OF assms(1) inv order_refl assms(4) f]
    have fr: "sl_valid c0 = sl_valid c" "sl_blk c0 = sl_blk c" "sl_data c0 = sl_data c" "same_geom c c0"
      by (subst flush_slot_frame(1) [OF f], simp add: same_geom_def)+
    then have vs: "valid_slots c0 = valid_slots c" by (simp add: valid_slots_def same_geom_def)
    have sv: "s \<in> valid_slots c" using True assms(4) by (simp add: valid_slots_def)
    obtain hn bu where r: "hash_remove s c0 = Some (c0\<lparr>hash_next := hn, bc_buckets := bu\<rparr>)"
      "cache_inv sec (c0\<lparr>hash_next := hn, bc_buckets := bu\<rparr>) (valid_slots c - {s})"
      using cache_inv_remove [OF fi(1) sv] by blast
    let ?c1 = "count_eviction (c0\<lparr>hash_next := hn, bc_buckets := bu\<rparr>)"
    have "view sec (retag s b ?c1) = view sec c0"
      by (rule view_drop(1) [OF fi(1)]) (use vs fi(3) \<open>ok\<close> True assms(4) fr in \<open>auto simp: retag_def count_eviction_def same_geom_def\<close>)
    then show thesis using True f r fr fi(2)
      by (intro that [of ?c1]) (auto simp: count_eviction_def same_geom_def)
  next
    case False
    then have v: "valid_slots c - {s} = valid_slots c" by (auto simp: valid_slots_def)
    have "view sec (retag s b c) = view sec c"
      by (rule view_drop(1) [OF inv order_refl]) (use False assms(4) in \<open>auto simp: retag_def\<close>)
    with v inv False show thesis by (intro that [of c]) (simp_all add: same_geom_def)
  qed
qed

lemma lru_tail_Some:
  assumes "cache_ok sec c"
  obtains t where "lru_tail c = Some t" "t < unat (bc_nslots c)"
proof -
  obtain xs where xs: "lru_list c xs" "set xs = {0..<unat (bc_nslots c)}" "0 < unat (bc_nslots c)"
    using assms by (auto simp: cache_ok_def cache_inv_def)
  then have "xs \<noteq> []" by auto
  then show thesis using dll_tail [OF xs(1)] xs(2) last_in_set [of xs] that [of "last xs"] by simp
qed

lemma claim_ok:
  assumes "dev_ok dev sec" "writes_ok dev" "cache_ok sec c" "b \<notin> sl_blk c ` valid_slots c"
  obtains s c' where "claim dev b c = Some (s, c')" "s < unat (bc_nslots c)" "cache_inv sec c' (insert s (valid_slots c'))"
    "s \<notin> valid_slots c'" "sl_blk c' s = b" "\<not> sl_dirty c' s" "view sec c' = view sec c" "same_geom c c'"
    "b \<notin> sl_blk c' ` valid_slots c'"
proof -
  obtain s where tail: "lru_tail c = Some s" and s: "s < unat (bc_nslots c)" using lru_tail_Some [OF assms(3)] .
  obtain c1 where c1: "(if sl_valid c s then let (ok, c) = flush_slot dev s c in map_option count_eviction (hash_remove s c) else Some c) = Some c1"
    "cache_inv sec c1 (valid_slots c - {s})" "same_geom c c1" "sl_valid c1 = sl_valid c" "sl_blk c1 = sl_blk c"
    "view sec (retag s b c1) = view sec c"
    using evict_ok [OF assms(1,2,3) s] by blast
  define c2 where "c2 = retag s b c1"
  define c3 where "c3 = lru_touch s (hash_insert s c2)"
  have i2: "cache_inv sec c2 (valid_slots c - {s})"
    unfolding c2_def retag_def by (rule cache_inv_retag [OF c1(2)]) simp
  have geom: "bc_nslots c3 = bc_nslots c" "same_geom c c3"
    using c1(3) by (simp_all add: c3_def c2_def retag_def hash_insert_def Let_def same_geom_def)
  have v3: "valid_slots c3 = valid_slots c - {s}"
    using geom c1(4) by (auto simp: valid_slots_def c3_def c2_def retag_def hash_insert_def Let_def)
  have "sl_blk c2 s \<notin> sl_blk c2 ` (valid_slots c - {s})" using assms(4) c1(5) by (auto simp: c2_def retag_def)
  then have "cache_inv sec (hash_insert s c2) (insert s (valid_slots c - {s}))"
    using s c1(3) by (intro cache_inv_insert [OF i2]) (simp_all add: c2_def retag_def same_geom_def)
  then have i3: "cache_inv sec c3 (insert s (valid_slots c3))"
    unfolding c3_def v3 [unfolded c3_def] using s c1(3)
    by (intro cache_inv_lru) (simp_all add: hash_insert_def Let_def c2_def retag_def same_geom_def)
  have "view sec c3 = view sec c2" by (rule view_frame) (simp_all add: c3_def hash_insert_def Let_def)
  with c1(6) have "view sec c3 = view sec c" by (simp add: c2_def)
  moreover have "claim dev b c = Some (s, c3)"
    using tail c1(1) by (simp add: claim_def c3_def c2_def retag_def)
  moreover have "sl_blk c3 s = b" "\<not> sl_dirty c3 s" by (simp_all add: c3_def c2_def retag_def hash_insert_def Let_def)
  moreover have "b \<notin> sl_blk c3 ` valid_slots c3"
    using assms(4) c1(5) v3 by (auto simp: c3_def c2_def retag_def hash_insert_def Let_def)
  ultimately show thesis using that s i3 v3 geom by simp
qed

text \<open>Giving a slot contents changes the view at its block.\<close>

lemma view_set:
  assumes "inj_on (sl_blk c) (insert s (valid_slots c))" "s < unat (bc_nslots c)"
    and "sl_valid c' = (sl_valid c)(s := True)" "sl_blk c' = sl_blk c" "\<And>t. t \<noteq> s \<Longrightarrow> sl_data c' t = sl_data c t"
    and "bc_nslots c' = bc_nslots c" "bc_spb c' = bc_spb c" "sec (bc_dev c') = sec (bc_dev c)"
  shows "view sec c' = (view sec c)(sl_blk c s := sl_data c' s)" "valid_slots c' = insert s (valid_slots c)"
proof -
  show vs: "valid_slots c' = insert s (valid_slots c)" using assms(2,3,6) by (auto simp: valid_slots_def)
  have inj: "inj_on (sl_blk c) (valid_slots c)" using assms(1) by (rule inj_on_subset) auto
  have inj': "inj_on (sl_blk c') (valid_slots c')" using assms(1,4) vs by simp
  note dev = block_at_cong [of sec, OF assms(8)]
  show "view sec c' = (view sec c)(sl_blk c s := sl_data c' s)"
  proof
    fix b
    consider (self) "b = sl_blk c s" | (other) t where "t \<in> valid_slots c" "b = sl_blk c t" "b \<noteq> sl_blk c s"
      | (absent) "b \<notin> sl_blk c ` valid_slots c" "b \<noteq> sl_blk c s" by blast
    then show "view sec c' b = ((view sec c)(sl_blk c s := sl_data c' s)) b"
    proof cases
      case self
      then show ?thesis using view_eq(1) [OF inj', of s] vs assms(4) by simp
    next
      case other
      then have "t \<noteq> s" "t \<in> valid_slots c'" using vs by auto
      then show ?thesis using view_eq(1) [OF inj', of t] view_eq(1) [OF inj other(1)] other assms(4,5) by simp
    next
      case absent
      then have "b \<notin> sl_blk c' ` valid_slots c'" using vs assms(4) by auto
      then show ?thesis using view_eq(2) [OF inj'] view_eq(2) [OF inj absent(1)] absent(2) assms(7) dev by simp
    qed
  qed
qed

lemma cache_inv_data:
  assumes "cache_inv sec c H" "\<not> sl_valid c s \<or> sl_dirty c s" "length buf = unat (bc_block_size c)" "sec d = sec (bc_dev c)"
  shows "cache_inv sec (c\<lparr>bc_dev := d, sl_data := (sl_data c)(s := buf)\<rparr>) H"
  using assms(1,2,3) by (simp add: cache_inv_def hashed_def block_at_cong [of sec, OF assms(4)])

lemma lookup_None: "cache_ok sec c \<Longrightarrow> lookup c b = Some None \<longleftrightarrow> b \<notin> sl_blk c ` valid_slots c"
  by (auto simp: lookup_view find_upt_None valid_slots_def)

lemma lookup_Some: "cache_ok sec c \<Longrightarrow> lookup c b = Some (Some s) \<Longrightarrow> s \<in> valid_slots c \<and> sl_blk c s = b"
  by (auto simp: lookup_view find_upt_Some valid_slots_def)

lemma cache_ok_touch:
  assumes "cache_ok sec c" "s < unat (bc_nslots c)"
  shows "cache_ok sec (lru_touch s c)" "view sec (lru_touch s c) = view sec c" "valid_slots (lru_touch s c) = valid_slots c"
    "same_geom c (lru_touch s c)"
proof -
  show v: "valid_slots (lru_touch s c) = valid_slots c" by (simp add: valid_slots_def)
  show "cache_ok sec (lru_touch s c)" using assms cache_inv_lru unfolding cache_ok_def v by blast
  show "view sec (lru_touch s c) = view sec c" by (rule view_frame) simp_all
  show "same_geom c (lru_touch s c)" by (simp add: same_geom_def)
qed

lemma view_stats [simp]: "view sec (c\<lparr>bc_stats := st\<rparr>) = view sec c"
  by (rule view_frame) simp_all

lemma count_frame [simp]:
  "cache_ok sec (count_hit c) = cache_ok sec c" "cache_ok sec (count_miss c) = cache_ok sec c"
  "view sec (count_hit c) = view sec c" "view sec (count_miss c) = view sec c"
  "valid_slots (count_hit c) = valid_slots c" "valid_slots (count_miss c) = valid_slots c"
  "sl_blk (count_hit c) = sl_blk c" "sl_blk (count_miss c) = sl_blk c"
  "sl_data (count_hit c) = sl_data c" "bc_nslots (count_hit c) = bc_nslots c" "bc_block_size (count_hit c) = bc_block_size c"
  "bc_nslots (count_miss c) = bc_nslots c" "bc_block_size (count_miss c) = bc_block_size c" "bc_spb (count_miss c) = bc_spb c"
  "same_geom (count_hit c) c' = same_geom c c'" "same_geom (count_miss c) c' = same_geom c c'"
  by (simp_all add: count_hit_def count_miss_def cache_ok_def valid_slots_def same_geom_def)

lemma same_geom_trans: "same_geom a b \<Longrightarrow> same_geom b c \<Longrightarrow> same_geom a c"
  by (simp add: same_geom_def)

lemma fill_ok:
  assumes "dev_ok dev sec" "writes_ok dev" "cache_ok sec c"
  obtains r c' where "fill dev b c = Some (r, c')" "cache_ok sec c'" "view sec c' = view sec c" "same_geom c c'"
    "\<And>s. r = Some s \<Longrightarrow> s \<in> valid_slots c' \<and> sl_blk c' s = b"
proof (cases "b \<in> sl_blk c ` valid_slots c")
  case True
  then obtain s where l: "lookup c b = Some (Some s)"
    using lookup_None [OF assms(3), of b] lookup_view [OF assms(3), of b] by (metis option.exhaust)
  note s = lookup_Some [OF assms(3) l]
  then have n: "s < unat (bc_nslots c)" by (simp add: valid_slots_def)
  show ?thesis
    using l s cache_ok_touch [of sec "count_hit c" s] assms(3) n by (intro that [of "Some s" "lru_touch s (count_hit c)"]) (simp_all add: fill_def)
next
  case False
  then have l: "lookup c b = Some None" using lookup_None [OF assms(3)] by simp
  obtain s c1 where c1: "claim dev b (count_miss c) = Some (s, c1)" "s < unat (bc_nslots (count_miss c))"
    "cache_inv sec c1 (insert s (valid_slots c1))" "s \<notin> valid_slots c1" "sl_blk c1 s = b" "\<not> sl_dirty c1 s"
    "view sec c1 = view sec (count_miss c)" "same_geom (count_miss c) c1" "b \<notin> sl_blk c1 ` valid_slots c1"
    using claim_ok [OF assms(1,2), of "count_miss c" b] assms(3) False by auto
  have n: "s < unat (bc_nslots c1)" using c1(2,8) by (simp add: same_geom_def)
  have nv: "\<not> sl_valid c1 s" using c1(4) n by (simp add: valid_slots_def)
  then have nf: "(sl_valid c1)(s := False) = sl_valid c1" by (auto simp: fun_eq_iff)
  obtain ok buf d where rd: "dev_read_block dev b c1 = (ok, buf, d)" by (cases "dev_read_block dev b c1") auto
  have "unat (bc_block_size c1) = 512 * unat (bc_spb c1)" using c1(3) by (simp add: cache_inv_def)
  note rb = dev_read_block_ok [OF assms(1) rd this]
  define c2 where "c2 = c1\<lparr>bc_dev := d, sl_data := (sl_data c1)(s := buf)\<rparr>"
  have i2: "cache_inv sec c2 (insert s (valid_slots c1))"
    unfolding c2_def using nv by (intro cache_inv_data [OF c1(3)] rb) simp
  have v2: "valid_slots c2 = valid_slots c1" by (simp add: c2_def valid_slots_def)
  have w2: "view sec c2 = view sec c1"
    by (rule view_drop(1) [OF c1(3)]) (use nv n rb(2) in \<open>auto simp: c2_def nf\<close>)
  have g2: "same_geom c c2" using c1(8) by (simp add: c2_def same_geom_def)
  show ?thesis
  proof (cases ok)
    case True
    define c3 where "c3 = c2\<lparr>sl_valid := (sl_valid c2)(s := True)\<rparr>"
    have inj: "inj_on (sl_blk c2) (insert s (valid_slots c2))" using i2 v2 by (simp add: cache_inv_def)
    note vs = view_set [OF inj, of c3 sec]
    have v3: "view sec c3 = (view sec c2)(b := buf)" "valid_slots c3 = insert s (valid_slots c1)"
      using vs n c1(5) v2 by (simp_all add: c3_def c2_def)
    have "view sec c2 b = buf"
      using view_eq(2) [of c1 b sec] c1(3,9) True rb(3) w2 by (simp add: cache_inv_def)
    then have "view sec c3 = view sec c" using v3(1) w2 c1(7) by auto
    moreover have "cache_inv sec c3 (insert s (valid_slots c1))"
      using i2 True rb(2,3) c1(5) block_at_cong [of sec, OF rb(2)] by (auto simp: c3_def c2_def cache_inv_def hashed_def)
    ultimately show ?thesis
      using l c1(1,5) rd True v3(2) g2
      by (intro that [of "Some s" c3]) (auto simp: fill_def Let_def c3_def c2_def cache_ok_def same_geom_def)
  next
    case False
    obtain hn bu where r: "hash_remove s c2 = Some (c2\<lparr>hash_next := hn, bc_buckets := bu\<rparr>)"
      "cache_inv sec (c2\<lparr>hash_next := hn, bc_buckets := bu\<rparr>) (insert s (valid_slots c1) - {s})"
      using cache_inv_remove [OF i2, of s] by blast
    define c3 where "c3 = c2\<lparr>hash_next := hn, bc_buckets := bu\<rparr>"
    define c4 where "c4 = c3\<lparr>sl_blk := (sl_blk c3)(s := 0)\<rparr>"
    have V: "insert s (valid_slots c1) - {s} = valid_slots c1" using c1(4) by simp
    have f: "(sl_valid c3)(s := False) = sl_valid c3" "(sl_dirty c3)(s := False) = sl_dirty c3"
      using nv c1(6) by (auto simp: c3_def c2_def fun_eq_iff)
    have "c4 = c3\<lparr>sl_valid := (sl_valid c3)(s := False), sl_dirty := (sl_dirty c3)(s := False), sl_blk := (sl_blk c3)(s := 0)\<rparr>"
      unfolding f by (simp add: c4_def)
    then have "cache_inv sec c4 (valid_slots c1)"
      using cache_inv_retag [of sec c3 "valid_slots c1" s 0] r(2) c1(4) V by (simp add: c3_def)
    moreover have "valid_slots c4 = valid_slots c1" by (simp add: c4_def c3_def c2_def valid_slots_def)
    moreover have "view sec c4 = view sec c2"
      by (rule view_drop(1) [OF i2]) (use nv n v2 in \<open>auto simp: c4_def c3_def c2_def nf\<close>)
    ultimately show ?thesis
      using l c1(1,7) rd False r(1) w2 g2
      by (intro that [of None c4]) (auto simp: fill_def Let_def c4_def c3_def c2_def cache_ok_def same_geom_def)
  qed
qed

subsection \<open>The operations\<close>

lemma readahead_loop_ok:
  assumes "dev_ok dev sec" "writes_ok dev"
  shows "cache_ok sec c \<Longrightarrow> \<exists>c'. readahead_loop dev tot b is c = Some c' \<and> cache_ok sec c' \<and> view sec c' = view sec c \<and> same_geom c c'"
proof (induction "is" arbitrary: c)
  case Nil
  then show ?case by (simp add: same_geom_def)
next
  case (Cons i "is")
  obtain r where l: "lookup c (b + of_nat i) = Some r" using lookup_view [OF Cons.prems] by blast
  obtain t where t: "lru_tail c = Some t" using lru_tail_Some [OF Cons.prems] by blast
  obtain f c1 where f: "fill dev (b + of_nat i) c = Some (f, c1)" "cache_ok sec c1" "view sec c1 = view sec c" "same_geom c c1"
    using fill_ok [OF assms Cons.prems] by blast
  have stop: "cache_ok sec c \<and> view sec c = view sec c \<and> same_geom c c" using Cons.prems by (simp add: same_geom_def)
  obtain c2 where c2: "readahead_loop dev tot b is c1 = Some c2" "cache_ok sec c2" "view sec c2 = view sec c" "same_geom c c2"
    using Cons.IH [OF f(2)] f(3,4) same_geom_trans by metis
  show ?case using l t f stop c2 Cons.IH [OF Cons.prems] by (auto simp: Let_def)
qed

lemma bcache_read_ok:
  assumes "dev_ok dev sec" "writes_ok dev" "cache_ok sec c"
  obtains r c' where "bcache_read dev b c = Some (r, c')" "cache_ok sec c'" "view sec c' = view sec c" "same_geom c c'"
    "\<And>buf. r = Some buf \<Longrightarrow> buf = view sec c b"
proof -
  have data: "take (unat (bc_block_size c')) (sl_data c' s) = view sec c' b"
    if "cache_ok sec c'" "s \<in> valid_slots c'" "sl_blk c' s = b" for c' s
    using that view_eq(1) [of c' s sec] by (auto simp: cache_ok_def cache_inv_def valid_slots_def)
  obtain r where l: "lookup c b = Some r" using lookup_view [OF assms(3)] by blast
  show ?thesis
  proof (cases r)
    case (Some s)
    then have s: "s \<in> valid_slots c" "sl_blk c s = b" using lookup_Some [OF assms(3)] l by blast+
    then have "s < unat (bc_nslots c)" by (simp add: valid_slots_def)
    then show ?thesis
      using l Some s data [OF assms(3) s] cache_ok_touch [of sec "count_hit c" s] assms(3)
      by (intro that [of "Some (view sec c b)" "lru_touch s (count_hit c)"]) (simp_all add: bcache_read_def)
  next
    case None
    obtain f c1 where f: "fill dev b c = Some (f, c1)" "cache_ok sec c1" "view sec c1 = view sec c" "same_geom c c1"
      "\<And>s. f = Some s \<Longrightarrow> s \<in> valid_slots c1 \<and> sl_blk c1 s = b"
      using fill_ok [OF assms] by blast
    show ?thesis
    proof (cases f)
      case (Some s)
      obtain c2 where "readahead dev b c1 = Some c2" "cache_ok sec c2" "view sec c2 = view sec c1" "same_geom c1 c2"
        using readahead_loop_ok [OF assms(1,2) f(2)] unfolding readahead_def by blast
      then show ?thesis
        using l None f Some data [OF f(2)] by (intro that [of "Some (view sec c b)" c2]) (auto simp: bcache_read_def Let_def same_geom_def)
    qed (use l None f in \<open>auto intro!: that [of None c1] simp: bcache_read_def\<close>)
  qed
qed

lemma cache_inv_write:
  assumes "cache_inv sec c H" "length buf = unat (bc_block_size c)"
  shows "cache_inv sec (c\<lparr>sl_data := (sl_data c)(s := buf), sl_dirty := (sl_dirty c)(s := True)\<rparr>) H"
  using assms by (simp add: cache_inv_def hashed_def)

lemma bcache_write_ok:
  assumes "dev_ok dev sec" "writes_ok dev" "cache_ok sec c" "length buf = unat (bc_block_size c)"
  obtains c' where "bcache_write dev b buf c = Some c'" "cache_ok sec c'" "view sec c' = (view sec c)(b := buf)" "same_geom c c'"
proof -
  note result = that
  have set: thesis
    if c1: "cache_inv sec c1 (insert s (valid_slots c1))" "s < unat (bc_nslots c1)" "sl_blk c1 s = b" "view sec c1 = view sec c" "same_geom c c1"
      and w: "bcache_write dev b buf c = Some (c1\<lparr>sl_valid := (sl_valid c1)(s := True), sl_data := (sl_data c1)(s := buf),
        sl_dirty := (sl_dirty c1)(s := True)\<rparr>)" for c1 s
  proof -
    define c2 where "c2 = c1\<lparr>sl_valid := (sl_valid c1)(s := True), sl_data := (sl_data c1)(s := buf), sl_dirty := (sl_dirty c1)(s := True)\<rparr>"
    have inj: "inj_on (sl_blk c1) (insert s (valid_slots c1))" using c1(1) by (simp add: cache_inv_def)
    have v: "view sec c2 = (view sec c1)(b := buf)" "valid_slots c2 = insert s (valid_slots c1)"
      using view_set [OF inj c1(2), of c2 sec] c1(3) by (simp_all add: c2_def)
    have "cache_inv sec c2 (insert s (valid_slots c1))"
      using cache_inv_write [OF c1(1), of buf s] assms(4) c1(5) by (auto simp: c2_def cache_inv_def hashed_def same_geom_def)
    then show thesis using w v c1(4,5) by (intro result [of c2]) (auto simp: c2_def cache_ok_def same_geom_def)
  qed
  obtain r where l: "lookup c b = Some r" using lookup_view [OF assms(3)] by blast
  show thesis
  proof (cases r)
    case (Some s)
    then have s: "s \<in> valid_slots c" "sl_blk c s = b" using lookup_Some [OF assms(3)] l by blast+
    then have n: "s < unat (bc_nslots c)" "sl_valid c s" by (simp_all add: valid_slots_def)
    note t = cache_ok_touch [OF assms(3) n(1)]
    have vt: "(sl_valid c)(s := True) = sl_valid c" using n(2) by (auto simp: fun_eq_iff)
    show thesis
      by (rule set [of "lru_touch s c" s])
        (use t s n l Some assms(4) in \<open>simp_all add: cache_ok_def insert_absorb bcache_write_def vt\<close>)
  next
    case None
    then have "b \<notin> sl_blk c ` valid_slots c" using lookup_None [OF assms(3)] l by blast
    from claim_ok [OF assms(1-3) this] obtain s c1 where c1: "claim dev b c = Some (s, c1)" "s < unat (bc_nslots c)"
      "cache_inv sec c1 (insert s (valid_slots c1))" "sl_blk c1 s = b" "view sec c1 = view sec c" "same_geom c c1" by blast
    show thesis
      by (rule set [OF c1(3) _ c1(4,5,6)]) (use c1 l None assms(4) in \<open>simp_all add: bcache_write_def same_geom_def\<close>)
  qed
qed

subsection \<open>The blocks in the cache\<close>

lemma length_view:
  assumes "dev_ok dev sec" "cache_ok sec c"
  shows "length (view sec c b) = unat (bc_block_size c)"
proof -
  have "length (block_at sec spb d b) = 512 * unat spb" for spb d
    using assms(1) by (simp add: dev_ok_def block_at_def length_concat comp_def sum_list_triv)
  then show ?thesis using assms(2) by (auto simp: view_def cache_ok_def cache_inv_def find_upt_Some split: option.split)
qed

end
