(* ===== verification/Bcache_Spec.thy ===== *)
theory Bcache_Spec
  imports Bcache_Inv
begin

text \<open>
  What the block cache promises to a file system. The contract is a locale over an array of blocks; the cache
  is shown to meet it, so a series of reads and writes behaves as on the array, whatever is evicted, read ahead
  or written back in between. A sync makes the device hold the array, and a cache starts with what the device
  holds.
\<close>

subsection \<open>Sync and forget\<close>

lemma sync_slots_ok:
  assumes "dev_ok dev sec"
  shows "cache_ok sec c \<Longrightarrow> set is \<subseteq> {0..<unat (bc_nslots c)} \<Longrightarrow> sync_slots dev is ok c = (r, c') \<Longrightarrow>
    cache_ok sec c' \<and> view sec c' = view sec c \<and> same_geom c c' \<and> sl_valid c' = sl_valid c \<and> (\<forall>t. sl_dirty c' t \<longrightarrow> sl_dirty c t) \<and>
    (r \<longrightarrow> ok \<and> (\<forall>i\<in>set is. sl_valid c i \<longrightarrow> \<not> sl_dirty c' i)) \<and> (writes_ok dev \<longrightarrow> r = ok)"
proof (induction "is" arbitrary: ok c)
  case Nil
  then show ?case by (simp add: same_geom_def)
next
  case (Cons i "is")
  obtain w c1 where f: "flush_slot dev i c = (w, c1)" by fastforce
  have i: "i < unat (bc_nslots c)" using Cons.prems(2) by simp
  have inv: "cache_inv sec c (valid_slots c)" using Cons.prems(1) by (simp add: cache_ok_def)
  note fi = flush_slot_inv [OF assms inv order_refl i f]
  have fr: "sl_valid c1 = sl_valid c" "same_geom c c1" by (subst flush_slot_frame(1) [OF f], simp add: same_geom_def)+
  have d1: "\<forall>t. sl_dirty c1 t \<longrightarrow> sl_dirty c t"
    using f by (auto simp: flush_slot_def Let_def split: if_splits prod.splits)
  have "valid_slots c1 = valid_slots c" using fr by (simp add: valid_slots_def same_geom_def)
  then have ok1: "cache_ok sec c1" using fi(1) by (simp add: cache_ok_def)
  have w: "writes_ok dev \<Longrightarrow> w"
    using f by (auto simp: flush_slot_def writes_ok_def dev_write_block_def Let_def split: if_splits prod.splits) (metis fst_conv)
  have s: "sync_slots dev is (if \<not> w then False else ok) c1 = (r, c')" using Cons.prems(3) f by simp
  have sub: "set is \<subseteq> {0..<unat (bc_nslots c1)}" using Cons.prems(2) fr(2) by (simp add: same_geom_def)
  show ?case using Cons.IH [OF ok1 sub s] fi(2,3) fr d1 w by (auto simp: same_geom_def split: if_splits)
qed

lemma bcache_sync_ok:
  assumes "dev_ok dev sec" "cache_ok sec c" "bcache_sync dev c = (r, c')"
  shows "cache_ok sec c'" "view sec c' = view sec c" "same_geom c c'" "writes_ok dev \<Longrightarrow> r"
    "r \<Longrightarrow> block_at sec (bc_spb c) (bc_dev c') b = view sec c b"
proof -
  note s = sync_slots_ok [OF assms(1,2) _ assms(3) [unfolded bcache_sync_def]]
  then show ok: "cache_ok sec c'" and v: "view sec c' = view sec c" and g: "same_geom c c'" and "writes_ok dev \<Longrightarrow> r" by auto
  have inv: "cache_inv sec c' (valid_slots c')" using ok by (simp add: cache_ok_def)
  then have inj: "inj_on (sl_blk c') (valid_slots c')" by (simp add: cache_inv_def)
  assume r
  then have clean: "\<not> sl_dirty c' t" if "t \<in> valid_slots c'" for t
    using that s g by (auto simp: valid_slots_def same_geom_def)
  show "block_at sec (bc_spb c) (bc_dev c') b = view sec c b"
  proof (cases "b \<in> sl_blk c' ` valid_slots c'")
    case True
    then obtain t where t: "t \<in> valid_slots c'" "b = sl_blk c' t" by blast
    then have "sl_data c' t = block_at sec (bc_spb c') (bc_dev c') (sl_blk c' t)"
      using inv clean by (auto simp: cache_inv_def valid_slots_def)
    then show ?thesis using view_eq(1) [OF inj t(1), of sec] t(2) v g by (simp add: same_geom_def)
  next
    case False
    then show ?thesis using view_eq(2) [OF inj False, of sec] v g by (simp add: same_geom_def)
  qed
qed

lemma bcache_forget_ok:
  assumes "dev_ok dev sec" "writes_ok dev" "cache_ok sec c"
  obtains c' where "bcache_forget dev b c = Some c'" "cache_ok sec c'" "view sec c' = view sec c" "same_geom c c'"
    "b \<notin> sl_blk c' ` valid_slots c'"
proof -
  obtain r where l: "lookup c b = Some r" using lookup_view [OF assms(3)] by blast
  show thesis
  proof (cases r)
    case None
    then have "b \<notin> sl_blk c ` valid_slots c" using l lookup_None [OF assms(3)] by blast
    moreover have "bcache_forget dev b c = Some c" using l None by (simp add: bcache_forget_def)
    ultimately show ?thesis using assms(3) by (intro that [of c]) (simp_all add: same_geom_def)
  next
    case (Some s)
    then have s: "s \<in> valid_slots c" "sl_blk c s = b" using lookup_Some [OF assms(3)] l by blast+
    then have n: "s < unat (bc_nslots c)" "sl_valid c s" by (simp_all add: valid_slots_def)
    obtain c1 where c1: "(if sl_valid c s then let (ok, c) = flush_slot dev s c in map_option count_eviction (hash_remove s c) else Some c) = Some c1"
      "cache_inv sec c1 (valid_slots c - {s})" "same_geom c c1" "sl_valid c1 = sl_valid c" "sl_blk c1 = sl_blk c"
      "view sec (retag s b c1) = view sec c"
      using evict_ok [OF assms(1-3) n(1)] by blast
    then obtain c0 where c0: "(let (ok, c) = flush_slot dev s c in hash_remove s c) = Some c0" "c1 = count_eviction c0"
      using n(2) by (auto split: prod.splits)
    define c2 where "c2 = retag s b c0"
    have c2': "c2 = c0\<lparr>sl_valid := (sl_valid c0)(s := False), sl_dirty := (sl_dirty c0)(s := False)\<rparr>"
      using c0(2) c1(5) s(2) by (simp add: c2_def retag_def count_eviction_def fun_upd_idem)
    have "cache_inv sec c0 (valid_slots c - {s})" using c1(2) by (simp add: c0(2) count_eviction_def)
    then have i2: "cache_inv sec c2 (valid_slots c - {s})" unfolding c2_def retag_def by (rule cache_inv_retag) simp
    then obtain xs where xs: "lru_list c2 xs" "set xs = {0..<unat (bc_nslots c2)}" by (auto simp: cache_inv_def)
    have g2: "same_geom c c2" using c1(3) c0(2) by (simp add: c2_def retag_def same_geom_def count_eviction_def)
    have "s \<in> set xs" using xs(2) n(1) g2 by (simp add: same_geom_def)
    then obtain as bs where sp: "xs = as @ s # bs" by (auto simp: in_set_conv_decomp)
    have "s \<notin> set (as @ bs)" "lru_list (lru_unlink s c2) (as @ bs)"
      using dll_distinct [OF xs(1)] lru_unlink_dll [of c2 as s bs] xs(1) sp by auto
    then have l3: "lru_list (lru_push_back s (lru_unlink s c2)) ((as @ bs) @ [s])" by (intro lru_push_back_dll)
    define c3 where "c3 = lru_push_back s (lru_unlink s c2)"
    have v3: "valid_slots c3 = valid_slots c - {s}"
      using c1(4) c0(2) g2 by (auto simp: c3_def c2_def retag_def valid_slots_def count_eviction_def same_geom_def)
    have "cache_inv sec c3 (valid_slots c - {s})"
      using i2 l3 xs(2) sp unfolding cache_inv_def c3_def by (intro conjI exI [of _ "(as @ bs) @ [s]"]) (auto simp: hashed_def)
    moreover have "view sec c3 = view sec (retag s b c1)"
      by (rule view_frame) (simp_all add: c3_def c2_def c0(2) retag_def count_eviction_def)
    moreover have "b \<notin> sl_blk c3 ` valid_slots c3"
    proof -
      have "inj_on (sl_blk c) (valid_slots c)" using assms(3) by (simp add: cache_ok_def cache_inv_def)
      then have "b \<notin> sl_blk c ` (valid_slots c - {s})" using s by (auto dest: inj_onD)
      then show ?thesis using v3 c1(5) c0(2) by (auto simp: c3_def c2_def retag_def count_eviction_def)
    qed
    moreover have "bcache_forget dev b c = Some c3"
      using l Some c0(1) by (auto simp: bcache_forget_def c3_def c2' Let_def split: prod.splits)
    moreover have "same_geom c c3" using g2 by (simp add: c3_def same_geom_def)
    ultimately show thesis using c1(6) v3 by (intro that [of c3]) (simp_all add: cache_ok_def)
  qed
qed

subsection \<open>Runs of blocks\<close>

lemma concat_blocks:
  "unat (b :: u32) + n \<le> 2 ^ 32 \<Longrightarrow>
   concat (map (\<lambda>i. block_at sec spb d (b + of_nat i)) [0..<n]) = concat (map (sec d) [unat b * unat spb..<unat b * unat spb + n * unat spb])"
proof (induction n)
  case (Suc n)
  have "unat (b + of_nat n) = unat b + n"
  proof -
    have "unat (of_nat n :: u32) = n" using Suc.prems by (intro unat_of_nat_small) simp
    then show ?thesis using Suc.prems by (subst unat_add_small) simp_all
  qed
  then have "block_at sec spb d (b + of_nat n) =
      concat (map (sec d) [unat b * unat spb + n * unat spb..<unat b * unat spb + n * unat spb + unat spb])"
    by (simp add: block_at_def add_mult_distrib)
  moreover have "[unat b * unat spb..<unat b * unat spb + Suc n * unat spb] =
      [unat b * unat spb..<unat b * unat spb + n * unat spb] @
      [unat b * unat spb + n * unat spb..<unat b * unat spb + n * unat spb + unat spb]"
    using upt_add_eq_append [of "unat b * unat spb" "unat b * unat spb + n * unat spb" "unat spb"] by (simp add: algebra_simps)
  ultimately show ?case using Suc by simp
qed simp

lemma any_resident_ok:
  "cache_ok sec c \<Longrightarrow> any_resident c bs = Some (\<exists>b\<in>set bs. b \<in> sl_blk c ` valid_slots c)"
proof (induction bs)
  case (Cons b bs)
  obtain r where l: "lookup c b = Some r" using lookup_view [OF Cons.prems] by blast
  show ?case
  proof (cases r)
    case None
    with l have "b \<notin> sl_blk c ` valid_slots c" using lookup_None [OF Cons.prems, of b] by simp
    with None l Cons show ?thesis by simp
  next
    case (Some s)
    with l have "b \<in> sl_blk c ` valid_slots c" using lookup_Some [OF Cons.prems, of b s] by auto
    with Some l show ?thesis by simp
  qed
qed simp

lemma read_blocks_ok:
  assumes "dev_ok dev sec" "writes_ok dev"
  shows "cache_ok sec c \<Longrightarrow> length p = length bs * unat (bc_block_size c) \<Longrightarrow>
    \<exists>ok q c'. read_blocks dev bs p c = Some (ok, q, c') \<and> cache_ok sec c' \<and> view sec c' = view sec c \<and>
    same_geom c c' \<and> length q = length p \<and> (ok \<longrightarrow> q = concat (map (view sec c) bs))"
proof (induction bs arbitrary: c p)
  case (Cons b bs)
  obtain r c1 where r: "bcache_read dev b c = Some (r, c1)" "cache_ok sec c1" "view sec c1 = view sec c" "same_geom c c1"
    "\<And>buf. r = Some buf \<Longrightarrow> buf = view sec c b"
    using bcache_read_ok [OF assms Cons.prems(1)] by blast
  have n: "length (view sec c b) = unat (bc_block_size c)" by (rule length_view [OF assms(1) Cons.prems(1)])
  obtain ok q c2 where q: "read_blocks dev bs (drop (length (view sec c b)) p) c1 = Some (ok, q, c2)" "cache_ok sec c2"
    "view sec c2 = view sec c1" "same_geom c1 c2" "length q = length (drop (length (view sec c b)) p)"
    "ok \<longrightarrow> q = concat (map (view sec c1) bs)"
    using Cons.IH [OF r(2), of "drop (length (view sec c b)) p"] Cons.prems(2) n r(4) by (auto simp: same_geom_def)
  show ?case using r q n Cons.prems(2) same_geom_trans [OF r(4) q(4)] by (cases r) auto
qed (auto simp: same_geom_def)

lemma bcache_read_run_ok:
  assumes "dev_ok dev sec" "writes_ok dev" "cache_ok sec c"
    and "unat b + unat n \<le> 2 ^ 32" "unat n * unat (bc_block_size c) < 2 ^ 32" "length p = unat n * unat (bc_block_size c)"
  shows "\<exists>ok q c'. bcache_read_run dev b n p c = Some (ok, q, c') \<and> cache_ok sec c' \<and> view sec c' = view sec c \<and> same_geom c c' \<and>
    length q = length p \<and> (ok \<longrightarrow> q = concat (map (\<lambda>i. view sec c (b + of_nat i)) [0..<unat n]))"
proof (cases "n = 0")
  case True
  with assms(3,6) show ?thesis by (auto simp: bcache_read_run_def same_geom_def)
next
  case False
  define bs where "bs = map (\<lambda>i. b + of_nat i) [0..<unat n]"
  have sz: "unat (bc_block_size c) = 512 * unat (bc_spb c)" using assms(3) by (simp add: cache_ok_def cache_inv_def)
  show ?thesis
  proof (cases "\<exists>x\<in>set bs. x \<in> sl_blk c ` valid_slots c")
    case True
    then have "bcache_read_run dev b n p c = read_blocks dev bs p c"
      using False any_resident_ok [OF assms(3), of bs] by (simp add: bcache_read_run_def flip: bs_def)
    then show ?thesis using read_blocks_ok [OF assms(1-3), of p bs] assms(6) by (simp add: bs_def comp_def)
  next
    case none: False
    obtain ok buf d where r: "bd_read dev (ucast b * ucast (bc_spb c)) (n * bc_spb c) (bc_dev c) = (ok, buf, d)"
      by (metis prod.exhaust)
    note dr = dev_ok_read [OF assms(1) r]
    have inj: "inj_on (sl_blk c) (valid_slots c)" using assms(3) by (simp add: cache_ok_def cache_inv_def)
    have "view sec c (b + of_nat i) = block_at sec (bc_spb c) (bc_dev c) (b + of_nat i)" if "i < unat n" for i
      using none that by (intro view_eq(2) [OF inj]) (auto simp: bs_def)
    then have v: "concat (map (\<lambda>i. view sec c (b + of_nat i)) [0..<unat n]) =
        concat (map (\<lambda>i. block_at sec (bc_spb c) (bc_dev c) (b + of_nat i)) [0..<unat n])"
      by (intro arg_cong [of _ _ concat] map_cong) simp_all
    have u: "unat (n * bc_spb c) = unat n * unat (bc_spb c)" using assms(5) sz by (intro unat_mult_small) simp
    with dr(3) have "ok \<Longrightarrow> buf = concat (map (\<lambda>i. view sec c (b + of_nat i)) [0..<unat n])"
      unfolding v concat_blocks [OF assms(4)] by (simp only: unat_lba)
    moreover have "length buf = length p" using dr(1) u sz assms(6) by simp
    moreover have "bcache_read_run dev b n p c = Some (ok, buf @ drop (length buf) p, c\<lparr>bc_dev := d\<rparr>)"
      using False none any_resident_ok [OF assms(3), of bs] r by (simp add: bcache_read_run_def flip: bs_def)
    moreover have "cache_ok sec (c\<lparr>bc_dev := d\<rparr>)"
      using assms(3) by (simp add: cache_ok_def cache_inv_def hashed_def valid_slots_def block_at_cong [of sec, OF dr(2)])
    moreover have "view sec (c\<lparr>bc_dev := d\<rparr>) = view sec c" by (rule view_frame) (simp_all add: dr(2))
    ultimately show ?thesis by (auto simp: same_geom_def)
  qed
qed

subsection \<open>A new cache\<close>

lemma round_up_ok:
  "k \<le> 31 \<Longrightarrow> unat nslots \<le> 2 ^ 31 \<Longrightarrow> \<exists>j\<le>31. round_up nslots (2 ^ k) = Some (2 ^ j) \<and> unat nslots \<le> 2 ^ j"
proof (induction "31 - k" arbitrary: k)
  case 0
  then have k: "k = 31" by simp
  have "unat (2 ^ 31 :: u32) = 2 ^ 31" by simp
  then have "\<not> 2 ^ 31 < nslots" using 0 by (simp add: word_less_nat_alt)
  then show ?case using 0 k by (subst round_up.simps) (auto intro!: exI [of _ 31])
next
  case (Suc m)
  have "(2 :: nat) ^ k < 2 ^ 32" using Suc by (intro power_strict_increasing) simp_all
  then have u: "unat (2 ^ k :: u32) = 2 ^ k" using unat_of_nat_small [of "2 ^ k", where ?'a = 32] by simp
  show ?case
  proof (cases "2 ^ k < nslots")
    case True
    have "\<exists>j\<le>31. round_up nslots (2 ^ Suc k) = Some (2 ^ j) \<and> unat nslots \<le> 2 ^ j" using Suc by (intro Suc.hyps(1)) auto
    moreover have "push_bit 1 (2 ^ k :: u32) = 2 ^ Suc k" by (simp add: push_bit_eq_mult mult.commute)
    ultimately show ?thesis using True by (subst round_up.simps) (simp add: mult.commute)
  next
    case False
    then show ?thesis using Suc u by (subst round_up.simps) (auto simp: word_less_nat_alt not_less intro!: exI [of _ k])
  qed
qed

lemma seed_slots_ok:
  "lru_list c xs \<Longrightarrow> distinct is \<Longrightarrow> set is \<inter> set xs = {} \<Longrightarrow> seed_slots is c = (bl, c') \<Longrightarrow>
   bl = map Bc_data is \<and> lru_list c' (rev is @ xs) \<and> same_geom c c' \<and> bc_nbuckets c' = bc_nbuckets c \<and> bc_dev c' = bc_dev c \<and>
   hash_next c' = hash_next c \<and> bc_buckets c' = bc_buckets c \<and> sl_blk c' = sl_blk c \<and>
   (\<forall>s. sl_valid c' s \<longrightarrow> sl_valid c s) \<and> (\<forall>s\<in>set is. length (sl_data c' s) = unat (bc_block_size c)) \<and>
   (\<forall>s. s \<notin> set is \<longrightarrow> sl_data c' s = sl_data c s)"
proof (induction "is" arbitrary: c xs bl)
  case (Cons i "is")
  define c1 where "c1 = c\<lparr>sl_data := (sl_data c)(i := replicate (unat (bc_block_size c)) 0), sl_valid := (sl_valid c)(i := False),
        sl_dirty := (sl_dirty c)(i := False)\<rparr>"
  define c2 where "c2 = lru_push_front i c1"
  obtain bs where bs: "seed_slots is c2 = (bs, c')" "bl = Bc_data i # bs"
    using Cons.prems(4) by (auto simp: c1_def c2_def Let_def split: prod.splits)
  have "lru_list c1 xs" using Cons.prems(1) by (simp add: c1_def)
  then have l2: "lru_list c2 (i # xs)" using Cons.prems(3) unfolding c2_def by (intro lru_push_front_dll) auto
  have fr: "same_geom c c2" "bc_nbuckets c2 = bc_nbuckets c" "bc_dev c2 = bc_dev c" "hash_next c2 = hash_next c"
    "bc_buckets c2 = bc_buckets c" "sl_blk c2 = sl_blk c" "\<forall>s. sl_valid c2 s \<longrightarrow> sl_valid c s"
    "sl_data c2 = (sl_data c)(i := replicate (unat (bc_block_size c)) 0)"
    by (auto simp: c2_def c1_def same_geom_def)
  have IH: "bs = map Bc_data is \<and> lru_list c' (rev is @ i # xs) \<and> same_geom c2 c' \<and> bc_nbuckets c' = bc_nbuckets c2 \<and> bc_dev c' = bc_dev c2 \<and>
   hash_next c' = hash_next c2 \<and> bc_buckets c' = bc_buckets c2 \<and> sl_blk c' = sl_blk c2 \<and>
   (\<forall>s. sl_valid c' s \<longrightarrow> sl_valid c2 s) \<and> (\<forall>s\<in>set is. length (sl_data c' s) = unat (bc_block_size c2)) \<and>
   (\<forall>s. s \<notin> set is \<longrightarrow> sl_data c' s = sl_data c2 s)"
    using Cons.prems(2,3) by (intro Cons.IH [OF l2 _ _ bs(1)]) auto
  then show ?case using fr bs(2) Cons.prems(2) by (auto simp: same_geom_def)
qed (simp add: same_geom_def)

lemma bcache_create_ok:
  assumes "bs \<noteq> 0" "bs mod 512 = 0" "n \<noteq> 0" "unat n \<le> 2 ^ 31"
  obtains bl c where "bcache_create bs n d = Some (Some (bl, c))" "cache_ok sec c" "view sec c = block_at sec (bs div 512) d"
    "bc_block_size c = bs" "bc_spb c = bs div 512" "bc_nslots c = n" "bl = [Bc_self, Bc_slots, Bc_buckets] @ map Bc_data [0..<unat n]"
    "valid_slots c = {}"
proof -
  obtain j where j: "j \<le> 31" "round_up n 1 = Some (2 ^ j)" using round_up_ok [of 0 n] assms(4) by auto
  define c0 where "c0 = \<lparr>bc_dev = d, bc_block_size = bs, bc_spb = bs div 512, bc_nslots = n,
              sl_blk = \<lambda>s. 0, sl_valid = \<lambda>s. False, sl_dirty = \<lambda>s. False, sl_data = \<lambda>s. [],
              lru_prev = \<lambda>s. None, lru_next = \<lambda>s. None, hash_next = \<lambda>s. None, bc_buckets = \<lambda>b. None,
              bc_nbuckets = 2 ^ j, lru_head = None, lru_tail = None,
              bc_stats = \<lparr>st_hits = 0, st_misses = 0, st_writebacks = 0, st_evictions = 0\<rparr>\<rparr>"
  obtain bl c where s: "seed_slots [0..<unat n] c0 = (bl, c)" by fastforce
  have "lru_list c0 []" by (simp add: c0_def)
  note so = seed_slots_ok [OF this _ _ s]
  have geom: "bc_block_size c = bs" "bc_spb c = bs div 512" "bc_nslots c = n" "bc_dev c = d" "bl = map Bc_data [0..<unat n]"
    using so by (simp_all add: same_geom_def c0_def)
  have nv: "\<not> sl_valid c t" for t using so by (auto simp: c0_def)
  have v: "valid_slots c = {}" using nv by (simp add: valid_slots_def)
  have "unat bs = 512 * unat (bs div 512)"
  proof -
    have "unat (bs mod 512) = unat bs mod 512" "unat (bs div 512) = unat bs div 512" by (simp_all add: unat_mod unat_div)
    then show ?thesis using assms(2) by auto
  qed
  moreover have "(2 ^ j :: u32) \<noteq> 0" using j(1) by (simp add: exp_eq_zero_iff)
  moreover have "lru_list c (rev [0..<unat n] @ [])" using so by simp
  moreover have "0 < unat n" using assms(3) by (simp add: unat_gt_0)
  moreover have "hashed c {}" using so by (auto simp: hashed_def c0_def)
  ultimately have "cache_ok sec c"
    unfolding cache_ok_def v cache_inv_def using so geom nv
    by (intro conjI exI [of _ "rev [0..<unat n]"]) (auto simp: c0_def)
  moreover have "view sec c = block_at sec (bs div 512) d"
    using view_eq(2) [of c _ sec] v geom by (auto simp: fun_eq_iff)
  moreover have "bcache_create bs n d = Some (Some ([Bc_self, Bc_slots, Bc_buckets] @ bl, c))"
    using assms(1-3) j(2) s by (simp add: bcache_create_def flip: c0_def)
  ultimately show thesis using geom v that by simp
qed

subsection \<open>The contract of a block store\<close>

datatype store_op = Rd u32 | Wr u32 bytes

text \<open>The results of the reads of a series of operations, where a read may be refused.\<close>

fun run_ops :: "(u32 \<Rightarrow> 's \<Rightarrow> (bytes option \<times> 's) option) \<Rightarrow> (u32 \<Rightarrow> bytes \<Rightarrow> 's \<Rightarrow> 's option) \<Rightarrow> store_op list \<Rightarrow> 's \<Rightarrow>
    (bytes option list \<times> 's) option" where
  "run_ops rdf wrf [] s = Some ([], s)"
| "run_ops rdf wrf (Rd b # xs) s = do { (r, s) \<leftarrow> rdf b s; (rs, s) \<leftarrow> run_ops rdf wrf xs s; Some (r # rs, s) }"
| "run_ops rdf wrf (Wr b buf # xs) s = do { s \<leftarrow> wrf b buf s; run_ops rdf wrf xs s }"

text \<open>The same on an array of blocks.\<close>

fun array_ops :: "store_op list \<Rightarrow> (u32 \<Rightarrow> bytes) \<Rightarrow> bytes list \<times> (u32 \<Rightarrow> bytes)" where
  "array_ops [] f = ([], f)"
| "array_ops (Rd b # xs) f = (let (rs, g) = array_ops xs f in (f b # rs, g))"
| "array_ops (Wr b buf # xs) f = array_ops xs (f(b := buf))"

fun op_ok :: "nat \<Rightarrow> store_op \<Rightarrow> bool" where
  "op_ok n (Rd b) \<longleftrightarrow> True"
| "op_ok n (Wr b buf) \<longleftrightarrow> length buf = n"

locale block_store =
  fixes inv :: "'s \<Rightarrow> bool" and contents :: "'s \<Rightarrow> u32 \<Rightarrow> bytes" and bsize :: "'s \<Rightarrow> nat"
    and rdf :: "u32 \<Rightarrow> 's \<Rightarrow> (bytes option \<times> 's) option" and wrf :: "u32 \<Rightarrow> bytes \<Rightarrow> 's \<Rightarrow> 's option"
  assumes read_law: "inv s \<Longrightarrow> \<exists>r s'. rdf b s = Some (r, s') \<and> inv s' \<and> contents s' = contents s \<and> bsize s' = bsize s \<and>
      (\<forall>buf. r = Some buf \<longrightarrow> buf = contents s b)"
    and write_law: "inv s \<Longrightarrow> length buf = bsize s \<Longrightarrow>
      \<exists>s'. wrf b buf s = Some s' \<and> inv s' \<and> contents s' = (contents s)(b := buf) \<and> bsize s' = bsize s"
begin

lemma run_ops_array:
  "inv s \<Longrightarrow> list_all (op_ok (bsize s)) xs \<Longrightarrow>
   \<exists>rs s'. run_ops rdf wrf xs s = Some (rs, s') \<and> inv s' \<and> bsize s' = bsize s \<and>
     list_all2 (\<lambda>r x. r = None \<or> r = Some x) rs (fst (array_ops xs (contents s))) \<and> contents s' = snd (array_ops xs (contents s))"
proof (induction xs arbitrary: s)
  case (Cons x xs)
  show ?case
  proof (cases x)
    case (Rd b)
    obtain r s1 where r: "rdf b s = Some (r, s1)" "inv s1" "contents s1 = contents s" "bsize s1 = bsize s"
      "\<forall>buf. r = Some buf \<longrightarrow> buf = contents s b" using read_law [OF Cons.prems(1)] by blast
    obtain rs s2 where "run_ops rdf wrf xs s1 = Some (rs, s2)" "inv s2" "bsize s2 = bsize s"
      "list_all2 (\<lambda>r x. r = None \<or> r = Some x) rs (fst (array_ops xs (contents s)))" "contents s2 = snd (array_ops xs (contents s))"
      using Cons.IH [OF r(2)] Cons.prems(2) r(3,4) by auto
    with Rd r show ?thesis by (cases r) (auto simp: case_prod_beta)
  next
    case (Wr b buf)
    then obtain s1 where w: "wrf b buf s = Some s1" "inv s1" "contents s1 = (contents s)(b := buf)" "bsize s1 = bsize s"
      using write_law [OF Cons.prems(1), of buf b] Cons.prems(2) by auto
    have "list_all (op_ok (bsize s1)) xs" using Cons.prems(2) w(4) by simp
    then show ?thesis using Cons.IH [OF w(2)] w(4) by (simp add: Wr w(1) flip: w(3))
  qed
qed simp

end

interpretation cached: block_store "\<lambda>c. dev_ok dev sec \<and> writes_ok dev \<and> cache_ok sec c" "view sec" "\<lambda>c. unat (bc_block_size c)"
  "bcache_read dev" "bcache_write dev" for dev :: "'d blockdev" and sec
proof unfold_locales
  fix c :: "'d bcache" and b
  assume a: "dev_ok dev sec \<and> writes_ok dev \<and> cache_ok sec c"
  then obtain r c' where "bcache_read dev b c = Some (r, c')" "cache_ok sec c'" "view sec c' = view sec c" "same_geom c c'"
    "\<And>buf. r = Some buf \<Longrightarrow> buf = view sec c b" using bcache_read_ok [of dev sec c b] by metis
  with a show "\<exists>r s'. bcache_read dev b c = Some (r, s') \<and> (dev_ok dev sec \<and> writes_ok dev \<and> cache_ok sec s') \<and>
      view sec s' = view sec c \<and> unat (bc_block_size s') = unat (bc_block_size c) \<and> (\<forall>buf. r = Some buf \<longrightarrow> buf = view sec c b)"
    by (auto simp: same_geom_def)
next
  fix c :: "'d bcache" and b and buf :: bytes
  assume a: "dev_ok dev sec \<and> writes_ok dev \<and> cache_ok sec c" "length buf = unat (bc_block_size c)"
  then obtain c' where "bcache_write dev b buf c = Some c'" "cache_ok sec c'" "view sec c' = (view sec c)(b := buf)" "same_geom c c'"
    using bcache_write_ok [of dev sec c buf b] by metis
  with a show "\<exists>s'. bcache_write dev b buf c = Some s' \<and> (dev_ok dev sec \<and> writes_ok dev \<and> cache_ok sec s') \<and>
      view sec s' = (view sec c)(b := buf) \<and> unat (bc_block_size s') = unat (bc_block_size c)"
    by (auto simp: same_geom_def)
qed

subsection \<open>A device in memory\<close>

text \<open>For the examples: a device of six sectors whose state is their contents, and one that refuses every write.\<close>

definition ram_sec :: "(nat \<Rightarrow> bytes) \<Rightarrow> nat \<Rightarrow> bytes" where
  "ram_sec d i = take 512 (d i @ replicate 512 0)"

definition ram_dev :: "bool \<Rightarrow> (nat \<Rightarrow> bytes) blockdev" where
  "ram_dev accept = \<lparr>bd_read = \<lambda>lba n d. (True, concat (map (ram_sec d) [unat lba..<unat lba + unat n]), d),
     bd_write = \<lambda>lba n buf d. if accept
       then (True, \<lambda>i. if unat lba \<le> i \<and> i < unat lba + unat n then bslice buf (512 * (i - unat lba)) 512 else d i) else (False, d),
     bd_sectors = \<lambda>d. 6\<rparr>"

lemma concat_slices: "length buf = 512 * n \<Longrightarrow> concat (map (\<lambda>i. bslice buf (512 * i) 512) [0..<n]) = buf"
proof (induction n arbitrary: buf)
  case (Suc n)
  have m: "map (\<lambda>i. bslice buf (512 * i) 512) [0..<n] = map (\<lambda>i. bslice (take (512 * n) buf) (512 * i) 512) [0..<n]"
  proof (rule map_cong)
    fix i assume "i \<in> set [0..<n]"
    then have "512 * i + 512 \<le> 512 * n" by simp
    then show "bslice buf (512 * i) 512 = bslice (take (512 * n) buf) (512 * i) 512" by (simp add: bslice_def take_drop min_def)
  qed simp
  have "concat (map (\<lambda>i. bslice (take (512 * n) buf) (512 * i) 512) [0..<n]) = take (512 * n) buf"
    using Suc.prems by (intro Suc.IH) simp
  moreover have "bslice buf (512 * n) 512 = drop (512 * n) buf" using Suc.prems by (simp add: bslice_def)
  ultimately show ?case by (simp add: m)
qed simp

lemma ram_dev_ok: "dev_ok (ram_dev accept) ram_sec"
proof -
  have l: "length (ram_sec d i) = 512" for d i by (simp add: ram_sec_def)
  then have r: "length (concat (map (ram_sec d) [a..<a + n])) = 512 * n" for d a n by (simp add: length_concat comp_def sum_list_triv)
  have w: "concat (map (ram_sec (\<lambda>i. if a \<le> i \<and> i < a + n then bslice buf (512 * (i - a)) 512 else d i)) [a..<a + n]) = buf"
    if "length buf = 512 * n" for buf a n d
  proof -
    have "map (ram_sec (\<lambda>i. if a \<le> i \<and> i < a + n then bslice buf (512 * (i - a)) 512 else d i)) [a..<a + n] =
        map (\<lambda>i. bslice buf (512 * i) 512) [0..<n]"
      using that by (intro nth_equalityI) (simp_all add: ram_sec_def)
    then show ?thesis using concat_slices [OF that] by simp
  qed
  show ?thesis unfolding dev_ok_def using l r w by (auto simp: ram_dev_def ram_sec_def)
qed

subsection \<open>Properties\<close>



text \<open>A cache with one slot of 512 bytes.\<close>

definition lone_slot :: "'d \<Rightarrow> u32 \<Rightarrow> bool \<Rightarrow> bytes \<Rightarrow> bcache_stats \<Rightarrow> 'd bcache" where
  "lone_slot d b v buf st = \<lparr>bc_dev = d, bc_block_size = 512, bc_spb = 1, bc_nslots = 1,
     sl_blk = (\<lambda>s. 0)(0 := b), sl_valid = (\<lambda>s. False)(0 := v), sl_dirty = (\<lambda>s. False)(0 := v), sl_data = (\<lambda>s. [])(0 := buf),
     lru_prev = \<lambda>s. None, lru_next = \<lambda>s. None, hash_next = \<lambda>s. None, bc_buckets = (\<lambda>b. None)(0 := if v then Some 0 else None),
     bc_nbuckets = 1, lru_head = Some 0, lru_tail = Some 0, bc_stats = st\<rparr>"

lemma lone_slot_create:
  "bcache_create 512 1 d = Some (Some ([Bc_self, Bc_slots, Bc_buckets, Bc_data 0],
     lone_slot d 0 False (replicate 512 0) \<lparr>st_hits = 0, st_misses = 0, st_writebacks = 0, st_evictions = 0\<rparr>))"
proof -
  have "round_up 1 1 = Some 1" by (subst round_up.simps) simp
  then show ?thesis by (simp add: bcache_create_def lone_slot_def lru_push_front_def Let_def fun_eq_iff)
qed

lemma lone_slot_lookup:
  assumes "v \<longrightarrow> b' \<noteq> b"
  shows "lookup (lone_slot d b v old st) b' = Some None"
proof -
  have "chain (hash_next (lone_slot d b v old st)) (bc_buckets (lone_slot d b v old st) 0) (if v then [0] else [])"
    by (simp add: lone_slot_def)
  from lookup_chain [OF this, of b'] assms show ?thesis by (auto simp: lookup_def bucket_of_def lone_slot_def)
qed

lemma lone_slot_claim:
  assumes "v \<longrightarrow> b' \<noteq> b"
  shows "\<exists>st'. claim (ram_dev False) b' (lone_slot d b v old st) =
    Some (0, (lone_slot d b' False old st')\<lparr>bc_buckets := (\<lambda>b. None)(0 := Some 0)\<rparr>)"
proof -
  have "hash_walk (lone_slot d b True old st) 0 None (Some 0) = Some (None, Some 0)"
    by (subst hash_walk.simps) simp
  then show ?thesis
    by (cases v) (auto simp: claim_def flush_slot_def dev_write_block_def ram_dev_def hash_remove_def lru_touch_def
      hash_insert_def lone_slot_def bucket_of_def count_eviction_def Let_def fun_eq_iff)
qed

lemma lone_slot_write:
  assumes "length buf = 512" "v \<longrightarrow> b' \<noteq> b"
  shows "\<exists>st'. bcache_write (ram_dev False) b' buf (lone_slot d b v old st) = Some (lone_slot d b' True buf st')"
proof -
  obtain st' where "claim (ram_dev False) b' (lone_slot d b v old st) =
    Some (0, (lone_slot d b' False old st')\<lparr>bc_buckets := (\<lambda>b. None)(0 := Some 0)\<rparr>)"
    using lone_slot_claim [OF assms(2)] by blast
  then show ?thesis
    using lone_slot_lookup [OF assms(2), of d old st] assms(1)
    by (intro exI [of _ st'], simp add: bcache_write_def) (simp add: lone_slot_def fun_eq_iff)
qed

lemma lone_slot_read:
  "\<exists>c'. bcache_read (ram_dev False) 5 (lone_slot d 4 True old st) = Some (Some (block_at ram_sec 1 d 5), c')"
proof -
  let ?c = "lone_slot d 4 True old st"
  have l: "lookup (lone_slot d 4 True old st') 5 = Some None" for st' by (rule lone_slot_lookup) simp
  have m: "count_miss ?c = lone_slot d 4 True old (bc_stats (count_miss ?c))" by (simp add: count_miss_def lone_slot_def)
  obtain st1 where k: "claim (ram_dev False) 5 (count_miss ?c) =
    Some (0, (lone_slot d 5 False old st1)\<lparr>bc_buckets := (\<lambda>b. None)(0 := Some 0)\<rparr>)"
    using lone_slot_claim [of True 5 4 d old "bc_stats (count_miss ?c)"] unfolding m [symmetric] by auto
  have "length (block_at ram_sec 1 d 5) = 512" by (simp add: block_at_def ram_sec_def)
  then show ?thesis
    using l [of st] k
    by (simp add: bcache_read_def fill_def)
      (simp add: Let_def dev_read_block_def ram_dev_def lone_slot_def readahead_def READAHEAD_def upt_conv_Cons block_at_def)
qed


end
