(* ===== verification/Cmon.thy ===== *)
theory Cmon
  imports Frames
begin

text \<open>
  Computations of the kernel on a state \<open>'s\<close> that call into several components: a run ends with a value and a
  new state, ends in a kernel panic (\<^const>\<open>Inl\<close>), or has no defined end at all (\<^const>\<open>None\<close>): an access outside an
  object, a division by zero, a loop that does not end. The weakest precondition \<open>wp\<close> asks that a run is defined, that a result
  it returns is as specified, and that the only panic is the one of a heap that is used up.
\<close>

type_synonym ('s, 'a) cm = "'s \<Rightarrow> ('a \<times> 's) outcome option"

definition ret :: "'a \<Rightarrow> ('s, 'a) cm" where
  "ret x s = Some (Inr (x, s))"

definition bnd :: "('s, 'a) cm \<Rightarrow> ('a \<Rightarrow> ('s, 'b) cm) \<Rightarrow> ('s, 'b) cm" where
  "bnd m f s = (case m s of None \<Rightarrow> None | Some (Inl e) \<Rightarrow> Some (Inl e) | Some (Inr (x, s')) \<Rightarrow> f x s')"

definition ub :: "('s, 'a) cm" where
  "ub s = None"

definition need :: "bool \<Rightarrow> ('s, unit) cm" where
  "need b = (if b then ret () else ub)"

definition chk :: "'a option \<Rightarrow> ('s, 'a) cm" where
  "chk r = (case r of None \<Rightarrow> ub | Some x \<Rightarrow> ret x)"

definition get :: "('s \<Rightarrow> 'a) \<Rightarrow> ('s, 'a) cm" where
  "get f s = Some (Inr (f s, s))"

definition upd :: "('s \<Rightarrow> 's) \<Rightarrow> ('s, unit) cm" where
  "upd f s = Some (Inr ((), f s))"

lemma bnd_cong [fundef_cong]: "m = m' \<Longrightarrow> (\<And>x. f x = f' x) \<Longrightarrow> bnd m f = bnd m' f'"
  by (rule arg_cong2 [where f = bnd]) auto

lemma bnd_assoc [simp]: "bnd (bnd m f) g = bnd m (\<lambda>x. bnd (f x) g)"
  by (auto simp: fun_eq_iff bnd_def split: option.split sum.split)

lemma bnd_ret [simp]: "bnd (ret x) f = f x" "bnd m ret = m"
  by (auto simp: fun_eq_iff bnd_def ret_def split: option.split sum.split)

lemma bnd_case_prod [simp]: "bnd (case p of (a, b) \<Rightarrow> m a b) f = (case p of (a, b) \<Rightarrow> bnd (m a b) f)"
  by (simp split: prod.split)

lemma bnd_get [simp]: "bnd (get f) g s = g (f s) s"
  by (simp add: bnd_def get_def)

lemma bnd_upd [simp]: "bnd (upd f) g s = g () (f s)"
  by (simp add: bnd_def upd_def)

subsection \<open>Weakest preconditions\<close>

definition oom :: string where
  "oom = ''Kernel heap out of memory''"

definition wp :: "('s, 'a) cm \<Rightarrow> ('a \<Rightarrow> 's \<Rightarrow> bool) \<Rightarrow> 's \<Rightarrow> bool" where
  "wp m Q s \<longleftrightarrow> (case m s of None \<Rightarrow> False | Some (Inl e) \<Rightarrow> e = oom | Some (Inr (x, s')) \<Rightarrow> Q x s')"

lemma wp_bnd: "wp (bnd m f) Q s = wp m (\<lambda>x. wp (f x) Q) s"
  by (auto simp: wp_def bnd_def split: option.split sum.split)

lemma wp_ret [simp]: "wp (ret x) Q s = Q x s"
  by (simp add: wp_def ret_def)

lemma wp_get [simp]: "wp (get g) Q s = Q (g s) s" "wp (bnd (get g) f) R s = wp (f (g s)) R s"
  by (simp_all add: wp_bnd) (simp_all add: wp_def get_def)

lemma wp_upd [simp]: "wp (upd h) Q s = Q () (h s)" "wp (bnd (upd h) f) R s = wp (f ()) R (h s)"
  by (simp_all add: wp_bnd) (simp_all add: wp_def upd_def)

lemma wp_need [simp]: "wp (need b) Q s \<longleftrightarrow> b \<and> Q () s" "wp (bnd (need b) f) R s \<longleftrightarrow> b \<and> wp (f ()) R s"
  by (simp_all add: wp_bnd) (simp_all add: wp_def need_def ret_def ub_def)

lemma wp_chk [simp]: "wp (chk r) Q s \<longleftrightarrow> (\<exists>y. r = Some y \<and> Q y s)" "wp (bnd (chk r) f) R s \<longleftrightarrow> (\<exists>y. r = Some y \<and> wp (f y) R s)"
  by (simp_all add: wp_bnd) (simp_all add: wp_def chk_def ret_def ub_def split: option.split)

lemma wp_split [simp]:
  "wp (case p of (a, b) \<Rightarrow> m a b) Q s = (case p of (a, b) \<Rightarrow> wp (m a b) Q s)"
  "wp (if c then m1 else m2) R s = (if c then wp m1 R s else wp m2 R s)"
  "wp (let x = v in m' x) R' s = wp (m' v) R' s"
  by (auto simp: Let_def split: prod.split)

lemma wp_option: "wp (case r of None \<Rightarrow> m | Some x \<Rightarrow> f x) Q s = (case r of None \<Rightarrow> wp m Q s | Some x \<Rightarrow> wp (f x) Q s)"
  by (simp split: option.split)

lemma wp_mono: "wp m Q s \<Longrightarrow> (\<And>x s'. Q x s' \<Longrightarrow> R x s') \<Longrightarrow> wp m R s"
  by (auto simp: wp_def split: option.splits sum.splits)

lemma wp_bndI: "wp m R s \<Longrightarrow> (\<And>x s'. R x s' \<Longrightarrow> wp (f x) Q s') \<Longrightarrow> wp (bnd m f) Q s"
  unfolding wp_bnd by (rule wp_mono)

lemma wp_conj: "wp m Q s \<Longrightarrow> wp m R s \<Longrightarrow> wp m (\<lambda>x s'. Q x s' \<and> R x s') s"
  by (auto simp: wp_def split: option.splits sum.splits)

lemma wpD: "wp m Q s \<Longrightarrow> m s = Some (Inr (x, s')) \<Longrightarrow> Q x s'"
  by (simp add: wp_def)

lemma wp_defined: "wp m Q s \<Longrightarrow> m s \<noteq> None"
  by (auto simp: wp_def split: option.splits)

end
