(* ===== verification/Ext2.thy ===== *)
theory Ext2
  imports Bcache Heap Cmon Str
begin

text \<open>
  The file system \<^verbatim>\<open>src/src/ext2.c\<close>, on the block cache of \<open>Bcache\<close> and the heap of \<open>Heap\<close>. The static
  variables of the file are the record \<open>ext2\<close>; the packed structures are records with their little-endian
  layout. A scratch buffer is a value, the list of its bytes, next to the address that the heap gave it;
  an access outside it is undefined. Block numbers and file offsets are the 32-bit and 64-bit integers
  of the code; offsets inside one block are natural numbers, which is the same because a block has at
  most $2^{31}$ bytes and a record at most $2^{16}$. A path is the list of the bytes that are readable from the pointer
  on, with its terminating zero.
\<close>

subsection \<open>The structures on disk\<close>

record superblock =
  s_inodes_count :: u32
  s_blocks_count :: u32
  s_r_blocks_count :: u32
  s_free_blocks_count :: u32
  s_free_inodes_count :: u32
  s_first_data_block :: u32
  s_log_block_size :: u32
  s_log_frag_size :: u32
  s_blocks_per_group :: u32
  s_frags_per_group :: u32
  s_inodes_per_group :: u32
  s_mtime :: u32
  s_wtime :: u32
  s_mnt_count :: u16
  s_max_mnt_count :: u16
  s_magic :: u16
  s_state :: u16
  s_errors :: u16
  s_minor_rev_level :: u16
  s_lastcheck :: u32
  s_checkinterval :: u32
  s_creator_os :: u32
  s_rev_level :: u32
  s_def_resuid :: u16
  s_def_resgid :: u16
  s_first_ino :: u32
  s_inode_size :: u16
  s_block_group_nr :: u16
  s_feature_compat :: u32
  s_feature_incompat :: u32
  s_feature_ro_compat :: u32

record group_desc =
  bg_block_bitmap :: u32
  bg_inode_bitmap :: u32
  bg_inode_table :: u32
  bg_free_blocks_count :: u16
  bg_free_inodes_count :: u16
  bg_used_dirs_count :: u16
  bg_pad :: u16
  bg_reserved :: "u32 list"

record inode =
  i_mode :: u16
  i_uid :: u16
  i_size :: u32
  i_atime :: u32
  i_ctime :: u32
  i_mtime :: u32
  i_dtime :: u32
  i_gid :: u16
  i_links_count :: u16
  i_blocks :: u32
  i_flags :: u32
  i_osd1 :: u32
  i_block :: "u32 list"
  i_generation :: u32
  i_file_acl :: u32
  i_dir_acl :: u32

record dirent =
  d_inode :: u32
  d_rec_len :: u16
  d_name_len :: u8
  d_file_type :: u8

definition EXT2_CACHE_BLOCKS :: u32 where "EXT2_CACHE_BLOCKS = 256"
definition EXT2_MAGIC :: u16 where "EXT2_MAGIC = 0xEF53"
definition EXT2_ROOT_INO :: u32 where "EXT2_ROOT_INO = 2"
definition S_IFMT :: u16 where "S_IFMT = 0xF000"
definition S_IFDIR :: u16 where "S_IFDIR = 0x4000"
definition S_IFREG :: u16 where "S_IFREG = 0x8000"
definition INCOMPAT_FILETYPE :: u32 where "INCOMPAT_FILETYPE = 0x0002"
definition RO_COMPAT_LARGE_FILE :: u32 where "RO_COMPAT_LARGE_FILE = 0x0002"
definition FT_REG :: u8 where "FT_REG = 1"
definition FT_DIR :: u8 where "FT_DIR = 2"
definition FS_HEAP_SZ :: nat where "FS_HEAP_SZ = 16 * 2 ^ 20"

definition superblock_pack :: "superblock \<Rightarrow> bytes" where
  "superblock_pack b =
     le32_bytes (s_inodes_count b) @ le32_bytes (s_blocks_count b) @ le32_bytes (s_r_blocks_count b) @
     le32_bytes (s_free_blocks_count b) @ le32_bytes (s_free_inodes_count b) @ le32_bytes (s_first_data_block b) @
     le32_bytes (s_log_block_size b) @ le32_bytes (s_log_frag_size b) @ le32_bytes (s_blocks_per_group b) @
     le32_bytes (s_frags_per_group b) @ le32_bytes (s_inodes_per_group b) @ le32_bytes (s_mtime b) @ le32_bytes (s_wtime b) @
     le16_bytes (s_mnt_count b) @ le16_bytes (s_max_mnt_count b) @ le16_bytes (s_magic b) @ le16_bytes (s_state b) @
     le16_bytes (s_errors b) @ le16_bytes (s_minor_rev_level b) @
     le32_bytes (s_lastcheck b) @ le32_bytes (s_checkinterval b) @ le32_bytes (s_creator_os b) @ le32_bytes (s_rev_level b) @
     le16_bytes (s_def_resuid b) @ le16_bytes (s_def_resgid b) @
     le32_bytes (s_first_ino b) @ le16_bytes (s_inode_size b) @ le16_bytes (s_block_group_nr b) @
     le32_bytes (s_feature_compat b) @ le32_bytes (s_feature_incompat b) @ le32_bytes (s_feature_ro_compat b)"

definition superblock_unpack :: "bytes \<Rightarrow> superblock option" where
  "superblock_unpack p = do {
     a0 \<leftarrow> get_le32 p 0; a1 \<leftarrow> get_le32 p 4; a2 \<leftarrow> get_le32 p 8; a3 \<leftarrow> get_le32 p 12; a4 \<leftarrow> get_le32 p 16;
     a5 \<leftarrow> get_le32 p 20; a6 \<leftarrow> get_le32 p 24; a7 \<leftarrow> get_le32 p 28; a8 \<leftarrow> get_le32 p 32; a9 \<leftarrow> get_le32 p 36;
     a10 \<leftarrow> get_le32 p 40; a11 \<leftarrow> get_le32 p 44; a12 \<leftarrow> get_le32 p 48; b0 \<leftarrow> get_le16 p 52; b1 \<leftarrow> get_le16 p 54;
     b2 \<leftarrow> get_le16 p 56; b3 \<leftarrow> get_le16 p 58; b4 \<leftarrow> get_le16 p 60; b5 \<leftarrow> get_le16 p 62; c0 \<leftarrow> get_le32 p 64;
     c1 \<leftarrow> get_le32 p 68; c2 \<leftarrow> get_le32 p 72; c3 \<leftarrow> get_le32 p 76; d0 \<leftarrow> get_le16 p 80; d1 \<leftarrow> get_le16 p 82;
     e0 \<leftarrow> get_le32 p 84; f0 \<leftarrow> get_le16 p 88; f1 \<leftarrow> get_le16 p 90; g0 \<leftarrow> get_le32 p 92; g1 \<leftarrow> get_le32 p 96; g2 \<leftarrow> get_le32 p 100;
     Some \<lparr>s_inodes_count = a0, s_blocks_count = a1, s_r_blocks_count = a2, s_free_blocks_count = a3,
       s_free_inodes_count = a4, s_first_data_block = a5, s_log_block_size = a6, s_log_frag_size = a7,
       s_blocks_per_group = a8, s_frags_per_group = a9, s_inodes_per_group = a10, s_mtime = a11, s_wtime = a12,
       s_mnt_count = b0, s_max_mnt_count = b1, s_magic = b2, s_state = b3, s_errors = b4, s_minor_rev_level = b5,
       s_lastcheck = c0, s_checkinterval = c1, s_creator_os = c2, s_rev_level = c3, s_def_resuid = d0, s_def_resgid = d1,
       s_first_ino = e0, s_inode_size = f0, s_block_group_nr = f1, s_feature_compat = g0, s_feature_incompat = g1,
       s_feature_ro_compat = g2\<rparr> }"

text \<open>An array of 32-bit integers in memory.\<close>

fun words32 :: "bytes \<Rightarrow> u32 list" where
  "words32 (a # b # c # d # p) = le32 a b c d # words32 p"
| "words32 _ = []"

definition words32_bytes :: "u32 list \<Rightarrow> bytes" where
  "words32_bytes ws = concat (map le32_bytes ws)"

definition group_desc_pack :: "group_desc \<Rightarrow> bytes" where
  "group_desc_pack g =
     le32_bytes (bg_block_bitmap g) @ le32_bytes (bg_inode_bitmap g) @ le32_bytes (bg_inode_table g) @
     le16_bytes (bg_free_blocks_count g) @ le16_bytes (bg_free_inodes_count g) @ le16_bytes (bg_used_dirs_count g) @
     le16_bytes (bg_pad g) @ words32_bytes (bg_reserved g)"

definition group_desc_unpack :: "bytes \<Rightarrow> group_desc option" where
  "group_desc_unpack p = do {
     a \<leftarrow> get_le32 p 0; b \<leftarrow> get_le32 p 4; c \<leftarrow> get_le32 p 8; d \<leftarrow> get_le16 p 12; e \<leftarrow> get_le16 p 14;
     f \<leftarrow> get_le16 p 16; g \<leftarrow> get_le16 p 18; r \<leftarrow> get_bytes p 20 12;
     Some \<lparr>bg_block_bitmap = a, bg_inode_bitmap = b, bg_inode_table = c, bg_free_blocks_count = d,
       bg_free_inodes_count = e, bg_used_dirs_count = f, bg_pad = g, bg_reserved = words32 r\<rparr> }"

definition inode_pack :: "inode \<Rightarrow> bytes" where
  "inode_pack i =
     le16_bytes (i_mode i) @ le16_bytes (i_uid i) @ le32_bytes (i_size i) @ le32_bytes (i_atime i) @ le32_bytes (i_ctime i) @
     le32_bytes (i_mtime i) @ le32_bytes (i_dtime i) @ le16_bytes (i_gid i) @ le16_bytes (i_links_count i) @
     le32_bytes (i_blocks i) @ le32_bytes (i_flags i) @ le32_bytes (i_osd1 i) @ words32_bytes (i_block i) @
     le32_bytes (i_generation i) @ le32_bytes (i_file_acl i) @ le32_bytes (i_dir_acl i)"

definition inode_unpack :: "bytes \<Rightarrow> inode option" where
  "inode_unpack p = do {
     m \<leftarrow> get_le16 p 0; u \<leftarrow> get_le16 p 2; sz \<leftarrow> get_le32 p 4; at \<leftarrow> get_le32 p 8; ct \<leftarrow> get_le32 p 12; mt \<leftarrow> get_le32 p 16;
     dt \<leftarrow> get_le32 p 20; g \<leftarrow> get_le16 p 24; l \<leftarrow> get_le16 p 26; b \<leftarrow> get_le32 p 28; f \<leftarrow> get_le32 p 32; o1 \<leftarrow> get_le32 p 36;
     bl \<leftarrow> get_bytes p 40 60; gn \<leftarrow> get_le32 p 100; fa \<leftarrow> get_le32 p 104; da \<leftarrow> get_le32 p 108;
     Some \<lparr>i_mode = m, i_uid = u, i_size = sz, i_atime = at, i_ctime = ct, i_mtime = mt, i_dtime = dt, i_gid = g,
       i_links_count = l, i_blocks = b, i_flags = f, i_osd1 = o1, i_block = words32 bl, i_generation = gn, i_file_acl = fa,
       i_dir_acl = da\<rparr> }"

text \<open>\<^verbatim>\<open>memset(&in, 0, sizeof(in))\<close>.\<close>

definition zero_inode :: inode where
  "zero_inode = \<lparr>i_mode = 0, i_uid = 0, i_size = 0, i_atime = 0, i_ctime = 0, i_mtime = 0, i_dtime = 0, i_gid = 0,
     i_links_count = 0, i_blocks = 0, i_flags = 0, i_osd1 = 0, i_block = replicate 15 0, i_generation = 0, i_file_acl = 0,
     i_dir_acl = 0\<rparr>"

text \<open>The header of the directory entry at an offset of a block; the name follows it.\<close>

definition dirent_at :: "bytes \<Rightarrow> nat \<Rightarrow> dirent option" where
  "dirent_at p off = do {
     i \<leftarrow> get_le32 p off; r \<leftarrow> get_le16 p (off + 4); n \<leftarrow> rd p (off + 6); t \<leftarrow> rd p (off + 7);
     Some \<lparr>d_inode = i, d_rec_len = r, d_name_len = n, d_file_type = t\<rparr> }"

definition dirent_pack :: "dirent \<Rightarrow> bytes" where
  "dirent_pack d = le32_bytes (d_inode d) @ le16_bytes (d_rec_len d) @ [d_name_len d, d_file_type d]"

text \<open>\<^verbatim>\<open>memcpy(buf + off, xs, |xs|)\<close> with its bound.\<close>

definition put_bytes :: "bytes \<Rightarrow> nat \<Rightarrow> bytes \<Rightarrow> bytes option" where
  "put_bytes buf off xs = (if off + length xs \<le> length buf then Some (store buf off xs) else None)"

definition roundup4 :: "u32 \<Rightarrow> u32" where
  "roundup4 x = (x + 3) AND NOT 3"

subsection \<open>The state\<close>

text \<open>\<open>fs_disk\<close> is the state of the device while there is no cache; with a cache it is \<^const>\<open>bc_dev\<close>.
  \<open>fs_cache_mem\<close> are the addresses of the blocks the cache is made of.\<close>

record 'd ext2 =
  fs_mounted :: bool
  fs_sb :: superblock
  fs_block_size :: u32
  fs_inode_size :: u32
  fs_groups :: u32
  fs_has_filetype :: bool
  fs_lock :: bool
  fs_heap :: "heap option"
  fs_dev :: "'d blockdev option"
  fs_cache :: "'d bcache option"
  fs_cache_mem :: "nat list"
  fs_disk :: 'd

text \<open>\<^verbatim>\<open>new (mem(), t, n)\<close> for an integer type of \<open>sz\<close> bytes: the address and the zeroed contents.\<close>

definition new_buf :: "nat \<Rightarrow> int \<Rightarrow> ('d ext2, nat \<times> bytes) cm" where
  "new_buf sz n s =
     (case fs_heap s of
        None \<Rightarrow> None
      | Some h \<Rightarrow> (case heap_alloc h (int sz) (int sz) n of
            Inl e \<Rightarrow> Some (Inl e)
          | Inr (a, h) \<Rightarrow> Some (Inr ((a, replicate (sz * nat n) 0), s\<lparr>fs_heap := Some h\<rparr>))))"

definition free_buf :: "nat \<Rightarrow> ('d ext2, unit) cm" where
  "free_buf a s = (case fs_heap s of None \<Rightarrow> None | Some h \<Rightarrow> Some (Inr ((), s\<lparr>fs_heap := Some (heap_free h a)\<rparr>)))"

text \<open>What the device did to a buffer: a transfer longer than the buffer is undefined.\<close>

definition fill_buf :: "bytes \<Rightarrow> bytes \<Rightarrow> bytes option" where
  "fill_buf buf x = (if length x \<le> length buf then Some (x @ drop (length x) buf) else None)"

text \<open>\<^verbatim>\<open>fs_dev->read\<close> and \<^verbatim>\<open>fs_dev->write\<close>, past the cache.\<close>

definition raw_read :: "u64 \<Rightarrow> u32 \<Rightarrow> bytes \<Rightarrow> ('d ext2, bool \<times> bytes) cm" where
  "raw_read lba n buf s =
     (case fs_dev s of
        None \<Rightarrow> None
      | Some dev \<Rightarrow>
          (let (ok, x, d) = bd_read dev lba n (case fs_cache s of Some c \<Rightarrow> bc_dev c | None \<Rightarrow> fs_disk s) in
           case fill_buf buf x of
             None \<Rightarrow> None
           | Some buf \<Rightarrow> Some (Inr ((ok, buf), case fs_cache s of
                 Some c \<Rightarrow> s\<lparr>fs_cache := Some (c\<lparr>bc_dev := d\<rparr>)\<rparr> | None \<Rightarrow> s\<lparr>fs_disk := d\<rparr>))))"

definition raw_write :: "u64 \<Rightarrow> u32 \<Rightarrow> bytes \<Rightarrow> ('d ext2, bool) cm" where
  "raw_write lba n buf s =
     (case fs_dev s of
        None \<Rightarrow> None
      | Some dev \<Rightarrow>
          (let (ok, d) = bd_write dev lba n buf (case fs_cache s of Some c \<Rightarrow> bc_dev c | None \<Rightarrow> fs_disk s) in
           Some (Inr (ok, case fs_cache s of
              Some c \<Rightarrow> s\<lparr>fs_cache := Some (c\<lparr>bc_dev := d\<rparr>)\<rparr> | None \<Rightarrow> s\<lparr>fs_disk := d\<rparr>))))"

text \<open>The return value and the buffer afterwards.\<close>

definition read_block :: "u32 \<Rightarrow> bytes \<Rightarrow> ('d ext2, bool \<times> bytes) cm" where
  "read_block blk buf s =
     (case fs_cache s of
        Some c \<Rightarrow>
          (case fs_dev s of
             None \<Rightarrow> None
           | Some dev \<Rightarrow> (case bcache_read dev blk c of
                 None \<Rightarrow> None
               | Some (None, c) \<Rightarrow> Some (Inr ((False, buf), s\<lparr>fs_cache := Some c\<rparr>))
               | Some (Some x, c) \<Rightarrow> (case fill_buf buf x of
                     None \<Rightarrow> None
                   | Some buf \<Rightarrow> Some (Inr ((True, buf), s\<lparr>fs_cache := Some c\<rparr>)))))
      | None \<Rightarrow> (let spb = fs_block_size s div 512 in raw_read (ucast blk * ucast spb) spb buf s))"

subsection \<open>Inodes and the blocks of a file\<close>

definition group_desc_at :: "bytes \<Rightarrow> nat \<Rightarrow> group_desc option" where
  "group_desc_at p off = Option.bind (get_bytes p off 32) group_desc_unpack"

definition inode_at :: "bytes \<Rightarrow> nat \<Rightarrow> inode option" where
  "inode_at p off = Option.bind (get_bytes p off 112) inode_unpack"

text \<open>\<open>None\<close> is the result false; \<^verbatim>\<open>*out\<close> is not used then.\<close>

definition read_group_desc :: "u32 \<Rightarrow> ('d ext2, group_desc option) cm" where
  "read_group_desc g =
     bnd (get fs_sb) (\<lambda>sb. bnd (get fs_block_size) (\<lambda>bs.
     let table = s_first_data_block sb + 1; byte = g * 32 in
     bnd (new_buf 1 (uint bs)) (\<lambda>(a, blk).
     bnd (need (bs \<noteq> 0)) (\<lambda>_.
     bnd (read_block (table + byte div bs) blk) (\<lambda>(ok, blk).
     bnd (if ok then bnd (chk (group_desc_at blk (unat (byte mod bs)))) (\<lambda>gd. ret (Some gd)) else ret None) (\<lambda>out.
     bnd (free_buf a) (\<lambda>_. ret out)))))))"

definition read_inode :: "u32 \<Rightarrow> ('d ext2, inode option) cm" where
  "read_inode ino =
     (if ino = 0 then ret None
      else bnd (get fs_sb) (\<lambda>sb. bnd (get fs_block_size) (\<lambda>bs. bnd (get fs_inode_size) (\<lambda>is.
        bnd (need (s_inodes_per_group sb \<noteq> 0)) (\<lambda>_.
        let g = (ino - 1) div s_inodes_per_group sb; index = (ino - 1) mod s_inodes_per_group sb in
        bnd (read_group_desc g) (\<lambda>r. case r of
            None \<Rightarrow> ret None
          | Some gd \<Rightarrow>
              (let byte = index * is in
               bnd (new_buf 1 (uint bs)) (\<lambda>(a, blk).
               bnd (need (bs \<noteq> 0)) (\<lambda>_.
               bnd (read_block (bg_inode_table gd + byte div bs) blk) (\<lambda>(ok, blk).
               bnd (if ok then bnd (chk (inode_at blk (unat (byte mod bs)))) (\<lambda>i. ret (Some i)) else ret None) (\<lambda>out.
               bnd (free_buf a) (\<lambda>_. ret out))))))))))))"

definition block_of :: "inode \<Rightarrow> u32 \<Rightarrow> ('d ext2, u32) cm" where
  "block_of i n =
     bnd (get fs_block_size) (\<lambda>bs.
     let per = bs div 4 in
     if n < 12 then chk (rd (i_block i) (unat n))
     else let n = n - 12 in
       bnd (new_buf 4 (uint per)) (\<lambda>(a, tmp).
       bnd (chk (rd (i_block i) 12)) (\<lambda>b12. bnd (chk (rd (i_block i) 13)) (\<lambda>b13.
       bnd (if n < per
            then if b12 \<noteq> 0
              then bnd (read_block b12 tmp) (\<lambda>(_, tmp). chk (rd (words32 tmp) (unat n)))
              else ret 0
            else let n = n - per in
              if n < per * per \<and> b13 \<noteq> 0
              then bnd (read_block b13 tmp) (\<lambda>(_, tmp).
                bnd (chk (rd (words32 tmp) (unat (n div per)))) (\<lambda>dbl.
                if dbl \<noteq> 0
                then bnd (read_block dbl tmp) (\<lambda>(_, tmp). chk (rd (words32 tmp) (unat (n mod per))))
                else ret 0))
              else ret 0) (\<lambda>result.
       bnd (free_buf a) (\<lambda>_. ret result))))))"

definition inode_file_size :: "superblock \<Rightarrow> inode \<Rightarrow> u64" where
  "inode_file_size sb i =
     (if i_mode i AND S_IFMT = S_IFREG \<and> s_feature_ro_compat sb AND RO_COMPAT_LARGE_FILE \<noteq> 0
      then ucast (i_size i) OR push_bit 32 (ucast (i_dir_acl i)) else ucast (i_size i))"

text \<open>The loops \<^verbatim>\<open>for (i = 0; i < |ws| && k + i < n; i++) phys[k + i] = ws[i]\<close>.\<close>

fun copy_words :: "u32 \<Rightarrow> u32 \<Rightarrow> u32 list \<Rightarrow> u32 list \<Rightarrow> u32 list option" where
  "copy_words n k [] phys = Some phys"
| "copy_words n k (w # ws) phys =
     (if k < n then Option.bind (wr phys (unat k) w) (copy_words n (k + 1) ws) else Some phys)"

text \<open>The loop over \<open>j\<close> for the double-indirect blocks; \<open>l2\<close> is the buffer that all iterations share.\<close>

fun map_double :: "u32 \<Rightarrow> u32 \<Rightarrow> u32 list \<Rightarrow> nat list \<Rightarrow> bytes \<Rightarrow> u32 list \<Rightarrow> ('d ext2, u32 list) cm" where
  "map_double n per l1 [] l2 phys = ret phys"
| "map_double n per l1 (j # js) l2 phys =
     (let base = 12 + per + of_nat j * per in
      if base \<ge> n then ret phys
      else bnd (chk (rd l1 j)) (\<lambda>w.
        if w = 0 then map_double n per l1 js l2 phys
        else bnd (read_block w l2) (\<lambda>(_, l2).
          bnd (chk (copy_words n base (take (unat per) (words32 l2)) phys)) (\<lambda>phys.
          map_double n per l1 js l2 phys))))"

definition map_blocks :: "inode \<Rightarrow> u32 \<Rightarrow> u32 list \<Rightarrow> ('d ext2, u32 list) cm" where
  "map_blocks i n phys =
     bnd (get fs_block_size) (\<lambda>bs.
     let per = bs div 4 in
     bnd (chk (copy_words n 0 (replicate (unat n) 0) phys)) (\<lambda>phys.
     bnd (chk (copy_words n 0 (take 12 (i_block i)) phys)) (\<lambda>phys.
     bnd (new_buf 4 (uint per)) (\<lambda>(a1, l1).
     bnd (chk (rd (i_block i) 12)) (\<lambda>b12. bnd (chk (rd (i_block i) 13)) (\<lambda>b13.
     bnd (if n > 12 \<and> b12 \<noteq> 0
          then bnd (read_block b12 l1) (\<lambda>(_, l1).
            bnd (chk (copy_words n 12 (take (unat per) (words32 l1)) phys)) (\<lambda>phys. ret (l1, phys)))
          else ret (l1, phys)) (\<lambda>(l1, phys).
     bnd (if n > 12 + per \<and> b13 \<noteq> 0
          then bnd (new_buf 4 (uint per)) (\<lambda>(a2, l2).
            bnd (read_block b13 l1) (\<lambda>(_, l1).
            bnd (map_double n per (words32 l1) [0..<unat per] l2 phys) (\<lambda>phys.
            bnd (free_buf a2) (\<lambda>_. ret phys))))
          else ret phys) (\<lambda>phys.
     bnd (free_buf a1) (\<lambda>_. ret phys)))))))))"

subsection \<open>Reading a file\<close>

text \<open>\<^verbatim>\<open>while (i + run < full && phys[i + run] == phys[i] + run) run++\<close>.\<close>

function run_len :: "u32 list \<Rightarrow> nat \<Rightarrow> nat \<Rightarrow> u32 \<Rightarrow> nat \<Rightarrow> nat option" where
  "run_len phys full i p run =
     (if i + run < full
      then case rd phys (i + run) of
          None \<Rightarrow> None
        | Some q \<Rightarrow> if q = p + of_nat run then run_len phys full i p (run + 1) else Some run
      else Some run)"
  by pat_completeness auto
termination by (relation "measure (\<lambda>(phys, full, i, p, run). full - (i + run))") auto

lemma run_len_ge: "run_len phys full i p run = Some r \<Longrightarrow> run \<le> r"
  by (induction phys full i p run rule: run_len.induct) (subst (asm) (2) run_len.simps, auto split: if_splits option.splits)

text \<open>One transfer of \<open>run\<close> blocks from block \<open>p\<close> on to the place \<open>off\<close> of the result.\<close>

definition read_run :: "u32 \<Rightarrow> u32 \<Rightarrow> nat \<Rightarrow> bytes \<Rightarrow> ('d ext2, bytes) cm" where
  "read_run p run off out s =
     (let bs = fs_block_size s; n = unat run * unat bs in
      case get_bytes out off n of
        None \<Rightarrow> None
      | Some buf \<Rightarrow>
          (case fs_cache s of
             Some c \<Rightarrow>
               (case fs_dev s of
                  None \<Rightarrow> None
                | Some dev \<Rightarrow> (case bcache_read_run dev p run buf c of
                      None \<Rightarrow> None
                    | Some (_, buf, c) \<Rightarrow> Some (Inr (store out off buf, s\<lparr>fs_cache := Some c\<rparr>))))
           | None \<Rightarrow>
               (let spb = bs div 512 in
                bnd (raw_read (ucast p * ucast spb) (run * spb) buf) (\<lambda>(_, buf). ret (store out off buf)) s)))"

function read_runs :: "u32 \<Rightarrow> nat \<Rightarrow> u32 list \<Rightarrow> nat \<Rightarrow> bytes \<Rightarrow> ('d ext2, bytes) cm" where
  "read_runs bs full phys i out =
     (if i < full
      then case rd phys i of
          None \<Rightarrow> ub
        | Some p \<Rightarrow>
            if p = 0
            then bnd (chk (put_bytes out (i * unat bs) (replicate (unat bs) 0))) (\<lambda>out. read_runs bs full phys (i + 1) out)
            else (case run_len phys full i p 1 of
                None \<Rightarrow> ub
              | Some run \<Rightarrow> bnd (read_run p (of_nat run) (i * unat bs) out) (\<lambda>out. read_runs bs full phys (i + run) out))
      else ret out)"
  by pat_completeness auto
termination by (relation "measure (\<lambda>(bs, full, phys, i, out). full - i)") (auto simp del: run_len.simps dest: run_len_ge)

definition read_tail :: "u32 \<Rightarrow> u32 list \<Rightarrow> nat \<Rightarrow> nat \<Rightarrow> bytes \<Rightarrow> ('d ext2, bytes) cm" where
  "read_tail bs phys full rem out =
     (if rem > 0
      then bnd (chk (rd phys full)) (\<lambda>p.
        if p = 0 then chk (put_bytes out (full * unat bs) (replicate rem 0))
        else bnd (new_buf 1 (uint bs)) (\<lambda>(ba, block).
          bnd (read_block p block) (\<lambda>(_, block).
          bnd (chk (get_bytes block 0 rem)) (\<lambda>x.
          bnd (chk (put_bytes out (full * unat bs) x)) (\<lambda>out.
          bnd (free_buf ba) (\<lambda>_. ret out))))))
      else ret out)"

text \<open>The address and the contents of the buffer that the caller gets; its size is the third component.\<close>

definition read_file :: "inode \<Rightarrow> u64 \<Rightarrow> ('d ext2, nat \<times> bytes \<times> u64) cm" where
  "read_file i fsize =
     bnd (get fs_block_size) (\<lambda>bs.
     bnd (new_buf 1 (if fsize \<noteq> 0 then sint fsize else 1)) (\<lambda>(a, out).
     bnd (need (bs \<noteq> 0)) (\<lambda>_.
     let nblocks = (ucast ((fsize + ucast bs - 1) div ucast bs) :: u32);
         full = (ucast (fsize div ucast bs) :: u32);
         rem = (ucast (fsize mod ucast bs) :: u32) in
     bnd (new_buf 4 (if nblocks \<noteq> 0 then uint nblocks else 1)) (\<lambda>(pa, pbuf).
     bnd (map_blocks i nblocks (words32 pbuf)) (\<lambda>phys.
     bnd (read_runs bs (unat full) phys 0 out) (\<lambda>out.
     bnd (read_tail bs phys (unat full) (unat rem) out) (\<lambda>out.
     bnd (free_buf pa) (\<lambda>_. ret (a, out, fsize)))))))))"

subsection \<open>Directories\<close>

text \<open>A callback gets the context, the inode, the type and the name: the bytes readable from the name on, and its length. It returns
  whether to stop and the new context; an access outside the block is \<^const>\<open>None\<close>.\<close>

type_synonym 'c dirent_fn = "'c \<Rightarrow> u32 \<Rightarrow> u8 \<Rightarrow> bytes \<Rightarrow> u32 \<Rightarrow> (bool \<times> 'c) option"

function walk_entries :: "bool \<Rightarrow> 'c dirent_fn \<Rightarrow> nat \<Rightarrow> bytes \<Rightarrow> nat \<Rightarrow> 'c \<Rightarrow> (bool \<times> 'c) option" where
  "walk_entries ft fn bs block off ctx =
     (if off + 8 \<le> bs
      then case dirent_at block off of
          None \<Rightarrow> None
        | Some de \<Rightarrow>
            if d_rec_len de < 8 then Some (False, ctx)
            else if d_inode de \<noteq> 0
            then let namelen = (if ft then ucast (d_name_len de) else ucast (d_name_len de) OR push_bit 8 (ucast (d_file_type de)));
                     type' = (if ft then d_file_type de else 0) in
              (case fn ctx (d_inode de) type' (drop (off + 8) block) namelen of
                 None \<Rightarrow> None
               | Some (stop, ctx) \<Rightarrow>
                   if stop then Some (True, ctx) else walk_entries ft fn bs block (off + unat (d_rec_len de)) ctx)
            else walk_entries ft fn bs block (off + unat (d_rec_len de)) ctx
      else Some (False, ctx))"
  by pat_completeness auto
termination
proof -
  have "bs - (off + unat r) < bs - off" if "off + 8 \<le> bs" "\<not> r < 8" for bs off and r :: u16
    using that by (simp add: word_less_nat_alt)
  then show ?thesis by (relation "measure (\<lambda>(ft, fn, bs, block, off, ctx). bs - off)") simp_all
qed

declare run_len.simps [simp del] read_runs.simps [simp del] walk_entries.simps [simp del]

text \<open>The blocks \<open>bi = 0, 1, \<dots>\<close> with \<open>bi * bs < size\<close>, in order.\<close>

definition block_indices :: "u32 \<Rightarrow> u64 \<Rightarrow> nat list" where
  "block_indices bs fsize = [0..<(unat fsize + unat bs - 1) div unat bs]"

fun walk_blocks :: "inode \<Rightarrow> bool \<Rightarrow> 'c dirent_fn \<Rightarrow> u32 \<Rightarrow> nat list \<Rightarrow> bytes \<Rightarrow> 'c \<Rightarrow> ('d ext2, 'c) cm" where
  "walk_blocks dir ft fn bs [] block ctx = ret ctx"
| "walk_blocks dir ft fn bs (bi # bis) block ctx =
     bnd (block_of dir (of_nat bi)) (\<lambda>phys.
     if phys = 0 then walk_blocks dir ft fn bs bis block ctx
     else bnd (read_block phys block) (\<lambda>(ok, block).
       if \<not> ok then walk_blocks dir ft fn bs bis block ctx
       else bnd (chk (walk_entries ft fn (unat bs) block 0 ctx)) (\<lambda>(stop, ctx).
         if stop then ret ctx else walk_blocks dir ft fn bs bis block ctx)))"

text \<open>The loop over the blocks of the directory does not end when the block size is 0.\<close>

definition walk_dir :: "inode \<Rightarrow> 'c dirent_fn \<Rightarrow> 'c \<Rightarrow> ('d ext2, 'c) cm" where
  "walk_dir dir fn ctx =
     (if i_mode dir AND S_IFMT \<noteq> S_IFDIR then ret ctx
      else bnd (get fs_sb) (\<lambda>sb. bnd (get fs_block_size) (\<lambda>bs. bnd (get fs_has_filetype) (\<lambda>ft.
        let fsize = inode_file_size sb dir in
        bnd (new_buf 1 (uint bs)) (\<lambda>(a, block).
        bnd (need (bs \<noteq> 0 \<or> fsize = 0)) (\<lambda>_.
        bnd (walk_blocks dir ft fn bs (block_indices bs fsize) block ctx) (\<lambda>ctx.
        bnd (free_buf a) (\<lambda>_. ret ctx))))))))"

text \<open>\<^verbatim>\<open>str_eq\<close> with the reads it makes: it stops at the first byte that differs.\<close>

fun bytes_eq :: "nat \<Rightarrow> bytes \<Rightarrow> bytes \<Rightarrow> bool option" where
  "bytes_eq 0 _ _ = Some True"
| "bytes_eq (Suc n) (a # p) (b # q) = (if a \<noteq> b then Some False else bytes_eq n p q)"
| "bytes_eq (Suc n) _ _ = None"

definition span_eq :: "str \<Rightarrow> str \<Rightarrow> bool option" where
  "span_eq a b = (if str_len a \<noteq> str_len b then Some False else bytes_eq (str_len a) (str_data a) (str_data b))"

text \<open>\<open>l\<close> is the name that is looked for; the context is the field \<^verbatim>\<open>found\<close>.\<close>

definition match_entry :: "str \<Rightarrow> u32 dirent_fn" where
  "match_entry l found ino type' name namelen =
     map_option (\<lambda>b. if b then (True, ino) else (False, found)) (span_eq (str_span name (unat namelen)) l)"

subsection \<open>Paths\<close>

text \<open>The character 47 is the slash. The result \<^const>\<open>None\<close> is false.\<close>

function resolve_loop :: "bytes \<Rightarrow> u32 \<Rightarrow> inode \<Rightarrow> ('d ext2, (u32 \<times> inode) option) cm" where
  "resolve_loop p ino cur =
     bnd (chk (rd p 0)) (\<lambda>c.
     if c = 0 then ret (Some (ino, cur))
     else let p1 = dropWhile (\<lambda>c. c = 47) p in
       case p1 of
         [] \<Rightarrow> ub
       | c1 # rest \<Rightarrow>
           if c1 = 0 then ret (Some (ino, cur))
           else let p2 = dropWhile (\<lambda>c. c \<noteq> 0 \<and> c \<noteq> 47) rest;
                    l = str_span p1 (length p1 - length p2) in
             bnd (need (p2 \<noteq> [])) (\<lambda>_.
             bnd (walk_dir cur (match_entry l) 0) (\<lambda>found.
             if found = 0 then ret None
             else bnd (read_inode found) (\<lambda>r. case r of
                 None \<Rightarrow> ret None
               | Some cur \<Rightarrow> resolve_loop p2 found cur))))"
  by pat_completeness auto
termination
proof -
  have "length (dropWhile Q q) < length p" if "c # q = dropWhile P p" for P Q :: "u8 \<Rightarrow> bool" and p q c
    using length_dropWhile_le [of Q q] length_dropWhile_le [of P p] that [symmetric] by simp
  then show ?thesis by (relation "measure (\<lambda>(p, ino, cur). length p)") simp_all
qed

definition resolve :: "bytes \<Rightarrow> ('d ext2, (u32 \<times> inode) option) cm" where
  "resolve path =
     bnd (read_inode EXT2_ROOT_INO) (\<lambda>r. case r of
         None \<Rightarrow> ret None
       | Some cur \<Rightarrow> resolve_loop path EXT2_ROOT_INO cur)"

declare resolve_loop.simps [simp del]

subsection \<open>Mounting and the public read operations\<close>

text \<open>The requests of \<^verbatim>\<open>bcache_create\<close> to the heap; \<^verbatim>\<open>sizeof(struct bcache)\<close> is 104 and \<^verbatim>\<open>sizeof(struct bcache_slot)\<close> is 40.\<close>

fun bc_request :: "u32 \<Rightarrow> u32 \<Rightarrow> u32 \<Rightarrow> bc_block \<Rightarrow> int \<times> int \<times> int" where
  "bc_request bs nslots nb Bc_self = (104, 8, 1)"
| "bc_request bs nslots nb Bc_slots = (40, 8, uint nslots)"
| "bc_request bs nslots nb Bc_buckets = (8, 8, uint nb)"
| "bc_request bs nslots nb (Bc_data i) = (1, 1, uint bs)"

fun bc_address :: "nat list \<Rightarrow> bc_block \<Rightarrow> nat" where
  "bc_address ms Bc_self = ms ! 0"
| "bc_address ms Bc_slots = ms ! 1"
| "bc_address ms Bc_buckets = ms ! 2"
| "bc_address ms (Bc_data i) = ms ! (3 + i)"

definition zero_slab :: slab where
  "zero_slab = \<lparr>sl_next = None, sl_free_list = 0, sl_class = 0, sl_free_count = 0, sl_nslabs = 0\<rparr>"

definition destroy_cache :: "('d ext2, unit) cm" where
  "destroy_cache s =
     (case (fs_cache s, fs_dev s, fs_heap s) of
        (Some c, Some dev, Some h) \<Rightarrow>
          (let (bl, c) = bcache_destroy dev c in
           Some (Inr ((), s\<lparr>fs_cache := None, fs_disk := bc_dev c, fs_cache_mem := [],
             fs_heap := Some (fold (\<lambda>b h. heap_free h (bc_address (fs_cache_mem s) b)) bl h)\<rparr>)))
      | (None, _) \<Rightarrow> Some (Inr ((), s))
      | _ \<Rightarrow> None)"

definition create_cache :: "('d ext2, unit) cm" where
  "create_cache s =
     (case (fs_dev s, fs_heap s) of
        (Some dev, Some h) \<Rightarrow>
          (case bcache_create (fs_block_size s) EXT2_CACHE_BLOCKS (fs_disk s) of
             None \<Rightarrow> None
           | Some None \<Rightarrow> Some (Inr ((), s\<lparr>fs_cache := None\<rparr>))
           | Some (Some (bl, c)) \<Rightarrow>
               (case alloc_many heap_alloc h (map (bc_request (fs_block_size s) EXT2_CACHE_BLOCKS (bc_nbuckets c)) bl) of
                  Inl e \<Rightarrow> Some (Inl e)
                | Inr (ms, h) \<Rightarrow> Some (Inr ((), s\<lparr>fs_cache := Some c, fs_cache_mem := ms, fs_heap := Some h\<rparr>))))
      | _ \<Rightarrow> None)"

text \<open>The heap that \<^verbatim>\<open>kmain\<close> passes is given back with the region that was taken from it.\<close>

definition ext2_mount :: "'d blockdev option \<Rightarrow> heap \<Rightarrow> ('d ext2, bool \<times> heap) cm" where
  "ext2_mount dev heap' =
     bnd (upd (\<lambda>s. s\<lparr>fs_mounted := False\<rparr>)) (\<lambda>_.
     bnd destroy_cache (\<lambda>_.
     bnd (upd (\<lambda>s. s\<lparr>fs_dev := dev\<rparr>)) (\<lambda>_.
     bnd (get fs_disk) (\<lambda>d.
     if (case dev of None \<Rightarrow> True | Some dv \<Rightarrow> bd_sectors dv d = 0) then ret (False, heap')
     else bnd (raw_read 2 2 (replicate 1024 0)) (\<lambda>(ok, buf).
       if \<not> ok then ret (False, heap')
       else bnd (chk (superblock_unpack buf)) (\<lambda>sb.
         bnd (upd (\<lambda>s. s\<lparr>fs_sb := sb\<rparr>)) (\<lambda>_.
         if s_magic sb \<noteq> EXT2_MAGIC then ret (False, heap')
         else bnd (need (s_log_block_size sb < 32 \<and> s_blocks_per_group sb \<noteq> 0)) (\<lambda>_.
           let bs = push_bit (unat (s_log_block_size sb)) 1024;
               is = (if s_rev_level sb \<ge> 1 \<and> s_inode_size sb \<noteq> 0 then ucast (s_inode_size sb) else 128) in
           bnd (upd (\<lambda>s. s\<lparr>fs_block_size := bs, fs_inode_size := (if is < 112 then 112 else is),
             fs_has_filetype := (s_feature_incompat sb AND INCOMPAT_FILETYPE \<noteq> 0),
             fs_groups := (s_blocks_count sb - s_first_data_block sb + s_blocks_per_group sb - 1) div s_blocks_per_group sb\<rparr>)) (\<lambda>_.
           bnd (get fs_heap) (\<lambda>fh.
           bnd (if fh = None
                then (case heap_alloc heap' 1 1 (int FS_HEAP_SZ) of
                    Inl e \<Rightarrow> (\<lambda>s. Some (Inl e))
                  | Inr (region, heap') \<Rightarrow>
                      bnd (upd (\<lambda>s. s\<lparr>fs_heap := Some (heap_init (h_mem heap') (\<lambda>_. zero_slab) region FS_HEAP_SZ)\<rparr>)) (\<lambda>_. ret heap'))
                else ret heap') (\<lambda>heap'.
           bnd create_cache (\<lambda>_.
           bnd (upd (\<lambda>s. s\<lparr>fs_mounted := True\<rparr>)) (\<lambda>_. ret (True, heap'))))))))))))))"

definition ext2_mounted :: "('d ext2, bool) cm" where
  "ext2_mounted = get fs_mounted"

text \<open>A lock that is held is never released by anybody else here, so waiting for it does not end.\<close>

definition fs_spin_lock :: "('d ext2, unit) cm" where
  "fs_spin_lock s = (if fs_lock s then None else Some (Inr ((), s\<lparr>fs_lock := True\<rparr>)))"

definition fs_spin_unlock :: "('d ext2, unit) cm" where
  "fs_spin_unlock = upd (\<lambda>s. s\<lparr>fs_lock := False\<rparr>)"

definition locked :: "('d ext2, 'a) cm \<Rightarrow> ('d ext2, 'a) cm" where
  "locked m = bnd fs_spin_lock (\<lambda>_. bnd m (\<lambda>r. bnd fs_spin_unlock (\<lambda>_. ret r)))"

definition ext2_free :: "nat \<Rightarrow> ('d ext2, unit) cm" where
  "ext2_free p = (if p \<noteq> 0 then locked (free_buf p) else ret ())"

definition read_path_impl :: "bytes \<Rightarrow> ('d ext2, (nat \<times> bytes \<times> u64) option) cm" where
  "read_path_impl path =
     bnd (get fs_mounted) (\<lambda>m.
     if \<not> m then ret None
     else bnd (resolve path) (\<lambda>r. case r of
         None \<Rightarrow> ret None
       | Some (ino, i) \<Rightarrow>
           if i_mode i AND S_IFMT \<noteq> S_IFREG then ret None
           else bnd (get fs_sb) (\<lambda>sb. bnd (read_file i (inode_file_size sb i)) (\<lambda>f. ret (Some f)))))"

definition ext2_read_path :: "bytes \<Rightarrow> ('d ext2, (nat \<times> bytes \<times> u64) option) cm" where
  "ext2_read_path path = locked (read_path_impl path)"

record ext2_stat =
  st_size :: u64
  st_inode :: u32
  st_mode :: u16
  st_is_dir :: bool

definition stat_path_impl :: "bytes \<Rightarrow> ('d ext2, ext2_stat option) cm" where
  "stat_path_impl path =
     bnd (get fs_mounted) (\<lambda>m.
     if \<not> m then ret None
     else bnd (resolve path) (\<lambda>r. case r of
         None \<Rightarrow> ret None
       | Some (ino, i) \<Rightarrow> bnd (get fs_sb) (\<lambda>sb.
           ret (Some \<lparr>st_size = inode_file_size sb i, st_inode = ino, st_mode = i_mode i,
             st_is_dir = (i_mode i AND S_IFMT = S_IFDIR)\<rparr>))))"

definition ext2_stat_path :: "bytes \<Rightarrow> ('d ext2, ext2_stat option) cm" where
  "ext2_stat_path path = locked (stat_path_impl path)"

text \<open>The context holds the calls of \<^verbatim>\<open>emit\<close> so far; \<^verbatim>\<open>count\<close> is their number. The name is cut to 255 bytes and terminated.\<close>

definition emit_entry :: "(bytes \<times> u32 \<times> u8) list dirent_fn" where
  "emit_entry e ino type' name namelen =
     (let namelen = (if namelen > 255 then 255 else namelen) in
      map_option (\<lambda>x. (False, e @ [(x @ [0], ino, type')])) (get_bytes name 0 (unat namelen)))"

definition list_impl :: "bytes \<Rightarrow> ('d ext2, (bytes \<times> u32 \<times> u8) list option) cm" where
  "list_impl path =
     bnd (get fs_mounted) (\<lambda>m.
     if \<not> m then ret None
     else bnd (resolve path) (\<lambda>r. case r of
         None \<Rightarrow> ret None
       | Some (ino, i) \<Rightarrow>
           if i_mode i AND S_IFMT \<noteq> S_IFDIR then ret None
           else bnd (walk_dir i emit_entry []) (\<lambda>e. ret (Some e))))"

definition ext2_list :: "bytes \<Rightarrow> ('d ext2, (bytes \<times> u32 \<times> u8) list option) cm" where
  "ext2_list path = locked (list_impl path)"

end
