(* ===== verification/Ext2_Ops.thy ===== *)
theory Ext2_Ops
  imports Ext2
begin

text \<open>
  The write half of \<^verbatim>\<open>src/src/ext2.c\<close>: allocation of blocks and inodes from the bitmaps, the block map of a
  file, directory entries, and the public operations that create, overwrite and remove files and directories.
  An inode that a function changes through a pointer is an argument and a result.
\<close>

subsection \<open>Writing the structures\<close>

text \<open>A cached write always succeeds.\<close>

definition write_block :: "u32 \<Rightarrow> bytes \<Rightarrow> ('d ext2, bool) cm" where
  "write_block blk buf s =
     (case fs_cache s of
        Some c \<Rightarrow>
          (case fs_dev s of
             None \<Rightarrow> None
           | Some dev \<Rightarrow> (case bcache_write dev blk buf c of
                 None \<Rightarrow> None
               | Some c \<Rightarrow> Some (Inr (True, s\<lparr>fs_cache := Some c\<rparr>))))
      | None \<Rightarrow> (let spb = fs_block_size s div 512 in raw_write (ucast blk * ucast spb) spb buf s))"

definition write_group_desc :: "u32 \<Rightarrow> group_desc \<Rightarrow> ('d ext2, bool) cm" where
  "write_group_desc g gd =
     bnd (get fs_sb) (\<lambda>sb. bnd (get fs_block_size) (\<lambda>bs.
     let table = s_first_data_block sb + 1; byte = g * 32 in
     bnd (new_buf 1 (uint bs)) (\<lambda>(a, blk).
     bnd (need (bs \<noteq> 0)) (\<lambda>_.
     bnd (read_block (table + byte div bs) blk) (\<lambda>(ok, blk).
     bnd (if ok
          then bnd (chk (put_bytes blk (unat (byte mod bs)) (group_desc_pack gd))) (\<lambda>blk. write_block (table + byte div bs) blk)
          else ret False) (\<lambda>ok.
     bnd (free_buf a) (\<lambda>_. ret ok)))))))"

definition write_inode :: "u32 \<Rightarrow> inode \<Rightarrow> ('d ext2, bool) cm" where
  "write_inode ino i =
     bnd (get fs_sb) (\<lambda>sb. bnd (get fs_block_size) (\<lambda>bs. bnd (get fs_inode_size) (\<lambda>is.
     bnd (need (s_inodes_per_group sb \<noteq> 0)) (\<lambda>_.
     let g = (ino - 1) div s_inodes_per_group sb; index = (ino - 1) mod s_inodes_per_group sb in
     bnd (read_group_desc g) (\<lambda>r. case r of
         None \<Rightarrow> ret False
       | Some gd \<Rightarrow>
           bnd (need (bs \<noteq> 0)) (\<lambda>_.
           let byte = index * is; b = bg_inode_table gd + byte div bs in
           bnd (new_buf 1 (uint bs)) (\<lambda>(a, blk).
           bnd (read_block b blk) (\<lambda>(ok, blk).
           bnd (if ok
                then bnd (chk (put_bytes blk (unat (byte mod bs)) (inode_pack i))) (\<lambda>blk. write_block b blk)
                else ret False) (\<lambda>ok.
           bnd (free_buf a) (\<lambda>_. ret ok))))))))))"

definition write_superblock :: "('d ext2, bool) cm" where
  "write_superblock =
     bnd (raw_read 2 2 (replicate 1024 0)) (\<lambda>(ok, buf).
     if \<not> ok then ret False
     else bnd (get fs_sb) (\<lambda>sb. bnd (chk (put_bytes buf 0 (superblock_pack sb))) (\<lambda>buf. raw_write 2 2 buf)))"

subsection \<open>Bitmaps\<close>

text \<open>The first clear bit below \<open>nb\<close>, from \<open>i\<close> on; the outer option is an access outside the block.\<close>

function first_clear :: "bytes \<Rightarrow> nat \<Rightarrow> nat \<Rightarrow> nat option option" where
  "first_clear bm nb i =
     (if i < nb
      then case rd bm (i div 8) of
          None \<Rightarrow> None
        | Some b \<Rightarrow> if \<not> bit b (i mod 8) then Some (Some i) else first_clear bm nb (i + 1)
      else Some None)"
  by pat_completeness auto
termination by (relation "measure (\<lambda>(bm, nb, i). nb - i)") auto

declare first_clear.simps [simp del]

definition bit_set :: "bytes \<Rightarrow> nat \<Rightarrow> bytes option" where
  "bit_set bm i = Option.bind (rd bm (i div 8)) (\<lambda>b. wr bm (i div 8) (b OR push_bit (i mod 8) 1))"

definition bit_clear :: "bytes \<Rightarrow> nat \<Rightarrow> bytes option" where
  "bit_clear bm i = Option.bind (rd bm (i div 8)) (\<lambda>b. wr bm (i div 8) (b AND NOT (push_bit (i mod 8) 1)))"

text \<open>The result is the index, and \<^const>\<open>None\<close> for -1.\<close>

definition bitmap_alloc :: "u32 \<Rightarrow> u32 \<Rightarrow> ('d ext2, nat option) cm" where
  "bitmap_alloc bitmap_block nb =
     bnd (get fs_block_size) (\<lambda>bs.
     bnd (new_buf 1 (uint bs)) (\<lambda>(a, bm).
     bnd (read_block bitmap_block bm) (\<lambda>(ok, bm).
     bnd (if ok
          then bnd (chk (first_clear bm (unat nb) 0)) (\<lambda>found. case found of
              None \<Rightarrow> ret None
            | Some i \<Rightarrow> bnd (chk (bit_set bm i)) (\<lambda>bm. bnd (write_block bitmap_block bm) (\<lambda>_. ret (Some i))))
          else ret None) (\<lambda>found.
     bnd (free_buf a) (\<lambda>_. ret found)))))"

definition bitmap_free :: "u32 \<Rightarrow> u32 \<Rightarrow> ('d ext2, unit) cm" where
  "bitmap_free bitmap_block b =
     bnd (get fs_block_size) (\<lambda>bs.
     bnd (new_buf 1 (uint bs)) (\<lambda>(a, bm).
     bnd (read_block bitmap_block bm) (\<lambda>(ok, bm).
     bnd (if ok then bnd (chk (bit_clear bm (unat b))) (\<lambda>bm. bnd (write_block bitmap_block bm) (\<lambda>_. ret ())) else ret ()) (\<lambda>_.
     free_buf a))))"

subsection \<open>Allocation\<close>

definition set_sb :: "(superblock \<Rightarrow> superblock) \<Rightarrow> ('d ext2, unit) cm" where
  "set_sb f = upd (\<lambda>s. s\<lparr>fs_sb := f (fs_sb s)\<rparr>)"

text \<open>The body of the loop of \<^verbatim>\<open>alloc_block\<close>: \<^const>\<open>None\<close> is \<^verbatim>\<open>continue\<close>.\<close>

definition alloc_block_in :: "u32 \<Rightarrow> ('d ext2, u32 option) cm" where
  "alloc_block_in g =
     bnd (read_group_desc g) (\<lambda>r. case r of
         None \<Rightarrow> ret None
       | Some gd \<Rightarrow>
           if bg_free_blocks_count gd = 0 then ret None
           else bnd (get fs_sb) (\<lambda>sb.
             bnd (bitmap_alloc (bg_block_bitmap gd) (s_blocks_per_group sb)) (\<lambda>found. case found of
                 None \<Rightarrow> ret None
               | Some i \<Rightarrow>
                   bnd (write_group_desc g (gd\<lparr>bg_free_blocks_count := bg_free_blocks_count gd - 1\<rparr>)) (\<lambda>_.
                   bnd (set_sb (\<lambda>sb. sb\<lparr>s_free_blocks_count := s_free_blocks_count sb - 1\<rparr>)) (\<lambda>_.
                   bnd write_superblock (\<lambda>_.
                   bnd (get fs_block_size) (\<lambda>bs.
                   let blk = s_first_data_block sb + g * s_blocks_per_group sb + of_nat i in
                   bnd (new_buf 1 (uint bs)) (\<lambda>(a, zero).
                   bnd (write_block blk zero) (\<lambda>_.
                   bnd (free_buf a) (\<lambda>_. ret (Some blk)))))))))))"

fun alloc_block_loop :: "nat list \<Rightarrow> ('d ext2, u32) cm" where
  "alloc_block_loop [] = ret 0"
| "alloc_block_loop (g # gs) = bnd (alloc_block_in (of_nat g)) (\<lambda>r. case r of None \<Rightarrow> alloc_block_loop gs | Some blk \<Rightarrow> ret blk)"

definition alloc_block :: "('d ext2, u32) cm" where
  "alloc_block = bnd (get fs_groups) (\<lambda>n. alloc_block_loop [0..<unat n])"

definition free_block :: "u32 \<Rightarrow> ('d ext2, unit) cm" where
  "free_block blk =
     bnd (get fs_sb) (\<lambda>sb. bnd (get fs_groups) (\<lambda>n.
     if blk < s_first_data_block sb then ret ()
     else let rel = blk - s_first_data_block sb in
       bnd (need (s_blocks_per_group sb \<noteq> 0)) (\<lambda>_.
       let g = rel div s_blocks_per_group sb in
       if g \<ge> n then ret ()
       else bnd (read_group_desc g) (\<lambda>r. case r of
           None \<Rightarrow> ret ()
         | Some gd \<Rightarrow>
             bnd (bitmap_free (bg_block_bitmap gd) (rel mod s_blocks_per_group sb)) (\<lambda>_.
             bnd (write_group_desc g (gd\<lparr>bg_free_blocks_count := bg_free_blocks_count gd + 1\<rparr>)) (\<lambda>_.
             bnd (set_sb (\<lambda>sb. sb\<lparr>s_free_blocks_count := s_free_blocks_count sb + 1\<rparr>)) (\<lambda>_.
             bnd write_superblock (\<lambda>_. ret ()))))))))"

definition alloc_inode_in :: "bool \<Rightarrow> u32 \<Rightarrow> ('d ext2, u32 option) cm" where
  "alloc_inode_in is_dir g =
     bnd (read_group_desc g) (\<lambda>r. case r of
         None \<Rightarrow> ret None
       | Some gd \<Rightarrow>
           if bg_free_inodes_count gd = 0 then ret None
           else bnd (get fs_sb) (\<lambda>sb.
             bnd (bitmap_alloc (bg_inode_bitmap gd) (s_inodes_per_group sb)) (\<lambda>found. case found of
                 None \<Rightarrow> ret None
               | Some i \<Rightarrow>
                   (let gd = gd\<lparr>bg_free_inodes_count := bg_free_inodes_count gd - 1\<rparr>;
                        gd = (if is_dir then gd\<lparr>bg_used_dirs_count := bg_used_dirs_count gd + 1\<rparr> else gd) in
                    bnd (write_group_desc g gd) (\<lambda>_.
                    bnd (set_sb (\<lambda>sb. sb\<lparr>s_free_inodes_count := s_free_inodes_count sb - 1\<rparr>)) (\<lambda>_.
                    bnd write_superblock (\<lambda>_. ret (Some (g * s_inodes_per_group sb + of_nat i + 1)))))))))"

fun alloc_inode_loop :: "bool \<Rightarrow> nat list \<Rightarrow> ('d ext2, u32) cm" where
  "alloc_inode_loop is_dir [] = ret 0"
| "alloc_inode_loop is_dir (g # gs) =
     bnd (alloc_inode_in is_dir (of_nat g)) (\<lambda>r. case r of None \<Rightarrow> alloc_inode_loop is_dir gs | Some ino \<Rightarrow> ret ino)"

definition alloc_inode :: "bool \<Rightarrow> ('d ext2, u32) cm" where
  "alloc_inode is_dir = bnd (get fs_groups) (\<lambda>n. alloc_inode_loop is_dir [0..<unat n])"

definition free_inode :: "u32 \<Rightarrow> bool \<Rightarrow> ('d ext2, unit) cm" where
  "free_inode ino was_dir =
     bnd (get fs_sb) (\<lambda>sb. bnd (get fs_groups) (\<lambda>n.
     bnd (need (s_inodes_per_group sb \<noteq> 0)) (\<lambda>_.
     let g = (ino - 1) div s_inodes_per_group sb in
     if g \<ge> n then ret ()
     else bnd (read_group_desc g) (\<lambda>r. case r of
         None \<Rightarrow> ret ()
       | Some gd \<Rightarrow>
           bnd (bitmap_free (bg_inode_bitmap gd) ((ino - 1) mod s_inodes_per_group sb)) (\<lambda>_.
           let gd = gd\<lparr>bg_free_inodes_count := bg_free_inodes_count gd + 1\<rparr>;
               gd = (if was_dir \<and> bg_used_dirs_count gd > 0 then gd\<lparr>bg_used_dirs_count := bg_used_dirs_count gd - 1\<rparr> else gd) in
           bnd (write_group_desc g gd) (\<lambda>_.
           bnd (set_sb (\<lambda>sb. sb\<lparr>s_free_inodes_count := s_free_inodes_count sb + 1\<rparr>)) (\<lambda>_.
           bnd write_superblock (\<lambda>_. ret ()))))))))"

subsection \<open>The block map\<close>

definition set_block_of :: "inode \<Rightarrow> u32 \<Rightarrow> u32 \<Rightarrow> ('d ext2, bool \<times> inode) cm" where
  "set_block_of i n blk =
     bnd (get fs_block_size) (\<lambda>bs.
     let per = bs div 4 in
     if n < 12
     then bnd (chk (wr (i_block i) (unat n) blk)) (\<lambda>bl. ret (True, i\<lparr>i_block := bl, i_blocks := i_blocks i + bs div 512\<rparr>))
     else let n = n - 12 in
       if n \<ge> per then ret (False, i)
       else bnd (chk (rd (i_block i) 12)) (\<lambda>b12.
         bnd (if b12 = 0
              then bnd alloc_block (\<lambda>ind.
                if ind = 0 then ret None
                else bnd (chk (wr (i_block i) 12 ind)) (\<lambda>bl. ret (Some (ind, i\<lparr>i_block := bl, i_blocks := i_blocks i + bs div 512\<rparr>))))
              else ret (Some (b12, i))) (\<lambda>r. case r of
             None \<Rightarrow> ret (False, i)
           | Some (b12, i) \<Rightarrow>
               bnd (new_buf 4 (uint per)) (\<lambda>(a, tmp).
               bnd (read_block b12 tmp) (\<lambda>(ok, tmp).
               bnd (if ok
                    then bnd (chk (put_bytes tmp (4 * unat n) (le32_bytes blk))) (\<lambda>tmp.
                      bnd (write_block b12 tmp) (\<lambda>ok. ret (ok, i\<lparr>i_blocks := i_blocks i + bs div 512\<rparr>)))
                    else ret (False, i)) (\<lambda>r.
               bnd (free_buf a) (\<lambda>_. ret r)))))))"

fun free_each :: "u32 list \<Rightarrow> ('d ext2, unit) cm" where
  "free_each [] = ret ()"
| "free_each (w # ws) = bnd (if w \<noteq> 0 then free_block w else ret ()) (\<lambda>_. free_each ws)"

fun free_double :: "u32 list \<Rightarrow> bytes \<Rightarrow> ('d ext2, bytes) cm" where
  "free_double [] tmp = ret tmp"
| "free_double (w # ws) tmp =
     (if w = 0 then free_double ws tmp
      else bnd (read_block w tmp) (\<lambda>(ok, tmp).
        bnd (if ok then free_each (words32 tmp) else ret ()) (\<lambda>_.
        bnd (free_block w) (\<lambda>_. free_double ws tmp))))"

definition free_all_blocks :: "inode \<Rightarrow> ('d ext2, inode) cm" where
  "free_all_blocks i =
     bnd (get fs_block_size) (\<lambda>bs.
     let per = bs div 4 in
     bnd (free_each (take 12 (i_block i))) (\<lambda>_.
     bnd (new_buf 4 (uint per)) (\<lambda>(a, tmp).
     bnd (chk (rd (i_block i) 12)) (\<lambda>b12. bnd (chk (rd (i_block i) 13)) (\<lambda>b13.
     bnd (if b12 \<noteq> 0
          then bnd (read_block b12 tmp) (\<lambda>(ok, tmp).
            bnd (if ok then free_each (words32 tmp) else ret ()) (\<lambda>_.
            bnd (free_block b12) (\<lambda>_. ret tmp)))
          else ret tmp) (\<lambda>tmp.
     bnd (if b13 \<noteq> 0
          then bnd (new_buf 4 (uint per)) (\<lambda>(a1, l1).
            bnd (read_block b13 l1) (\<lambda>(ok, l1).
            bnd (if ok then free_double (words32 l1) tmp else ret tmp) (\<lambda>tmp.
            bnd (free_buf a1) (\<lambda>_.
            bnd (free_block b13) (\<lambda>_. ret ())))))
          else ret ()) (\<lambda>_.
     bnd (free_buf a) (\<lambda>_.
     ret (i\<lparr>i_block := replicate 14 0 @ drop 14 (i_block i), i_blocks := 0\<rparr>)))))))))"

subsection \<open>Directory entries\<close>

definition dir_find :: "inode \<Rightarrow> bytes \<Rightarrow> u32 \<Rightarrow> ('d ext2, u32) cm" where
  "dir_find dir name namelen = walk_dir dir (match_entry (str_span name (unat namelen))) 0"

text \<open>A new entry \<open>nd\<close> at an offset, with its name.\<close>

definition put_entry :: "bytes \<Rightarrow> nat \<Rightarrow> dirent \<Rightarrow> bytes \<Rightarrow> bytes option" where
  "put_entry block off nd name = Option.bind (put_bytes block off (dirent_pack nd)) (\<lambda>block. put_bytes block (off + 8) name)"

text \<open>The inner loop of \<^verbatim>\<open>dir_add\<close>: the block with the new entry, or \<^const>\<open>None\<close> inside when no record has room.\<close>

function add_entry :: "nat \<Rightarrow> u32 \<Rightarrow> u32 \<Rightarrow> u8 \<Rightarrow> bytes \<Rightarrow> bytes \<Rightarrow> nat \<Rightarrow> bytes option option" where
  "add_entry bs room child type' name block off =
     (if off + 8 \<le> bs
      then case dirent_at block off of
          None \<Rightarrow> None
        | Some de \<Rightarrow>
            if d_rec_len de < 8 then Some None
            else let used = (if d_inode de = 0 then 0 else roundup4 (8 + ucast (d_name_len de))) in
              if ucast (d_rec_len de) - used \<ge> room
              then let tot = (ucast (d_rec_len de) :: u32) in
                (if d_inode de = 0
                 then map_option Some (put_entry block off
                   \<lparr>d_inode = child, d_rec_len = ucast tot, d_name_len = of_nat (length name), d_file_type = type'\<rparr> name)
                 else Option.bind (put_bytes block (off + 4) (le16_bytes (ucast used))) (\<lambda>block.
                   map_option Some (put_entry block (off + unat used)
                     \<lparr>d_inode = child, d_rec_len = ucast (tot - used), d_name_len = of_nat (length name), d_file_type = type'\<rparr> name)))
              else add_entry bs room child type' name block (off + unat (d_rec_len de))
      else Some None)"
  by pat_completeness auto
termination
proof -
  have "bs - (off + unat r) < bs - off" if "off + 8 \<le> bs" "\<not> r < 8" for bs off and r :: u16
    using that by (simp add: word_less_nat_alt)
  then show ?thesis by (relation "measure (\<lambda>(bs, room, child, type', name, block, off). bs - off)") simp_all
qed

text \<open>The outer loop: whether the entry was added.\<close>

fun dir_add_loop :: "inode \<Rightarrow> u32 \<Rightarrow> u32 \<Rightarrow> u32 \<Rightarrow> u8 \<Rightarrow> bytes \<Rightarrow> nat list \<Rightarrow> bytes \<Rightarrow> ('d ext2, bool \<times> bytes) cm" where
  "dir_add_loop dir bs room child type' name [] block = ret (False, block)"
| "dir_add_loop dir bs room child type' name (bi # bis) block =
     bnd (block_of dir (of_nat bi)) (\<lambda>phys.
     if phys = 0 then dir_add_loop dir bs room child type' name bis block
     else bnd (read_block phys block) (\<lambda>(ok, block).
       if \<not> ok then dir_add_loop dir bs room child type' name bis block
       else bnd (chk (add_entry (unat bs) room child type' name block 0)) (\<lambda>r. case r of
           None \<Rightarrow> dir_add_loop dir bs room child type' name bis block
         | Some block \<Rightarrow> bnd (write_block phys block) (\<lambda>_. ret (True, block)))))"

definition dir_add :: "u32 \<Rightarrow> inode \<Rightarrow> bytes \<Rightarrow> u32 \<Rightarrow> u32 \<Rightarrow> u8 \<Rightarrow> ('d ext2, bool \<times> inode) cm" where
  "dir_add dir_ino dir name namelen child type' =
     bnd (get fs_sb) (\<lambda>sb. bnd (get fs_block_size) (\<lambda>bs. bnd (get fs_has_filetype) (\<lambda>ft.
     let room = roundup4 (8 + namelen); fsize = inode_file_size sb dir; ty = (if ft then type' else 0) in
     bnd (chk (get_bytes name 0 (unat namelen))) (\<lambda>name.
     bnd (new_buf 1 (uint bs)) (\<lambda>(a, block).
     bnd (need (bs \<noteq> 0)) (\<lambda>_.
     bnd (dir_add_loop dir bs room child ty name (block_indices bs fsize) block) (\<lambda>(done', block).
     bnd (if done' then ret (True, dir)
          else bnd alloc_block (\<lambda>blk.
            if blk = 0 then ret (False, dir)
            else bnd (set_block_of dir (ucast (fsize div ucast bs)) blk) (\<lambda>(ok, dir).
              if \<not> ok then ret (False, dir)
              else bnd (chk (put_entry (replicate (unat bs) 0) 0
                  \<lparr>d_inode = child, d_rec_len = ucast bs, d_name_len = ucast namelen, d_file_type = ty\<rparr> name)) (\<lambda>block.
                bnd (write_block blk block) (\<lambda>_.
                let dir = dir\<lparr>i_size := i_size dir + bs\<rparr> in
                bnd (write_inode dir_ino dir) (\<lambda>_. ret (True, dir))))))) (\<lambda>r.
     bnd (free_buf a) (\<lambda>_. ret r)))))))))"

text \<open>The inner loop of \<^verbatim>\<open>dir_remove\<close>; \<open>prev\<close> is \<^const>\<open>None\<close> while \<^verbatim>\<open>have_prev\<close> is false.\<close>

function remove_entry :: "nat \<Rightarrow> str \<Rightarrow> bytes \<Rightarrow> nat option \<Rightarrow> nat \<Rightarrow> bytes option option" where
  "remove_entry bs name block prev off =
     (if off + 8 \<le> bs
      then case dirent_at block off of
          None \<Rightarrow> None
        | Some de \<Rightarrow>
            if d_rec_len de < 8 then Some None
            else case (if d_inode de \<noteq> 0 then span_eq (str_span (drop (off + 8) block) (unat (d_name_len de))) name else Some False) of
                None \<Rightarrow> None
              | Some True \<Rightarrow>
                  (case prev of
                     Some pr \<Rightarrow> Option.bind (dirent_at block pr) (\<lambda>pd.
                       map_option Some (put_bytes block (pr + 4) (le16_bytes (d_rec_len pd + d_rec_len de))))
                   | None \<Rightarrow> map_option Some (put_bytes block off (le32_bytes 0)))
              | Some False \<Rightarrow> remove_entry bs name block (Some off) (off + unat (d_rec_len de))
      else Some None)"
  by pat_completeness auto
termination
proof -
  have "bs - (off + unat r) < bs - off" if "off + 8 \<le> bs" "\<not> r < 8" for bs off and r :: u16
    using that by (simp add: word_less_nat_alt)
  then show ?thesis by (relation "measure (\<lambda>(bs, name, block, prev, off). bs - off)") simp_all
qed

declare add_entry.simps [simp del] remove_entry.simps [simp del]

fun dir_remove_loop :: "inode \<Rightarrow> u32 \<Rightarrow> str \<Rightarrow> nat list \<Rightarrow> bytes \<Rightarrow> ('d ext2, bool) cm" where
  "dir_remove_loop dir bs name [] block = ret False"
| "dir_remove_loop dir bs name (bi # bis) block =
     bnd (block_of dir (of_nat bi)) (\<lambda>phys.
     if phys = 0 then dir_remove_loop dir bs name bis block
     else bnd (read_block phys block) (\<lambda>(ok, block).
       if \<not> ok then dir_remove_loop dir bs name bis block
       else bnd (chk (remove_entry (unat bs) name block None 0)) (\<lambda>r. case r of
           None \<Rightarrow> dir_remove_loop dir bs name bis block
         | Some block \<Rightarrow> bnd (write_block phys block) (\<lambda>_. ret True))))"

definition dir_remove :: "inode \<Rightarrow> bytes \<Rightarrow> u32 \<Rightarrow> ('d ext2, bool) cm" where
  "dir_remove dir name namelen =
     bnd (get fs_sb) (\<lambda>sb. bnd (get fs_block_size) (\<lambda>bs.
     bnd (new_buf 1 (uint bs)) (\<lambda>(a, block).
     bnd (need (bs \<noteq> 0 \<or> inode_file_size sb dir = 0)) (\<lambda>_.
     bnd (dir_remove_loop dir bs (str_span name (unat namelen)) (block_indices bs (inode_file_size sb dir)) block) (\<lambda>done'.
     bnd (free_buf a) (\<lambda>_. ret done'))))))"

subsection \<open>Creating and removing\<close>

fun strip_slashes :: "bytes \<Rightarrow> nat \<Rightarrow> nat" where
  "strip_slashes path 0 = 0"
| "strip_slashes path (Suc n) = (if path ! n = 47 then strip_slashes path n else Suc n)"

fun last_slash :: "bytes \<Rightarrow> nat \<Rightarrow> nat" where
  "last_slash path 0 = 0"
| "last_slash path (Suc n) = (if path ! n \<noteq> 47 then last_slash path n else Suc n)"

text \<open>The results are the parent's number and inode, and the last component: its place in the path and its length.\<close>

definition resolve_parent :: "bytes \<Rightarrow> ('d ext2, (u32 \<times> inode \<times> bytes \<times> u32) option) cm" where
  "resolve_parent path =
     bnd (chk (str_scan path)) (\<lambda>n.
     let n = strip_slashes path n in
     if n = 0 then ret None
     else let slash = last_slash path n; base = drop slash path; baselen = (of_nat (n - slash) :: u32) in
       if baselen = 0 \<or> baselen > 255 then ret None
       else if slash \<noteq> 0 \<and> slash \<ge> 256 then ret None
       else let pbuf = (if slash = 0 then [47, 0] else take slash path @ [0]) in
         bnd (resolve pbuf) (\<lambda>r. case r of
             None \<Rightarrow> ret None
           | Some (parent_ino, parent) \<Rightarrow>
               ret (if i_mode parent AND S_IFMT = S_IFDIR then Some (parent_ino, parent, base, baselen) else None)))"

text \<open>The loop over the blocks of the new contents: \<^verbatim>\<open>ok\<close> and the inode.\<close>

fun write_data :: "u32 \<Rightarrow> bytes \<Rightarrow> u64 \<Rightarrow> nat list \<Rightarrow> inode \<Rightarrow> ('d ext2, bool \<times> inode) cm" where
  "write_data bs data fsize [] i = ret (True, i)"
| "write_data bs data fsize (bi # bis) i =
     bnd alloc_block (\<lambda>blk.
     if blk = 0 then ret (False, i)
     else let chunk = (ucast (fsize - of_nat bi * ucast bs) :: u32);
              chunk = (if chunk > bs then bs else chunk) in
       bnd (chk (get_bytes data (bi * unat bs) (unat chunk))) (\<lambda>x.
       bnd (chk (put_bytes (replicate (unat bs) 0) 0 x)) (\<lambda>buf.
       bnd (write_block blk buf) (\<lambda>_.
       bnd (set_block_of i (of_nat bi) blk) (\<lambda>(ok, i).
       if \<not> ok then bnd (free_block blk) (\<lambda>_. ret (False, i))
       else write_data bs data fsize bis i)))))"

definition write_file_impl :: "bytes \<Rightarrow> bytes \<Rightarrow> u64 \<Rightarrow> ('d ext2, bool) cm" where
  "write_file_impl path data fsize =
     bnd (get fs_mounted) (\<lambda>m.
     if \<not> m then ret False
     else bnd (resolve_parent path) (\<lambda>rp. case rp of
         None \<Rightarrow> ret False
       | Some (parent_ino, parent, base, baselen) \<Rightarrow>
           bnd (dir_find parent base baselen) (\<lambda>found.
           bnd (if found \<noteq> 0
                then bnd (read_inode found) (\<lambda>r. case r of
                    None \<Rightarrow> ret None
                  | Some i \<Rightarrow>
                      if i_mode i AND S_IFMT \<noteq> S_IFREG then ret None
                      else bnd (free_all_blocks i) (\<lambda>i. ret (Some (found, i\<lparr>i_size := 0, i_dir_acl := 0\<rparr>))))
                else bnd (alloc_inode False) (\<lambda>ino.
                  if ino = 0 then ret None
                  else bnd (dir_add parent_ino parent base baselen ino FT_REG) (\<lambda>(ok, parent).
                    if \<not> ok then bnd (free_inode ino False) (\<lambda>_. ret None)
                    else ret (Some (ino, zero_inode\<lparr>i_mode := S_IFREG OR 0x1A4, i_links_count := 1\<rparr>))))) (\<lambda>t. case t of
               None \<Rightarrow> ret False
             | Some (ino, i) \<Rightarrow>
                 bnd (get fs_block_size) (\<lambda>bs.
                 bnd (need (bs \<noteq> 0)) (\<lambda>_.
                 let nblocks = (ucast ((fsize + ucast bs - 1) div ucast bs) :: u32) in
                 bnd (new_buf 1 (uint bs)) (\<lambda>(a, _).
                 bnd (write_data bs data fsize [0..<unat nblocks] i) (\<lambda>(ok, i).
                 bnd (free_buf a) (\<lambda>_.
                 bnd (write_inode ino (i\<lparr>i_size := ucast fsize\<rparr>)) (\<lambda>_. ret ok))))))))))"

definition dot_entry :: "u32 \<Rightarrow> u16 \<Rightarrow> u8 \<Rightarrow> u8 \<Rightarrow> dirent" where
  "dot_entry ino r n ty = \<lparr>d_inode = ino, d_rec_len = r, d_name_len = n, d_file_type = ty\<rparr>"

definition mkdir_block :: "u32 \<Rightarrow> bool \<Rightarrow> u32 \<Rightarrow> u32 \<Rightarrow> bytes option" where
  "mkdir_block bs ft ino parent_ino =
     (let ty = (if ft then FT_DIR else 0); r = (ucast (roundup4 9) :: u16) in
      Option.bind (put_entry (replicate (unat bs) 0) 0 (dot_entry ino r 1 ty) [46]) (\<lambda>block.
      put_entry block (unat r) (dot_entry parent_ino (ucast (bs - ucast r)) 2 ty) [46, 46]))"

definition mkdir_impl :: "bytes \<Rightarrow> ('d ext2, bool) cm" where
  "mkdir_impl path =
     bnd (get fs_mounted) (\<lambda>m.
     if \<not> m then ret False
     else bnd (resolve_parent path) (\<lambda>rp. case rp of
         None \<Rightarrow> ret False
       | Some (parent_ino, parent, base, baselen) \<Rightarrow>
           bnd (dir_find parent base baselen) (\<lambda>found.
           if found \<noteq> 0 then ret False
           else bnd (alloc_inode True) (\<lambda>ino.
             if ino = 0 then ret False
             else bnd alloc_block (\<lambda>blk.
               if blk = 0 then bnd (free_inode ino True) (\<lambda>_. ret False)
               else bnd (get fs_block_size) (\<lambda>bs. bnd (get fs_has_filetype) (\<lambda>ft.
                 bnd (new_buf 1 (uint bs)) (\<lambda>(a, _).
                 bnd (chk (mkdir_block bs ft ino parent_ino)) (\<lambda>block.
                 bnd (write_block blk block) (\<lambda>_.
                 bnd (free_buf a) (\<lambda>_.
                 bnd (write_inode ino (zero_inode\<lparr>i_mode := S_IFDIR OR 0x1ED, i_links_count := 2, i_size := bs,
                   i_blocks := bs div 512, i_block := blk # replicate 14 0\<rparr>)) (\<lambda>_.
                 bnd (dir_add parent_ino parent base baselen ino FT_DIR) (\<lambda>(ok, parent).
                 if \<not> ok then bnd (free_block blk) (\<lambda>_. bnd (free_inode ino True) (\<lambda>_. ret False))
                 else bnd (write_inode parent_ino (parent\<lparr>i_links_count := i_links_count parent + 1\<rparr>)) (\<lambda>_. ret True))))))))))))))"

definition count_cb :: "nat dirent_fn" where
  "count_cb n ino type' name namelen =
     Option.bind (if namelen = 1 then map_option (\<lambda>c. c = 46) (rd name 0) else Some False) (\<lambda>dot.
     Option.bind (if namelen = 2
       then Option.bind (rd name 0) (\<lambda>c. if c = 46 then map_option (\<lambda>c. c = 46) (rd name 1) else Some False)
       else Some False) (\<lambda>dotdot.
     Some (if dot \<or> dotdot then (False, n) else (True, n + 1))))"

definition remove_impl :: "bytes \<Rightarrow> ('d ext2, bool) cm" where
  "remove_impl path =
     bnd (get fs_mounted) (\<lambda>m.
     if \<not> m then ret False
     else bnd (resolve_parent path) (\<lambda>rp. case rp of
         None \<Rightarrow> ret False
       | Some (parent_ino, parent, base, baselen) \<Rightarrow>
           bnd (dir_find parent base baselen) (\<lambda>ino.
           if ino = 0 then ret False
           else bnd (read_inode ino) (\<lambda>r. case r of
               None \<Rightarrow> ret False
             | Some i \<Rightarrow>
                 (let is_dir = (i_mode i AND S_IFMT = S_IFDIR) in
                  bnd (if is_dir then walk_dir i count_cb 0 else ret 0) (\<lambda>n.
                  if is_dir \<and> n \<noteq> 0 then ret False
                  else bnd (dir_remove parent base baselen) (\<lambda>ok.
                    if \<not> ok then ret False
                    else if is_dir
                    then bnd (free_all_blocks i) (\<lambda>_.
                      bnd (write_inode ino zero_inode) (\<lambda>_.
                      bnd (free_inode ino True) (\<lambda>_.
                      let parent = (if i_links_count parent > 0 then parent\<lparr>i_links_count := i_links_count parent - 1\<rparr> else parent) in
                      bnd (write_inode parent_ino parent) (\<lambda>_. ret True))))
                    else let i = (if i_links_count i > 0 then i\<lparr>i_links_count := i_links_count i - 1\<rparr> else i) in
                      if i_links_count i = 0
                      then bnd (free_all_blocks i) (\<lambda>_.
                        bnd (write_inode ino zero_inode) (\<lambda>_.
                        bnd (free_inode ino False) (\<lambda>_. ret True)))
                      else bnd (write_inode ino i) (\<lambda>_. ret True))))))))"

definition sync_locked :: "('d ext2, bool) cm" where
  "sync_locked s =
     (case fs_cache s of
        None \<Rightarrow> Some (Inr (True, s))
      | Some c \<Rightarrow> (case fs_dev s of
            None \<Rightarrow> None
          | Some dev \<Rightarrow> (let (ok, c) = bcache_sync dev c in Some (Inr (ok, s\<lparr>fs_cache := Some c\<rparr>)))))"

definition ext2_sync :: "('d ext2, bool) cm" where
  "ext2_sync = locked sync_locked"

definition ext2_write_file :: "bytes \<Rightarrow> bytes \<Rightarrow> u64 \<Rightarrow> ('d ext2, bool) cm" where
  "ext2_write_file path data fsize = locked (bnd (write_file_impl path data fsize) (\<lambda>ok. bnd sync_locked (\<lambda>_. ret ok)))"

definition ext2_mkdir :: "bytes \<Rightarrow> ('d ext2, bool) cm" where
  "ext2_mkdir path = locked (bnd (mkdir_impl path) (\<lambda>ok. bnd sync_locked (\<lambda>_. ret ok)))"

definition ext2_remove :: "bytes \<Rightarrow> ('d ext2, bool) cm" where
  "ext2_remove path = locked (bnd (remove_impl path) (\<lambda>ok. bnd sync_locked (\<lambda>_. ret ok)))"

definition ext2_cache_stats :: "('d ext2, bcache_stats option) cm" where
  "ext2_cache_stats = locked (get (\<lambda>s. map_option bcache_get_stats (fs_cache s)))"

end
