(* ===== verification/Bcache_Res.thy ===== *)
theory Bcache_Res
  imports Bcache_Inv
begin

text \<open>
  Which blocks the operations of the cache bring in, whatever the device does: a read brings in the block and
  at most the three after it, a write the block. A client that writes some sectors past the cache, as the
  file system does with its superblock, relies on the block of these sectors not being in it.
\<close>

definition resident :: "'d bcache \<Rightarrow> u32 set" where
  "resident c = sl_blk c ` valid_slots c"

lemma hash_remove_frame:
  assumes "hash_remove s c = Some c'"
  shows "\<exists>hn bu. c' = c\<lparr>hash_next := hn, bc_buckets := bu\<rparr>"
proof -
  obtain pp p where "hash_walk c s None (bc_buckets c (bucket_of (bc_nbuckets c) (sl_blk c s))) = Some (pp, p)"
    using assms by (auto simp: hash_remove_def Let_def bind_eq_Some_conv)
  with assms have "c' = c\<lparr>hash_next := hash_next c', bc_buckets := bc_buckets c'\<rparr>"
    by (cases p; cases pp) (simp_all add: hash_remove_def Let_def, auto)
  then show ?thesis by (rule_tac exI)+
qed

lemma resident_frame [simp]:
  "resident (c\<lparr>hash_next := hn, bc_buckets := bu\<rparr>) = resident c" "resident (c\<lparr>bc_stats := st\<rparr>) = resident c"
  "resident (c\<lparr>bc_dev := d\<rparr>) = resident c" "resident (lru_touch s c) = resident c" "resident (hash_insert s c) = resident c"
  "resident (count_hit c) = resident c" "resident (count_miss c) = resident c" "resident (count_eviction c) = resident c"
  by (simp_all add: resident_def valid_slots_def hash_insert_def Let_def count_hit_def count_miss_def count_eviction_def)

lemma flush_slot_resident: "flush_slot dev s c = (ok, c') \<Longrightarrow> resident c' = resident c \<and> sl_blk c' = sl_blk c"
  by (auto simp: flush_slot_def Let_def resident_def valid_slots_def split: if_splits prod.splits)

lemma claim_resident:
  assumes "claim dev b c = Some (s, c')"
  shows "resident c' \<subseteq> resident c" "sl_blk c' s = b"
proof -
  obtain c1 where c1: "(if sl_valid c s then let (ok, c) = flush_slot dev s c in map_option count_eviction (hash_remove s c) else Some c) = Some c1"
    and c': "c' = lru_touch s (hash_insert s (retag s b c1))"
    using assms unfolding claim_def retag_def by (cases "lru_tail c") (auto simp: bind_eq_Some_conv simp del: map_option_eq_Some)
  have "resident c1 = resident c"
  proof (cases "sl_valid c s")
    case True
    obtain ok c2 where f: "flush_slot dev s c = (ok, c2)" by (metis prod.exhaust)
    then obtain c3 where "hash_remove s c2 = Some c3" "c1 = count_eviction c3" using c1 True by auto
    then have "resident c1 = resident c2" using hash_remove_frame [of s c2 c3] by auto
    then show ?thesis using flush_slot_resident [OF f] by simp
  qed (use c1 in simp)
  moreover have "resident (retag s b c1) \<subseteq> resident c1" by (auto simp: resident_def valid_slots_def retag_def split: if_splits)
  ultimately show "resident c' \<subseteq> resident c" using c' by simp
  show "sl_blk c' s = b" by (simp add: c' retag_def hash_insert_def Let_def)
qed

lemma fill_resident:
  assumes "fill dev b c = Some (r, c')"
  shows "resident c' \<subseteq> insert b (resident c)"
proof -
  have v: "resident (c\<lparr>sl_valid := (sl_valid c)(s := True)\<rparr>) \<subseteq> insert (sl_blk c s) (resident c)" for c :: "'a bcache" and s
    by (auto simp: resident_def valid_slots_def)
  have d: "resident (c\<lparr>sl_data := x\<rparr>) = resident c" "resident (c\<lparr>bc_dev := y, sl_data := x\<rparr>) = resident c" for c :: "'a bcache" and x y
    by (simp_all add: resident_def valid_slots_def)
  have z: "resident (c\<lparr>sl_blk := (sl_blk c)(s := 0)\<rparr>) \<subseteq> resident c" if "\<not> sl_valid c s" for c :: "'a bcache" and s
    using that by (auto simp: resident_def valid_slots_def)
  show ?thesis
  proof (cases "lookup c b")
    case (Some l)
    show ?thesis
    proof (cases l)
      case None
      then obtain s c1 where k: "claim dev b (count_miss c) = Some (s, c1)" using assms Some by (auto simp: fill_def bind_eq_Some_conv)
      note cr = claim_resident [OF k]
      have nv: "\<not> sl_valid c1 s" using k by (auto simp: claim_def bind_eq_Some_conv hash_insert_def Let_def split: option.splits)
      obtain ok buf d' where rd: "dev_read_block dev b c1 = (ok, buf, d')" by (metis prod.exhaust)
      let ?c2 = "c1\<lparr>bc_dev := d', sl_data := (sl_data c1)(s := buf)\<rparr>"
      have c2: "resident ?c2 \<subseteq> resident c" "sl_blk ?c2 s = b" "\<not> sl_valid ?c2 s" using cr nv by (simp_all add: d)
      show ?thesis
      proof (cases ok)
        case True
        then have "c' = ?c2\<lparr>sl_valid := (sl_valid ?c2)(s := True)\<rparr>" using assms Some None k rd by (auto simp: fill_def)
        then show ?thesis using v [of ?c2 s] c2 by auto
      next
        case False
        then obtain hn bu where "c' = (?c2\<lparr>hash_next := hn, bc_buckets := bu\<rparr>)\<lparr>sl_blk := (sl_blk ?c2)(s := 0)\<rparr>"
          using assms Some None k rd by (auto simp: fill_def bind_eq_Some_conv dest!: hash_remove_frame)
        then show ?thesis using z [of "?c2\<lparr>hash_next := hn, bc_buckets := bu\<rparr>" s] c2 by auto
      qed
    qed (use assms Some in \<open>auto simp: fill_def\<close>)
  qed (use assms in \<open>simp add: fill_def\<close>)
qed

lemma readahead_step:
  assumes "readahead_loop dev tot b (i # is) c = Some c'"
  obtains "c' = c" | "readahead_loop dev tot b is c = Some c'" | r where "fill dev (b + of_nat i) c = Some (r, c')"
    | r c1 where "fill dev (b + of_nat i) c = Some (r, c1)" "readahead_loop dev tot b is c1 = Some c'"
proof -
  define x where "x = b + of_nat i"
  have e: "(if tot \<noteq> 0 \<and> ucast x \<ge> tot then Some c
      else do {
        r \<leftarrow> lookup c x;
        if r \<noteq> None then readahead_loop dev tot b is c
        else case lru_tail c of
            None \<Rightarrow> None
          | Some t \<Rightarrow> if sl_valid c t \<and> sl_dirty c t then Some c
              else do { (s, c) \<leftarrow> fill dev x c; if s = None then Some c else readahead_loop dev tot b is c } }) = Some c'"
    using assms unfolding readahead_loop.simps Let_def x_def .
  note that = that [folded x_def]
  show thesis
  proof (cases "tot \<noteq> 0 \<and> ucast x \<ge> tot")
    case False
    note e = e [unfolded if_not_P [OF False]]
    then obtain r where l: "lookup c x = Some r" by (cases "lookup c x") simp_all
    show thesis
    proof (cases r)
      case None
      then obtain t where t: "lru_tail c = Some t" using e l by (cases "lru_tail c") simp_all
      show thesis
      proof (cases "sl_valid c t \<and> sl_dirty c t")
        case F: False
        then obtain s c1 where f: "fill dev x c = Some (s, c1)" using e l None t by (cases "fill dev x c") auto
        show thesis using e l None t F f that(3,4) by (cases s) (simp_all split: if_split_asm)
      qed (use e l None t that(1) in simp)
    qed (use e l that(2) in simp)
  qed (use e that(1) in simp)
qed

lemma readahead_loop_resident:
  "readahead_loop dev tot b is c = Some c' \<Longrightarrow> resident c' \<subseteq> resident c \<union> (\<lambda>i. b + of_nat i) ` set is"
proof (induction "is" arbitrary: c)
  case (Cons i "is")
  from Cons.prems show ?case
  proof (cases rule: readahead_step)
    case 2
    then show ?thesis using Cons.IH [OF 2] by auto
  next
    case 3
    then show ?thesis using fill_resident [OF 3] by auto
  next
    case 4
    have "resident c' \<subseteq> insert (b + of_nat i) (resident c) \<union> (\<lambda>i. b + of_nat i) ` set is"
      using fill_resident [OF 4(1)] by (intro subset_trans [OF Cons.IH [OF 4(2)]]) blast
    then show ?thesis by simp
  qed auto
qed simp

lemma bcache_read_resident:
  assumes "bcache_read dev b c = Some (r, c')"
  shows "resident c' \<subseteq> resident c \<union> {b, b + 1, b + 2, b + 3}"
proof -
  have "(\<lambda>i. b + of_nat i) ` set [1..<READAHEAD + 1] = {b + 1, b + 2, b + 3}"
    by (simp add: READAHEAD_def numeral_eq_Suc add_ac)
  note ra = readahead_loop_resident [of dev _ b "[1..<READAHEAD + 1]", unfolded this]
  consider s where "c' = lru_touch s (count_hit c)" | r' where "fill dev b c = Some (r', c')"
    | r' c1 tot where "fill dev b c = Some (r', c1)" "readahead_loop dev tot b [1..<READAHEAD + 1] c1 = Some c'"
    using assms by (auto simp: bcache_read_def readahead_def bind_eq_Some_conv Let_def split: option.splits)
  then show ?thesis
  proof cases
    case 3
    with fill_resident [of dev b c] ra show ?thesis by blast
  qed (auto dest: fill_resident)
qed

lemma bcache_write_resident:
  assumes "bcache_write dev b buf c = Some c'"
  shows "resident c' \<subseteq> insert b (resident c)"
proof -
  have set: "resident (c\<lparr>sl_valid := (sl_valid c)(s := True), sl_data := x, sl_dirty := y\<rparr>) \<subseteq> insert (sl_blk c s) (resident c)"
    and keep: "resident (c\<lparr>sl_data := x, sl_dirty := y\<rparr>) = resident c" for c :: "'a bcache" and s x y
    by (auto simp: resident_def valid_slots_def)
  obtain l where l: "lookup c b = Some l" using assms by (cases "lookup c b") (simp_all add: bcache_write_def)
  show ?thesis
  proof (cases l)
    case None
    then obtain s c1 where k: "claim dev b c = Some (s, c1)" using assms l by (cases "claim dev b c") (auto simp: bcache_write_def)
    have "c' = c1\<lparr>sl_valid := (sl_valid c1)(s := True), sl_data := sl_data c', sl_dirty := sl_dirty c'\<rparr>"
      using assms l None k by (simp add: bcache_write_def) auto
    then have "resident c' \<subseteq> insert (sl_blk c1 s) (resident c1)" using set by metis
    then show ?thesis using claim_resident [OF k] by blast
  next
    case (Some s)
    then have "c' = (lru_touch s c)\<lparr>sl_data := sl_data c', sl_dirty := sl_dirty c'\<rparr>" using assms l by (simp add: bcache_write_def) auto
    then have "resident c' = resident c" using keep resident_frame(4) by metis
    then show ?thesis by blast
  qed
qed

lemma bcache_sync_resident: "bcache_sync dev c = (ok, c') \<Longrightarrow> resident c' = resident c"
proof -
  have "sync_slots dev is ok c = (ok', c') \<Longrightarrow> resident c' = resident c" for "is" ok ok' c
    by (induction "is" arbitrary: ok c) (auto split: prod.splits dest!: flush_slot_resident)
  then show "bcache_sync dev c = (ok, c') \<Longrightarrow> resident c' = resident c" unfolding bcache_sync_def .
qed

lemma read_blocks_resident:
  "read_blocks dev (map (\<lambda>i. b + of_nat i) js) p c = Some (ok, q, c') \<Longrightarrow> set js \<subseteq> {..<n} \<Longrightarrow>
   resident c' \<subseteq> resident c \<union> (\<lambda>i. b + of_nat i) ` {..<n + 3}"
proof (induction js arbitrary: p q c)
  case (Cons j js)
  let ?R = "(\<lambda>i. b + of_nat i) ` {..<n + 3}"
  have "b + of_nat j + of_nat k \<in> ?R" if "k \<le> 3" for k
    using that Cons.prems(2) by (intro image_eqI [of _ _ "j + k"]) auto
  from this [of 0] this [of 1] this [of 2] this [of 3]
  have near: "{b + of_nat j, b + of_nat j + 1, b + of_nat j + 2, b + of_nat j + 3} \<subseteq> ?R" by simp
  obtain r c1 where r: "bcache_read dev (b + of_nat j) c = Some (r, c1)"
    using Cons.prems(1) by (cases "bcache_read dev (b + of_nat j) c") auto
  have c1: "resident c1 \<subseteq> resident c \<union> ?R" using near by (intro subset_trans [OF bcache_read_resident [OF r]]) blast
  show ?case
  proof (cases r)
    case None
    then show ?thesis using Cons.prems(1) r c1 by simp
  next
    case (Some x)
    then obtain q' where "read_blocks dev (map (\<lambda>i. b + of_nat i) js) (drop (length x) p) c1 = Some (ok, q', c')"
      using Cons.prems(1) r by (cases "read_blocks dev (map (\<lambda>i. b + of_nat i) js) (drop (length x) p) c1") auto
    from Cons.IH [OF this] Cons.prems(2) c1 show ?thesis by (simp, blast)
  qed
qed simp

lemma bcache_read_run_resident:
  assumes "bcache_read_run dev b n p c = Some (ok, q, c')"
  shows "resident c' \<subseteq> resident c \<union> (\<lambda>i. b + of_nat i) ` {..<unat n + 3}"
proof (cases "n = 0")
  case False
  then obtain f where f: "any_resident c (map (\<lambda>i. b + of_nat i) [0..<unat n]) = Some f"
    using assms by (cases "any_resident c (map (\<lambda>i. b + of_nat i) [0..<unat n])") (simp_all add: bcache_read_run_def Let_def)
  show ?thesis
  proof (cases f)
    case True
    then show ?thesis using assms f False by (intro read_blocks_resident [where js = "[0..<unat n]"]) (auto simp: bcache_read_run_def Let_def)
  next
    case not: False
    obtain okd x d where "bd_read dev (ucast b * ucast (bc_spb c)) (n * bc_spb c) (bc_dev c) = (okd, x, d)" by (metis prod.exhaust)
    then have "c' = c\<lparr>bc_dev := d\<rparr>" using assms f False not by (simp add: bcache_read_run_def Let_def)
    then show ?thesis by simp
  qed
qed (use assms in \<open>simp add: bcache_read_run_def\<close>)

end
