(* ===== verification/Ext2_Inv.thy ===== *)
theory Ext2_Inv
  imports Ext2_Ops Heap_Ops Bcache_Res
begin

text \<open>
  What the file system relies on, and what its primitives do to the blocks it sees. \<open>fs_at sec L G B s\<close> says
  that state \<open>s\<close> is mounted on a device that works, that its heap has the blocks \<open>L\<close> in use, that its
  variables are \<open>G\<close>, and that block \<open>b\<close> has the contents \<open>B b\<close>. The superblock is written past the cache, so its own block
  is left out of \<open>B\<close> and must never be in the cache.
\<close>

subsection \<open>The state the operations start from\<close>

definition reads_ok :: "'d blockdev \<Rightarrow> bool" where
  "reads_ok dev \<longleftrightarrow> (\<forall>d lba n. fst (bd_read dev lba n d))"

record geom =
  g_mounted :: bool
  g_sb :: superblock
  g_bs :: u32
  g_is :: u32
  g_groups :: u32
  g_ft :: bool
  g_lock :: bool

definition geom_of :: "'d ext2 \<Rightarrow> geom" where
  "geom_of s = \<lparr>g_mounted = fs_mounted s, g_sb = fs_sb s, g_bs = fs_block_size s, g_is = fs_inode_size s,
     g_groups = fs_groups s, g_ft = fs_has_filetype s, g_lock = fs_lock s\<rparr>"

definition sb_blk :: "u32 \<Rightarrow> u32" where
  "sb_blk bs = (if bs = 1024 then 1 else 0)"

definition bs_ok :: "u32 \<Rightarrow> bool" where
  "bs_ok bs \<longleftrightarrow> bs \<in> {1024, 2048, 4096, 8192, 16384, 32768, 65536}"

definition fs_at :: "('d \<Rightarrow> nat \<Rightarrow> bytes) \<Rightarrow> (nat \<times> nat) set \<Rightarrow> geom \<Rightarrow> (u32 \<Rightarrow> bytes) \<Rightarrow> 'd ext2 \<Rightarrow> bool" where
  "fs_at sec L G B s \<longleftrightarrow> geom_of s = G \<and> bs_ok (g_bs G) \<and>
     (\<exists>dev c h. fs_dev s = Some dev \<and> fs_cache s = Some c \<and> fs_heap s = Some h \<and>
        dev_ok dev sec \<and> writes_ok dev \<and> reads_ok dev \<and> cache_ok sec c \<and> bc_block_size c = g_bs G \<and> heap_inv h L \<and>
        sb_blk (g_bs G) \<notin> resident c \<and> (\<forall>b. b \<noteq> sb_blk (g_bs G) \<longrightarrow> view sec c b = B b))"

text \<open>A block that may be read: neither it nor the three blocks read ahead are the superblock's.\<close>

definition data_blk :: "u32 \<Rightarrow> u32 \<Rightarrow> bool" where
  "data_blk bs b \<longleftrightarrow> unat (sb_blk bs) < unat b \<and> unat b + 3 < 2 ^ 32"

lemma bs_ok_facts:
  assumes "bs_ok bs"
  shows "unat bs mod 512 = 0" "1024 \<le> unat bs" "unat bs \<le> 65536" "bs \<noteq> 0" "unat (bs div 4) = unat bs div 4" "unat bs mod 4 = 0"
    "unat bs mod 32 = 0" "unat (bs div 512) = unat bs div 512"
  using assms by (auto simp: bs_ok_def unat_div)

lemma fs_at_geom:
  assumes "fs_at sec L G B s"
  shows "fs_sb s = g_sb G" "fs_block_size s = g_bs G" "fs_inode_size s = g_is G" "fs_groups s = g_groups G"
    "fs_has_filetype s = g_ft G" "fs_mounted s = g_mounted G" "fs_lock s = g_lock G" "bs_ok (g_bs G)"
  using assms by (auto simp: fs_at_def geom_of_def)

lemma fs_atE:
  assumes "fs_at sec L G B s"
  obtains dev c h where "geom_of s = G" "fs_dev s = Some dev" "fs_cache s = Some c" "fs_heap s = Some h" "dev_ok dev sec" "writes_ok dev"
    "reads_ok dev" "cache_ok sec c" "bc_block_size c = g_bs G" "heap_inv h L" "sb_blk (g_bs G) \<notin> resident c"
    "\<forall>b. b \<noteq> sb_blk (g_bs G) \<longrightarrow> view sec c b = B b"
  using assms unfolding fs_at_def by blast

lemma fs_atI:
  assumes "geom_of s = G" "bs_ok (g_bs G)" "fs_dev s = Some dev" "fs_cache s = Some c" "fs_heap s = Some h" "dev_ok dev sec" "writes_ok dev"
    "reads_ok dev" "cache_ok sec c" "bc_block_size c = g_bs G" "heap_inv h L" "sb_blk (g_bs G) \<notin> resident c"
    "\<forall>b. b \<noteq> sb_blk (g_bs G) \<longrightarrow> view sec c b = B b"
  shows "fs_at sec L G B s"
  unfolding fs_at_def using assms by blast

lemma fs_at_heap:
  assumes "fs_at sec L G B s" "heap_inv h' L'"
  shows "fs_at sec L' G B (s\<lparr>fs_heap := Some h'\<rparr>)"
proof -
  obtain dev c h where "geom_of s = G" "fs_dev s = Some dev" "fs_cache s = Some c" "fs_heap s = Some h" "dev_ok dev sec" "writes_ok dev"
    "reads_ok dev" "cache_ok sec c" "bc_block_size c = g_bs G" "heap_inv h L" "sb_blk (g_bs G) \<notin> resident c"
    "\<forall>b. b \<noteq> sb_blk (g_bs G) \<longrightarrow> view sec c b = B b" using assms(1) by (rule fs_atE)
  with assms(2) fs_at_geom(8) [OF assms(1)] show ?thesis by (intro fs_atI [where dev = dev and c = c and h = h']) (simp_all add: geom_of_def)
qed

lemma fs_at_cong: "fs_at sec L G B s \<Longrightarrow> (\<And>b. b \<noteq> sb_blk (g_bs G) \<Longrightarrow> B' b = B b) \<Longrightarrow> fs_at sec L G B' s"
  by (fastforce simp: fs_at_def)

subsection \<open>Memory\<close>

lemma heap_alloc_panic:
  assumes "heap_alloc h sz algn n = Inl e" "algn \<le> 16" "0 < sz" "0 \<le> n" "sz * n \<le> PTRDIFF_MAX"
  shows "e = oom"
proof -
  have "\<not> sz > PTRDIFF_MAX div n" if "0 < n" using zdiv_mono1 [OF assms(5) that] that by simp
  then have "\<exists>tot. alloc_small h tot = Inl e \<or> alloc_large h tot = Inl e"
    using assms(1-4) by (auto simp: heap_alloc_def Let_def split: if_splits)
  then show ?thesis
    by (auto simp: alloc_small_def alloc_large_def carve_def oom_def Let_def simp del: find_run.simps
        split: if_splits option.splits sum.splits prod.splits)
qed

lemma wp_new_buf:
  assumes "fs_at sec L G B s" "0 < sz \<and> sz \<le> 16 \<and> 0 \<le> n" "int sz * n \<le> 2 ^ 40"
  shows "wp (new_buf sz n) (\<lambda>(a, buf) s'. buf = replicate (sz * nat n) 0 \<and> (\<exists>k. (a, k) \<notin> L \<and> fs_at sec (insert (a, k) L) G B s')) s"
proof -
  obtain h where s: "fs_heap s = Some h" "heap_inv h L" using fs_atE [OF assms(1)] by metis
  show ?thesis
  proof (cases "heap_alloc h (int sz) (int sz) n")
    case (Inr r)
    obtain a h' where r: "r = (a, h')" by (cases r)
    have "fits (int sz) n" using assms(3) by (simp add: fits_def SLAB_SIZE_def)
    from heap_alloc_fresh [OF s(2) this Inr [unfolded r]] obtain k where
      k: "heap_inv h' (insert (a, k) L)" "max 1 (nat (int sz * n)) \<le> k" "\<forall>(b, j)\<in>L. a + k \<le> b \<or> b + j \<le> a"
      unfolding fresh_block_def by blast
    have "(a, k) \<notin> L" using k(2,3) by fastforce
    moreover have "fs_at sec (insert (a, k) L) G B (s\<lparr>fs_heap := Some h'\<rparr>)" by (rule fs_at_heap [OF assms(1) k(1)])
    ultimately show ?thesis using s(1) Inr r by (simp add: wp_def new_buf_def) blast
  next
    case (Inl e)
    have "e = oom" using assms(2,3) by (intro heap_alloc_panic [OF Inl]) (simp_all add: PTRDIFF_MAX_def)
    then show ?thesis using s(1) Inl by (simp add: wp_def new_buf_def)
  qed
qed

lemma wp_free_buf:
  assumes "fs_at sec (insert (a, k) L) G B s" "(a, k) \<notin> L"
  shows "wp (free_buf a) (\<lambda>_ s'. fs_at sec L G B s') s"
proof -
  obtain h where s: "fs_heap s = Some h" "heap_inv h (insert (a, k) L)" using fs_atE [OF assms(1)] by metis
  have "insert (a, k) L - {(a, k)} = L" using assms(2) by blast
  then have "heap_inv (heap_free h a) L" using heap_free_laws(1) [OF s(2), of a k] by simp
  then show ?thesis using fs_at_heap [OF assms(1)] s(1) by (simp add: wp_def free_buf_def)
qed

subsection \<open>Blocks\<close>

lemma bcache_read_Some:
  assumes "reads_ok dev" "bcache_read dev b c = Some (r, c')"
  shows "r \<noteq> None"
proof
  assume n: "r = None"
  obtain l where l: "lookup c b = Some l" using assms(2) by (cases "lookup c b") (simp_all add: bcache_read_def)
  then have "l = None" using assms(2) n by (cases l) (simp_all add: bcache_read_def Let_def)
  moreover obtain f c1 where "Bcache.fill dev b c = Some (f, c1)" using assms(2) l \<open>l = None\<close> by (cases "Bcache.fill dev b c") (auto simp: bcache_read_def)
  ultimately have f: "Bcache.fill dev b c = Some (None, c1)"
    using assms(2) l n by (cases f) (auto simp: bcache_read_def Let_def bind_eq_Some_conv)
  then obtain s c2 where k: "claim dev b (count_miss c) = Some (s, c2)" using l \<open>l = None\<close> by (auto simp: Bcache.fill_def bind_eq_Some_conv)
  have "fst (dev_read_block dev b c2)" using assms(1) by (simp add: reads_ok_def dev_read_block_def)
  then obtain x d where "dev_read_block dev b c2 = (True, x, d)" by (metis prod.collapse)
  with f l \<open>l = None\<close> k show False by (simp add: Bcache.fill_def)
qed

lemma data_blk_near:
  assumes "data_blk bs b"
  shows "sb_blk bs \<notin> {b, b + 1, b + 2, b + 3}"
proof -
  have "unat (b + of_nat k) = unat b + k" if "k \<le> 3" for k
    using assms that by (subst unat_add_small) (auto simp: data_blk_def unat_of_nat_small)
  from this [of 0] this [of 1] this [of 2] this [of 3] show ?thesis using assms by (auto simp: data_blk_def)
qed

lemma wp_read_block:
  assumes "fs_at sec L G B s" "data_blk (g_bs G) b" "length buf = unat (g_bs G)"
  shows "wp (read_block b buf) (\<lambda>(ok, x) s'. ok \<and> x = B b \<and> fs_at sec L G B s') s"
proof -
  obtain dev c h where s: "geom_of s = G" "fs_dev s = Some dev" "fs_cache s = Some c" "fs_heap s = Some h" "dev_ok dev sec" "writes_ok dev"
    "reads_ok dev" "cache_ok sec c" "bc_block_size c = g_bs G" "heap_inv h L" "sb_blk (g_bs G) \<notin> resident c"
    "\<forall>b. b \<noteq> sb_blk (g_bs G) \<longrightarrow> view sec c b = B b" using assms(1) by (rule fs_atE)
  obtain r c' where r: "bcache_read dev b c = Some (r, c')" "cache_ok sec c'" "view sec c' = view sec c" "same_geom c c'"
    "\<And>buf. r = Some buf \<Longrightarrow> buf = view sec c b" using bcache_read_ok [OF s(5,6,8)] by blast
  note near = data_blk_near [OF assms(2)]
  have B: "view sec c b = B b" using near by (intro s(12) [rule_format]) auto
  have rs: "r = Some (B b)" using bcache_read_Some [OF s(7) r(1)] r(5) B by auto
  have n: "length (B b) = unat (g_bs G)" using length_view [OF s(5,8), of b] B s(9) by simp
  have "sb_blk (g_bs G) \<notin> resident c'" using bcache_read_resident [OF r(1)] near s(11) by blast
  moreover have "bc_block_size c' = g_bs G" using r(4) s(9) by (simp add: same_geom_def)
  ultimately have "fs_at sec L G B (s\<lparr>fs_cache := Some c'\<rparr>)"
    using s r(2,3) fs_at_geom(8) [OF assms(1)] by (intro fs_atI [where dev = dev and c = c' and h = h]) (simp_all add: geom_of_def)
  moreover have "read_block b buf s = Some (Inr ((True, B b), s\<lparr>fs_cache := Some c'\<rparr>))"
    using s(2,3) r(1) rs n assms(3) by (simp add: read_block_def fill_buf_def)
  ultimately show ?thesis by (simp add: wp_def)
qed

lemma wp_write_block:
  assumes "fs_at sec L G B s" "b \<noteq> sb_blk (g_bs G)" "length buf = unat (g_bs G)"
  shows "wp (write_block b buf) (\<lambda>ok s'. ok \<and> fs_at sec L G (B(b := buf)) s') s"
proof -
  obtain dev c h where s: "geom_of s = G" "fs_dev s = Some dev" "fs_cache s = Some c" "fs_heap s = Some h" "dev_ok dev sec" "writes_ok dev"
    "reads_ok dev" "cache_ok sec c" "bc_block_size c = g_bs G" "heap_inv h L" "sb_blk (g_bs G) \<notin> resident c"
    "\<forall>b. b \<noteq> sb_blk (g_bs G) \<longrightarrow> view sec c b = B b" using assms(1) by (rule fs_atE)
  obtain c' where w: "bcache_write dev b buf c = Some c'" "cache_ok sec c'" "view sec c' = (view sec c)(b := buf)" "same_geom c c'"
    using bcache_write_ok [OF s(5,6,8), of buf b] assms(3) s(9) by auto
  have "sb_blk (g_bs G) \<notin> resident c'" using bcache_write_resident [OF w(1)] assms(2) s(11) by blast
  moreover have "bc_block_size c' = g_bs G" using w(4) s(9) by (simp add: same_geom_def)
  ultimately have "fs_at sec L G (B(b := buf)) (s\<lparr>fs_cache := Some c'\<rparr>)"
    using s w(2,3) fs_at_geom(8) [OF assms(1)] by (intro fs_atI [where dev = dev and c = c' and h = h]) (simp_all add: geom_of_def)
  then show ?thesis using s(2,3) w(1) by (simp add: wp_def write_block_def)
qed

lemma length_block: "fs_at sec L G B s \<Longrightarrow> b \<noteq> sb_blk (g_bs G) \<Longrightarrow> length (B b) = unat (g_bs G)"
  by (elim fs_atE) (metis length_view)

subsection \<open>The superblock\<close>

lemma length_superblock_pack [simp]: "length (superblock_pack b) = 104"
  by (simp add: superblock_pack_def)

text \<open>A write of sectors 2 and 3 past the cache.\<close>

lemma cache_ok_dev:
  assumes "cache_ok sec c" "\<And>b. b \<noteq> x \<Longrightarrow> block_at sec (bc_spb c) d b = block_at sec (bc_spb c) (bc_dev c) b" "x \<notin> resident c"
  shows "cache_ok sec (c\<lparr>bc_dev := d\<rparr>)" "b \<noteq> x \<Longrightarrow> view sec (c\<lparr>bc_dev := d\<rparr>) b = view sec c b"
proof -
  have "sl_blk c s \<noteq> x" if "s < unat (bc_nslots c)" "sl_valid c s" for s
    using assms(3) that by (auto simp: resident_def valid_slots_def)
  then show "cache_ok sec (c\<lparr>bc_dev := d\<rparr>)"
    using assms(1) assms(2) by (auto simp: cache_ok_def cache_inv_def hashed_def valid_slots_def)
  show "b \<noteq> x \<Longrightarrow> view sec (c\<lparr>bc_dev := d\<rparr>) b = view sec c b" using assms(2) by (simp add: view_def split: option.split)
qed

lemma sb_sectors:
  assumes "bs_ok bs" "unat bs = 512 * unat spb" "b \<noteq> sb_blk bs" "i \<in> {unat b * unat spb..<unat b * unat spb + unat spb}"
  shows "i < 2 \<or> 4 \<le> i"
proof (cases "bs = 1024")
  case True
  then have "unat spb = 2" using assms(2) by simp
  moreover have "unat b \<noteq> 1" using True assms(3) by (auto simp: sb_blk_def word_unat_eq_iff)
  ultimately have "unat spb = 2" "unat b \<noteq> 1" by blast+
  then show ?thesis using assms(4) by (cases "unat b = 0") auto
next
  case False
  then have "4 \<le> unat spb" using assms(1,2) by (auto simp: bs_ok_def)
  moreover have "1 \<le> unat b" using False assms(3) by (simp add: sb_blk_def unat_gt_0 Suc_le_eq)
  ultimately have "4 \<le> unat b * unat spb" using mult_le_mono [of 1 "unat b" 4 "unat spb"] by simp
  then show ?thesis using assms(4) by simp
qed

lemma wp_write_superblock:
  assumes "fs_at sec L G B s"
  shows "wp write_superblock (\<lambda>ok s'. fs_at sec L G B s') s"
proof -
  obtain dev c h where s: "geom_of s = G" "fs_dev s = Some dev" "fs_cache s = Some c" "fs_heap s = Some h" "dev_ok dev sec" "writes_ok dev"
    "reads_ok dev" "cache_ok sec c" "bc_block_size c = g_bs G" "heap_inv h L" "sb_blk (g_bs G) \<notin> resident c"
    "\<forall>b. b \<noteq> sb_blk (g_bs G) \<longrightarrow> view sec c b = B b" using assms by (rule fs_atE)
  note bs = fs_at_geom(8) [OF assms]
  have frame: "fs_at sec L G B (s\<lparr>fs_cache := Some (c\<lparr>bc_dev := d\<rparr>)\<rparr>)"
    if d: "\<And>i. i < 2 \<or> 4 \<le> i \<Longrightarrow> sec d i = sec (bc_dev c) i" for d
  proof -
    have "unat (g_bs G) = 512 * unat (bc_spb c)" using s(8,9) by (simp add: cache_ok_def cache_inv_def)
    note sectors = sb_sectors [OF bs this]
    have "block_at sec (bc_spb c) d b = block_at sec (bc_spb c) (bc_dev c) b" if "b \<noteq> sb_blk (g_bs G)" for b
      unfolding block_at_def using sectors [OF that] d by (intro arg_cong [of _ _ concat] map_cong) auto
    note c' = cache_ok_dev [OF s(8) this s(11)]
    show ?thesis
      using s c' bs by (intro fs_atI [where dev = dev and c = "c\<lparr>bc_dev := d\<rparr>" and h = h]) (simp_all add: geom_of_def)
  qed
  obtain x d where r: "bd_read dev 2 2 (bc_dev c) = (True, x, d)" using s(7) unfolding reads_ok_def by (metis prod.collapse)
  note rd = dev_ok_read [OF s(5) r]
  obtain buf where p: "put_bytes (x @ drop (length x) (replicate 1024 0)) 0 (superblock_pack (fs_sb s)) = Some buf" "length buf = 1024"
    using rd(1) by (simp add: put_bytes_def)
  obtain ok d' where w: "bd_write dev 2 2 buf d = (ok, d')" by fastforce
  have "sec d' i = sec (bc_dev c) i" if "i < 2 \<or> 4 \<le> i" for i
    using dev_ok_write(1) [OF s(5) w, of i] p(2) that rd(2) by simp
  then have "fs_at sec L G B (s\<lparr>fs_cache := Some (c\<lparr>bc_dev := d'\<rparr>)\<rparr>)" by (rule frame)
  moreover have "write_superblock s = Some (Inr (ok, s\<lparr>fs_cache := Some (c\<lparr>bc_dev := d'\<rparr>)\<rparr>))"
    using s(2,3) r rd(1) p(1) w
    by (simp add: write_superblock_def raw_read_def raw_write_def fill_buf_def bnd_def get_def chk_def ret_def)
  ultimately show ?thesis by (simp add: wp_def)
qed

subsection \<open>Steps of a run\<close>

text \<open>The primitives as rules for a run that goes on after them. The assumption on the state is the first
  premise, so that \<^verbatim>\<open>erule\<close> steps through a run.\<close>

lemma new_bnd:
  assumes "fs_at sec L G B s" "0 < sz \<and> sz \<le> 16 \<and> 0 \<le> n" "int sz * n \<le> 2 ^ 40"
    and "\<And>a k s'. (a, k) \<notin> L \<Longrightarrow> fs_at sec (insert (a, k) L) G B s' \<Longrightarrow> wp (f a (replicate (sz * nat n) 0)) Q s'"
  shows "wp (bnd (new_buf sz n) (\<lambda>(a, buf). f a buf)) Q s"
  by (rule wp_bndI [OF wp_new_buf [OF assms(1-3)]]) (use assms(4) in auto)

lemma free_bnd:
  assumes "fs_at sec (insert (a, k) L) G B s" "(a, k) \<notin> L" "\<And>s'. fs_at sec L G B s' \<Longrightarrow> wp (f ()) Q s'"
  shows "wp (bnd (free_buf a) f) Q s"
  by (rule wp_bndI [OF wp_free_buf [OF assms(1,2)]]) (use assms(3) in auto)

lemma read_bnd:
  assumes "fs_at sec L G B s" "data_blk (g_bs G) b" "length buf = unat (g_bs G)"
    and "\<And>s'. fs_at sec L G B s' \<Longrightarrow> wp (f True (B b)) Q s'"
  shows "wp (bnd (read_block b buf) (\<lambda>(ok, x). f ok x)) Q s"
  by (rule wp_bndI [OF wp_read_block [OF assms(1-3)]]) (use assms(4) in auto)

lemma write_bnd:
  assumes "fs_at sec L G B s" "b \<noteq> sb_blk (g_bs G)" "length buf = unat (g_bs G)"
    and "\<And>s'. fs_at sec L G (B(b := buf)) s' \<Longrightarrow> wp (f True) Q s'"
  shows "wp (bnd (write_block b buf) f) Q s"
  by (rule wp_bndI [OF wp_write_block [OF assms(1-3)]]) (use assms(4) in auto)

lemma write_superblock_bnd:
  assumes "fs_at sec L G B s" "\<And>ok s'. fs_at sec L G B s' \<Longrightarrow> wp (f ok) Q s'"
  shows "wp (bnd write_superblock f) Q s"
  by (rule wp_bndI [OF wp_write_superblock [OF assms(1)]]) (use assms(2) in auto)

lemma scratch_sizes:
  assumes "bs_ok bs"
  shows "uint bs \<le> 1099511627776" "4 * uint (bs div 4) \<le> 1099511627776" "4 * unat (bs div 4) = unat bs"
  using assms by (auto simp: bs_ok_def)

end
