(* ===== verification/Ext2_Pack.thy ===== *)
theory Ext2_Pack
  imports Ext2_Ops
begin

text \<open>
  The on-disk structures of the file system: packing and unpacking are inverse, so that what a function writes
  into a block is what it reads back from there.
\<close>

subsection \<open>Arrays of 32-bit integers\<close>

lemma words32_append4: "length p = 4 \<Longrightarrow> words32 (p @ q) = words32 p @ words32 q"
  by (auto simp: numeral_eq_Suc length_Suc_conv)

lemma words32_le32_bytes [simp]: "words32 (le32_bytes w) = [w]" "words32 (le32_bytes w @ q) = w # words32 q"
  by (simp_all add: le32_bytes_def)

lemma words32_words32_bytes [simp]: "words32 (words32_bytes ws) = ws"
  by (induction ws) (simp_all add: words32_bytes_def)

lemma length_words32_bytes [simp]: "length (words32_bytes ws) = 4 * length ws"
  by (induction ws) (simp_all add: words32_bytes_def)

lemma length_words32 [simp]: "length (words32 p) = length p div 4"
  by (induction p rule: words32.induct) auto

lemma words32_zero: "words32 (replicate (4 * n) 0) = replicate n 0"
proof (induction n)
  case (Suc n)
  have "replicate (4 * Suc n) (0 :: u8) = 0 # 0 # 0 # 0 # replicate (4 * n) 0" by (simp add: numeral_eq_Suc)
  with Suc show ?case by (simp add: le32_def be32_def)
qed simp

lemma words32_drop: "words32 (drop (4 * n) p) = drop n (words32 p)"
proof (induction n arbitrary: p)
  case (Suc n)
  show ?case
  proof (cases p rule: words32.cases)
    case (1 a b c d q)
    have "drop (4 * Suc n) p = drop (4 * n) (drop 4 p)" by (simp add: add.commute)
    with 1 Suc [of q] show ?thesis by simp
  qed simp_all
qed simp

lemma words32_take: "words32 (take (4 * n) p) = take n (words32 p)"
proof (induction n arbitrary: p)
  case (Suc n)
  show ?case
  proof (cases p rule: words32.cases)
    case (1 a b c d q)
    have "take (4 * Suc n) p = take 4 p @ take (4 * n) (drop 4 p)" using take_add [of 4 "4 * n" p] by simp
    with 1 Suc [of q] show ?thesis by simp
  qed simp_all
qed simp

lemma words32_append: "length p mod 4 = 0 \<Longrightarrow> words32 (p @ q) = words32 p @ words32 q"
  by (induction p rule: words32.induct) auto

lemma words32_put:
  assumes "put_bytes p (4 * n) (le32_bytes w) = Some p'" "length p mod 4 = 0"
  shows "words32 p' = (words32 p)[n := w]" "n < length (words32 p)"
proof -
  have n: "4 * n + 4 \<le> length p" and p': "p' = store p (4 * n) (le32_bytes w)" using assms(1) by (auto simp: put_bytes_def split: if_splits)
  then show l: "n < length (words32 p)" by simp
  have "words32 p' = take n (words32 p) @ w # drop (Suc n) (words32 p)"
    using n words32_drop [of "Suc n" p] by (simp add: p' store_def words32_append words32_take min_def add.commute)
  then show "words32 p' = (words32 p)[n := w]" using l by (simp add: upd_conv_take_nth_drop)
qed

subsection \<open>The structures\<close>

lemma inode_pack_length [simp]: "length (i_block i) = 15 \<Longrightarrow> length (inode_pack i) = 112"
  by (simp add: inode_pack_def)

lemma inode_unpack_pack [simp]:
  assumes "length (i_block i) = 15"
  shows "inode_unpack (inode_pack i) = Some i"
proof -
  have w: "length (words32_bytes (i_block i)) = 60" using assms by simp
  have b: "get_bytes (inode_pack i) 40 60 = Some (words32_bytes (i_block i))"
    using assms by (simp add: get_bytes_def bslice_def inode_pack_def le16_bytes_def le32_bytes_def)
  show ?thesis unfolding inode_unpack_def b
    using w by (simp add: get_le16_def get_le32_def inode_pack_def le16_bytes_def le32_bytes_def nth_append)
qed

lemma group_desc_pack_length [simp]: "length (bg_reserved g) = 3 \<Longrightarrow> length (group_desc_pack g) = 32"
  by (simp add: group_desc_pack_def)

lemma group_desc_unpack_pack [simp]:
  assumes "length (bg_reserved g) = 3"
  shows "group_desc_unpack (group_desc_pack g) = Some g"
proof -
  have b: "get_bytes (group_desc_pack g) 20 12 = Some (words32_bytes (bg_reserved g))"
    using assms by (simp add: get_bytes_def bslice_def group_desc_pack_def le16_bytes_def le32_bytes_def)
  show ?thesis unfolding group_desc_unpack_def b
    using assms by (simp add: get_le16_def get_le32_def group_desc_pack_def le16_bytes_def le32_bytes_def)
qed

lemma inode_unpack_Some:
  assumes "length p = 112"
  obtains i where "inode_unpack p = Some i" "length (i_block i) = 15"
  using assms by (auto simp: inode_unpack_def get_le16_def get_le32_def get_bytes_def)

lemma group_desc_unpack_Some:
  assumes "length p = 32"
  obtains g where "group_desc_unpack p = Some g" "length (bg_reserved g) = 3"
  using assms by (auto simp: group_desc_unpack_def get_le16_def get_le32_def get_bytes_def)

lemma superblock_unpack_pack: "superblock_unpack (superblock_pack b @ r) = Some b"
  by (simp add: superblock_unpack_def superblock_pack_def get_le16_def get_le32_def le16_bytes_def le32_bytes_def)

text \<open>A structure stored in a block and read back, and one next to it.\<close>

lemma put_bytes_Some: "put_bytes p off x = Some p' \<longleftrightarrow> off + length x \<le> length p \<and> p' = store p off x"
  by (auto simp: put_bytes_def)

lemma get_put_same: "put_bytes p off x = Some p' \<Longrightarrow> get_bytes p' off (length x) = Some x"
  by (simp add: put_bytes_Some get_bytes_def bslice_store_same)

lemma get_put_other:
  "put_bytes p off x = Some p' \<Longrightarrow> off' + n \<le> off \<or> off + length x \<le> off' \<Longrightarrow> get_bytes p' off' n = get_bytes p off' n"
  by (auto simp: put_bytes_Some get_bytes_def bslice_store_other)

lemma length_put: "put_bytes p off x = Some p' \<Longrightarrow> length p' = length p"
  by (auto simp: put_bytes_Some)

lemma inode_at_put: "put_bytes p off (inode_pack i) = Some p' \<Longrightarrow> length (i_block i) = 15 \<Longrightarrow> inode_at p' off = Some i"
  using get_put_same [of p off "inode_pack i" p'] by (simp add: inode_at_def)

lemma inode_at_put_other:
  "put_bytes p off (inode_pack i) = Some p' \<Longrightarrow> length (i_block i) = 15 \<Longrightarrow> off' + 112 \<le> off \<or> off + 112 \<le> off' \<Longrightarrow>
   inode_at p' off' = inode_at p off'"
  by (simp add: inode_at_def get_put_other)

lemma group_desc_at_put: "put_bytes p off (group_desc_pack g) = Some p' \<Longrightarrow> length (bg_reserved g) = 3 \<Longrightarrow> group_desc_at p' off = Some g"
  using get_put_same [of p off "group_desc_pack g" p'] by (simp add: group_desc_at_def)

lemma group_desc_at_put_other:
  "put_bytes p off (group_desc_pack g) = Some p' \<Longrightarrow> length (bg_reserved g) = 3 \<Longrightarrow> off' + 32 \<le> off \<or> off + 32 \<le> off' \<Longrightarrow>
   group_desc_at p' off' = group_desc_at p off'"
  by (simp add: group_desc_at_def get_put_other)

lemma inode_at_Some:
  assumes "off + 112 \<le> length p"
  obtains i where "inode_at p off = Some i" "length (i_block i) = 15"
proof -
  have g: "get_bytes p off 112 = Some (bslice p off 112)" "length (bslice p off 112) = 112" using assms by (simp_all add: get_bytes_def)
  from inode_unpack_Some [OF g(2)] show thesis using that g(1) by (auto simp: inode_at_def)
qed

lemma group_desc_at_Some:
  assumes "off + 32 \<le> length p"
  obtains g where "group_desc_at p off = Some g" "length (bg_reserved g) = 3"
proof -
  have g: "get_bytes p off 32 = Some (bslice p off 32)" "length (bslice p off 32) = 32" using assms by (simp_all add: get_bytes_def)
  from group_desc_unpack_Some [OF g(2)] show thesis using that g(1) by (auto simp: group_desc_at_def)
qed

end
