(* ===== verification/Ext2_Read.thy ===== *)
theory Ext2_Read
  imports Ext2_Inv Ext2_Pack
begin

text \<open>
  Reading through the file system: group descriptors, inodes, the block map of a file and its contents, each
  as a function of the variables \<open>G\<close> and the blocks \<open>B\<close>. The block map has two implementations: \<^const>\<open>block_of\<close> finds one
  block, \<^const>\<open>map_blocks\<close> all of them with one read of every indirect block; they agree.
\<close>

subsection \<open>Group descriptors and inodes\<close>

definition gd_blk :: "geom \<Rightarrow> u32 \<Rightarrow> u32" where
  "gd_blk G g = s_first_data_block (g_sb G) + 1 + g * 32 div g_bs G"

definition gd_off :: "geom \<Rightarrow> u32 \<Rightarrow> nat" where
  "gd_off G g = unat (g * 32 mod g_bs G)"

definition gd_of :: "geom \<Rightarrow> (u32 \<Rightarrow> bytes) \<Rightarrow> u32 \<Rightarrow> group_desc" where
  "gd_of G B g = the (group_desc_at (B (gd_blk G g)) (gd_off G g))"

lemma dvd_unat_mult:
  assumes "unat (k :: 'a::len word) dvd 2 ^ LENGTH('a)"
  shows "unat k dvd unat (g * k)"
  using assms by (simp add: unat_word_ariths(2) dvd_mod)

lemma dvd_off_le:
  assumes "k dvd x" "k dvd b" "0 < b"
  shows "x mod b + k \<le> (b :: nat)"
proof -
  obtain q p where q: "x mod b = k * q" and p: "b = k * p" using assms(1,2) by (meson dvdE dvd_mod)
  then have "q < p" using mod_less_divisor [OF assms(3), of x] by simp
  then have "k * Suc q \<le> k * p" by (intro mult_le_mono2) simp
  then show ?thesis using q p by simp
qed

lemma gd_off_le:
  assumes "bs_ok (g_bs G)"
  shows "gd_off G g + 32 \<le> unat (g_bs G)"
proof -
  note bs = bs_ok_facts [OF assms]
  have "unat (32 :: u32) dvd unat (g * 32)" by (rule dvd_unat_mult) simp
  then have "32 dvd unat (g * 32)" by simp
  moreover have "32 dvd unat (g_bs G)" using bs(7) by (rule dvd_eq_mod_eq_0 [THEN iffD2])
  moreover have "0 < unat (g_bs G)" using bs(2) by simp
  ultimately show ?thesis unfolding gd_off_def unat_mod by (rule dvd_off_le)
qed

lemma gd_of_at:
  assumes "bs_ok (g_bs G)" "length (B (gd_blk G g)) = unat (g_bs G)"
  shows "group_desc_at (B (gd_blk G g)) (gd_off G g) = Some (gd_of G B g)" "length (bg_reserved (gd_of G B g)) = 3"
proof -
  have "gd_off G g + 32 \<le> length (B (gd_blk G g))" using gd_off_le [OF assms(1), of g] assms(2) by simp
  then obtain x where "group_desc_at (B (gd_blk G g)) (gd_off G g) = Some x" "length (bg_reserved x) = 3" by (rule group_desc_at_Some)
  then show "group_desc_at (B (gd_blk G g)) (gd_off G g) = Some (gd_of G B g)" "length (bg_reserved (gd_of G B g)) = 3"
    by (simp_all add: gd_of_def)
qed

lemma data_blk_sb: "data_blk bs b \<Longrightarrow> b \<noteq> sb_blk bs"
  by (auto simp: data_blk_def)

lemma wp_read_group_desc:
  assumes "fs_at sec L G B s" "data_blk (g_bs G) (gd_blk G g)"
  shows "wp (read_group_desc g) (\<lambda>r s'. r = Some (gd_of G B g) \<and> fs_at sec L G B s') s"
proof -
  note geo = fs_at_geom [OF assms(1)]
  note ok = geo(8)
  note bs = bs_ok_facts [OF ok] scratch_sizes [OF ok]
  note gd = gd_of_at(1) [of G B g, OF ok length_block [OF assms(1) data_blk_sb [OF assms(2)]]]
  have eq: "s_first_data_block (g_sb G) + 1 + g * 32 div g_bs G = gd_blk G g" "unat (g * 32 mod g_bs G) = gd_off G g"
    by (simp_all add: gd_blk_def gd_off_def)
  show ?thesis
    unfolding read_group_desc_def using assms
    apply (simp add: geo eq bs)
    apply (erule new_bnd, simp, simp add: bs, simp add: bs)
    apply (erule read_bnd, simp, simp add: bs)
    apply (simp add: geo eq gd)
    apply (erule free_bnd, assumption, simp)
    done
qed

lemma read_gd_bnd:
  assumes "fs_at sec L G B s" "data_blk (g_bs G) (gd_blk G g)" "\<And>s'. fs_at sec L G B s' \<Longrightarrow> wp (f (Some (gd_of G B g))) Q s'"
  shows "wp (bnd (read_group_desc g) f) Q s"
  by (rule wp_bndI [OF wp_read_group_desc [OF assms(1,2)]]) (use assms(3) in auto)

text \<open>Where inode \<open>ino\<close> is stored.\<close>

definition ino_grp :: "geom \<Rightarrow> u32 \<Rightarrow> u32" where
  "ino_grp G ino = (ino - 1) div s_inodes_per_group (g_sb G)"

definition ino_byte :: "geom \<Rightarrow> u32 \<Rightarrow> u32" where
  "ino_byte G ino = (ino - 1) mod s_inodes_per_group (g_sb G) * g_is G"

definition ino_blk :: "geom \<Rightarrow> (u32 \<Rightarrow> bytes) \<Rightarrow> u32 \<Rightarrow> u32" where
  "ino_blk G B ino = bg_inode_table (gd_of G B (ino_grp G ino)) + ino_byte G ino div g_bs G"

definition ino_off :: "geom \<Rightarrow> u32 \<Rightarrow> nat" where
  "ino_off G ino = unat (ino_byte G ino mod g_bs G)"

definition inode_of :: "geom \<Rightarrow> (u32 \<Rightarrow> bytes) \<Rightarrow> u32 \<Rightarrow> inode" where
  "inode_of G B ino = the (inode_at (B (ino_blk G B ino)) (ino_off G ino))"

text \<open>The inode size divides the block size, so no inode crosses a block.\<close>

definition geom_ok :: "geom \<Rightarrow> bool" where
  "geom_ok G \<longleftrightarrow> s_inodes_per_group (g_sb G) \<noteq> 0 \<and> s_blocks_per_group (g_sb G) \<noteq> 0 \<and> 112 \<le> unat (g_is G) \<and> unat (g_is G) dvd unat (g_bs G)"

definition ino_ok :: "geom \<Rightarrow> (u32 \<Rightarrow> bytes) \<Rightarrow> u32 \<Rightarrow> bool" where
  "ino_ok G B ino \<longleftrightarrow> ino \<noteq> 0 \<and> data_blk (g_bs G) (gd_blk G (ino_grp G ino)) \<and> data_blk (g_bs G) (ino_blk G B ino)"

lemma ino_off_dvd:
  assumes "geom_ok G" "bs_ok (g_bs G)"
  shows "ino_off G ino + unat (g_is G) \<le> unat (g_bs G)" "unat (g_is G) dvd ino_off G ino"
proof -
  have d: "unat (g_is G) dvd unat (g_bs G)" using assms(1) by (simp add: geom_ok_def)
  moreover have "unat (g_bs G) dvd 2 ^ 32" using assms(2) by (auto simp: bs_ok_def)
  ultimately have "unat (g_is G) dvd 2 ^ LENGTH(32)" by (simp only: dvd_trans len_of_numeral_defs) (simp add: dvd_trans)
  then have b: "unat (g_is G) dvd unat (ino_byte G ino)" unfolding ino_byte_def by (rule dvd_unat_mult)
  have "0 < unat (g_bs G)" using bs_ok_facts(2) [OF assms(2)] by simp
  with b d show "ino_off G ino + unat (g_is G) \<le> unat (g_bs G)" unfolding ino_off_def unat_mod by (rule dvd_off_le)
  show "unat (g_is G) dvd ino_off G ino" unfolding ino_off_def unat_mod using b d by (rule dvd_mod)
qed

lemma inode_of_at:
  assumes "geom_ok G" "bs_ok (g_bs G)" "length (B (ino_blk G B ino)) = unat (g_bs G)"
  shows "inode_at (B (ino_blk G B ino)) (ino_off G ino) = Some (inode_of G B ino)" "length (i_block (inode_of G B ino)) = 15"
proof -
  have "ino_off G ino + 112 \<le> length (B (ino_blk G B ino))" using ino_off_dvd(1) [OF assms(1,2), of ino] assms(1,3) by (simp add: geom_ok_def)
  then obtain x where "inode_at (B (ino_blk G B ino)) (ino_off G ino) = Some x" "length (i_block x) = 15" by (rule inode_at_Some)
  then show "inode_at (B (ino_blk G B ino)) (ino_off G ino) = Some (inode_of G B ino)" "length (i_block (inode_of G B ino)) = 15"
    by (simp_all add: inode_of_def)
qed

lemma wp_read_inode:
  assumes "fs_at sec L G B s" "geom_ok G" "ino_ok G B ino"
  shows "wp (read_inode ino) (\<lambda>r s'. r = Some (inode_of G B ino) \<and> fs_at sec L G B s') s"
proof -
  note geo = fs_at_geom [OF assms(1)]
  note bs = bs_ok_facts [OF geo(8)] scratch_sizes [OF geo(8)]
  have d: "ino \<noteq> 0" "data_blk (g_bs G) (gd_blk G (ino_grp G ino))" "data_blk (g_bs G) (ino_blk G B ino)" "s_inodes_per_group (g_sb G) \<noteq> 0"
    using assms(2,3) by (simp_all add: ino_ok_def geom_ok_def)
  note i = inode_of_at(1) [OF assms(2) geo(8), of B ino, OF length_block [OF assms(1) data_blk_sb [OF d(3)]]]
  have eq: "(ino - 1) div s_inodes_per_group (g_sb G) = ino_grp G ino"
    "(ino - 1) mod s_inodes_per_group (g_sb G) * g_is G = ino_byte G ino"
    "bg_inode_table (gd_of G B (ino_grp G ino)) + ino_byte G ino div g_bs G = ino_blk G B ino"
    "unat (ino_byte G ino mod g_bs G) = ino_off G ino"
    by (simp_all add: ino_grp_def ino_byte_def ino_blk_def ino_off_def)
  show ?thesis
    unfolding read_inode_def using assms(1)
    apply (simp add: geo eq bs d)
    apply (erule read_gd_bnd, simp add: d)
    apply (simp add: eq)
    apply (erule new_bnd, simp, simp add: bs, simp add: bs)
    apply (erule read_bnd, simp add: eq d, simp add: bs)
    apply (simp add: eq geo i)
    apply (erule free_bnd, assumption, simp)
    done
qed

lemma read_inode_bnd:
  assumes "fs_at sec L G B s" "geom_ok G" "ino_ok G B ino" "\<And>s'. fs_at sec L G B s' \<Longrightarrow> wp (f (Some (inode_of G B ino))) Q s'"
  shows "wp (bnd (read_inode ino) f) Q s"
  by (rule wp_bndI [OF wp_read_inode [OF assms(1-3)]]) (use assms(4) in auto)

subsection \<open>The blocks of a file\<close>

text \<open>Entry \<open>n\<close> of an indirect block; block 0 stands for a block full of holes.\<close>

definition ind_at :: "(u32 \<Rightarrow> bytes) \<Rightarrow> u32 \<Rightarrow> nat \<Rightarrow> u32" where
  "ind_at B b n = (if b = 0 then 0 else words32 (B b) ! n)"

definition blk_at :: "u32 \<Rightarrow> (u32 \<Rightarrow> bytes) \<Rightarrow> inode \<Rightarrow> nat \<Rightarrow> u32" where
  "blk_at bs B i n =
     (let per = unat bs div 4 in
      if n < 12 then i_block i ! n
      else if n < 12 + per then ind_at B (i_block i ! 12) (n - 12)
      else let m = n - 12 - per in
        if m < per * per then ind_at B (ind_at B (i_block i ! 13) (m div per)) (m mod per) else 0)"

definition inode_ok :: "u32 \<Rightarrow> (u32 \<Rightarrow> bytes) \<Rightarrow> inode \<Rightarrow> bool" where
  "inode_ok bs B i \<longleftrightarrow> length (i_block i) = 15 \<and> (i_block i ! 12 \<noteq> 0 \<longrightarrow> data_blk bs (i_block i ! 12)) \<and>
     (i_block i ! 13 \<noteq> 0 \<longrightarrow> data_blk bs (i_block i ! 13) \<and>
        (\<forall>w\<in>set (words32 (B (i_block i ! 13))). w \<noteq> 0 \<longrightarrow> data_blk bs w))"

lemma per_facts:
  assumes "bs_ok bs"
  shows "unat (bs div 4) = unat bs div 4" "unat (bs div 4 * (bs div 4)) = unat bs div 4 * (unat bs div 4)"
    "256 \<le> unat bs div 4" "unat bs div 4 \<le> 16384" "unat (12 + bs div 4) = 12 + unat bs div 4" "4 * (unat bs div 4) = unat bs"
  using assms by (auto simp: bs_ok_def)

lemma block_of_single:
  assumes "fs_at sec L G B s" "inode_ok (g_bs G) B i" "\<not> n < 12" "n - 12 < g_bs G div 4"
  shows "wp (block_of i n) (\<lambda>b s'. b = ind_at B (i_block i ! 12) (unat n - 12) \<and> fs_at sec L G B s') s"
proof -
  note geo = fs_at_geom [OF assms(1)]
  note bs = bs_ok_facts [OF geo(8)] scratch_sizes [OF geo(8)]
  have len: "length (i_block i) = 15" using assms(2) by (simp add: inode_ok_def)
  have m: "unat (n - 12) = unat n - 12" using assms(3) by (simp add: unat_sub_small word_less_nat_alt)
  then have n: "unat n - 12 < unat (g_bs G) div 4" using assms(4) per_facts(1) [OF geo(8)] by (simp add: word_less_nat_alt)
  have d: "data_blk (g_bs G) (i_block i ! 12)" if "i_block i ! 12 \<noteq> 0" using assms(2) that by (simp add: inode_ok_def)
  have w: "unat n - 12 < length (words32 (B (i_block i ! 12)))" if "i_block i ! 12 \<noteq> 0"
    using length_block [OF assms(1) data_blk_sb [OF d [OF that]]] n by simp
  show ?thesis
    using assms(1) unfolding block_of_def
    apply (simp add: geo assms(3))
    apply (erule new_bnd, simp, simp add: bs, simp add: bs len assms(4))
    apply (cases "i_block i ! 12 = 0")
     apply (simp add: ind_at_def)
     apply (erule free_bnd, assumption, simp)
    apply simp
    apply (erule read_bnd, simp add: d, simp add: per_facts(6) [OF geo(8)])
    apply (use w in \<open>simp add: ind_at_def m\<close>)
    apply (erule free_bnd, assumption, simp)
    done
qed

lemma block_of_double:
  assumes "fs_at sec L G B s" "inode_ok (g_bs G) B i" "\<not> n < 12" "\<not> n - 12 < g_bs G div 4"
  defines "per \<equiv> unat (g_bs G) div 4" and "m \<equiv> unat n - 12 - unat (g_bs G) div 4"
  shows "wp (block_of i n) (\<lambda>b s'. b = (if m < per * per then ind_at B (ind_at B (i_block i ! 13) (m div per)) (m mod per) else 0) \<and>
    fs_at sec L G B s') s"
proof -
  note geo = fs_at_geom [OF assms(1)]
  note bs = bs_ok_facts [OF geo(8)] scratch_sizes [OF geo(8)]
  note pf = per_facts [OF geo(8), folded per_def]
  let ?b = "i_block i ! 13" and ?m = "n - 12 - g_bs G div 4"
  have len: "length (i_block i) = 15" using assms(2) by (simp add: inode_ok_def)
  have "unat (n - 12) = unat n - 12" using assms(3) by (simp add: unat_sub_small word_less_nat_alt)
  then have m: "unat ?m = m" using assms(4) pf(1) by (simp add: unat_sub_small word_less_nat_alt m_def per_def)
  have lt: "?m < g_bs G div 4 * (g_bs G div 4) \<longleftrightarrow> m < per * per" by (simp only: word_less_nat_alt m pf(2))
  have ix: "unat (?m div (g_bs G div 4)) = m div per" "unat (?m mod (g_bs G div 4)) = m mod per" by (simp_all only: unat_div unat_mod m) (simp_all add: per_def)
  have words: "length (words32 (B b)) = per" if "data_blk (g_bs G) b" for b
    using length_block [OF assms(1) data_blk_sb [OF that]] by (simp add: per_def)
  have q: "m div per < per" if "m < per * per" using that by (simp add: less_mult_imp_div_less)
  have r: "m mod per < per" using pf(3) by simp
  show ?thesis
  proof (cases "m < per * per \<and> ?b \<noteq> 0")
    case False
    then have "(if m < per * per then ind_at B (ind_at B ?b (m div per)) (m mod per) else 0) = 0" by (auto simp: ind_at_def)
    then show ?thesis
      using assms(1) False unfolding block_of_def
      apply (simp add: geo assms(3))
      apply (erule new_bnd, simp, simp add: bs, simp add: bs len assms(4) lt Let_def)
      apply (cases "m < per * per"; simp; erule free_bnd, assumption, simp)
      done
  next
    case True
    then have d: "data_blk (g_bs G) ?b" using assms(2) by (simp add: inode_ok_def)
    define dbl where "dbl = words32 (B ?b) ! (m div per)"
    have "dbl \<in> set (words32 (B ?b))" using q True words [OF d] by (simp add: dbl_def)
    then have d2: "data_blk (g_bs G) dbl" if "dbl \<noteq> 0" using assms(2) True that by (simp add: inode_ok_def)
    have w: "m div per < length (words32 (B ?b))" using q True words [OF d] by simp
    have w2: "m mod per < length (words32 (B dbl))" if "dbl \<noteq> 0" using r words [OF d2 [OF that]] by simp
    have at: "(if m < per * per then ind_at B (ind_at B ?b (m div per)) (m mod per) else 0) = ind_at B dbl (m mod per)"
      using True by (simp add: ind_at_def dbl_def)
    show ?thesis
      using assms(1) True unfolding block_of_def at
      apply (simp add: geo assms(3))
      apply (erule new_bnd, simp, simp add: bs, simp add: bs len assms(4) lt Let_def)
      apply (erule read_bnd, rule d, simp add: per_facts(6) [OF geo(8)])
      apply (use w in \<open>simp add: ix del: length_words32 flip: dbl_def\<close>)
      apply (cases "dbl = 0")
       apply (simp add: ind_at_def)
       apply (erule free_bnd, assumption, simp)
      apply simp
      apply (erule read_bnd, erule d2, simp add: length_block [OF assms(1) data_blk_sb [OF d]])
      apply (use w2 in \<open>simp add: ind_at_def ix del: length_words32\<close>)
      apply (erule free_bnd, assumption, simp)
      done
  qed
qed

lemma wp_block_of:
  assumes "fs_at sec L G B s" "inode_ok (g_bs G) B i"
  shows "wp (block_of i n) (\<lambda>b s'. b = blk_at (g_bs G) B i (unat n) \<and> fs_at sec L G B s') s"
proof -
  note geo = fs_at_geom [OF assms(1)]
  have lt12: "n < 12 \<longleftrightarrow> unat n < 12" by (simp add: word_less_nat_alt)
  have single: "n - 12 < g_bs G div 4 \<longleftrightarrow> unat n < 12 + unat (g_bs G) div 4" if "\<not> n < 12"
    using that per_facts(1) [OF geo(8)] by (auto simp: unat_sub_small word_less_nat_alt)
  consider "n < 12" | "\<not> n < 12" "n - 12 < g_bs G div 4" | "\<not> n < 12" "\<not> n - 12 < g_bs G div 4" by blast
  then show ?thesis
  proof cases
    case 1
    then show ?thesis using assms(1,2) by (simp add: block_of_def lt12 blk_at_def inode_ok_def)
  next
    case 2
    with block_of_single [OF assms] show ?thesis using single lt12 by (simp add: blk_at_def)
  next
    case 3
    then have "\<not> unat n < 12" "\<not> unat n < 12 + unat (g_bs G) div 4" using single lt12 by simp_all
    then have "blk_at (g_bs G) B i (unat n) =
        (let per = unat (g_bs G) div 4; m = unat n - 12 - unat (g_bs G) div 4 in
         if m < per * per then ind_at B (ind_at B (i_block i ! 13) (m div per)) (m mod per) else 0)"
      by (simp only: blk_at_def Let_def if_False)
    then show ?thesis using block_of_double [OF assms 3] by (simp only: Let_def)
  qed
qed

lemma block_of_bnd:
  assumes "fs_at sec L G B s" "inode_ok (g_bs G) B i" "\<And>s'. fs_at sec L G B s' \<Longrightarrow> wp (f (blk_at (g_bs G) B i (unat n))) Q s'"
  shows "wp (bnd (block_of i n) f) Q s"
  by (rule wp_bndI [OF wp_block_of [OF assms(1,2)]]) (use assms(3) in auto)

text \<open>The copy loops of \<^const>\<open>map_blocks\<close>.\<close>

lemma copy_words_ok:
  assumes "unat k + length ws < 2 ^ 32" "unat n \<le> length phys"
  shows "\<exists>q. copy_words n k ws phys = Some q \<and> length q = length phys \<and>
    (\<forall>x<length phys. q ! x = (if unat k \<le> x \<and> x < unat k + length ws \<and> x < unat n then ws ! (x - unat k) else phys ! x))"
  using assms
proof (induction ws arbitrary: k phys)
  case (Cons w ws)
  show ?case
  proof (cases "k < n")
    case True
    then have kn: "unat k < length phys" "unat k < unat n" using Cons.prems(2) by (simp_all add: word_less_nat_alt)
    have k1: "unat (k + 1) = unat k + 1" using Cons.prems(1) by (subst unat_add_small) simp_all
    obtain q where q: "copy_words n (k + 1) ws (phys[unat k := w]) = Some q" "length q = length phys"
      "\<forall>x<length phys. q ! x = (if unat k + 1 \<le> x \<and> x < unat k + 1 + length ws \<and> x < unat n then ws ! (x - (unat k + 1)) else phys[unat k := w] ! x)"
      using Cons.IH [of "k + 1" "phys[unat k := w]"] Cons.prems k1 by auto
    show ?thesis
    proof (intro exI conjI allI impI)
      show "copy_words n k (w # ws) phys = Some q" using True kn q(1) by (simp add: wr_def)
      fix x assume "x < length phys"
      then show "q ! x = (if unat k \<le> x \<and> x < unat k + length (w # ws) \<and> x < unat n then (w # ws) ! (x - unat k) else phys ! x)"
        using q(3) kn by (cases "x = unat k") (auto simp: nth_Cons' le_less_Suc_eq not_less)
    qed (rule q(2))
  qed (auto simp: word_less_nat_alt)
qed auto

lemma copy_words_bnd:
  assumes "unat k + length ws < 2 ^ 32" "unat n \<le> length phys"
    and "\<And>q. length q = length phys \<Longrightarrow>
      (\<And>x. x < length phys \<Longrightarrow> q ! x = (if unat k \<le> x \<and> x < unat k + length ws \<and> x < unat n then ws ! (x - unat k) else phys ! x)) \<Longrightarrow> wp (f q) Q s"
  shows "wp (bnd (chk (copy_words n k ws phys)) f) Q s"
  using copy_words_ok [OF assms(1,2)] assms(3) by auto

lemma grid_index:
  assumes "12 + p + j * p \<le> x" "x < 12 + p + Suc j * p"
  shows "(x - 12 - p) div p = j" "(x - 12 - p) mod p = x - (12 + p + j * p)"
proof -
  define r where "r = x - (12 + p + j * p)"
  then have "x - 12 - p = j * p + r" "r < p" using assms by simp_all
  then show "(x - 12 - p) div p = j" "(x - 12 - p) mod p = x - (12 + p + j * p)" unfolding r_def by simp_all
qed

lemma wp_map_double:
  assumes "inode_ok (g_bs G) B i" "i_block i ! 13 \<noteq> 0" "l1 = words32 (B (i_block i ! 13))"
  defines "p \<equiv> unat (g_bs G) div 4"
  assumes "length l1 = p" "bs_ok (g_bs G)"
  shows "fs_at sec L G B s \<Longrightarrow> j \<le> p \<Longrightarrow> length l2 = unat (g_bs G) \<Longrightarrow> unat n \<le> length phys \<Longrightarrow>
    (\<And>x. 12 + p + j * p \<le> x \<Longrightarrow> x < unat n \<Longrightarrow> phys ! x = 0) \<Longrightarrow>
    wp (map_double n (g_bs G div 4) l1 [j..<p] l2 phys) (\<lambda>q s'. length q = length phys \<and> fs_at sec L G B s' \<and>
      (\<forall>x<unat n. q ! x = (if 12 + p + j * p \<le> x \<and> x < 12 + p + p * p then ind_at B (l1 ! ((x - 12 - p) div p)) ((x - 12 - p) mod p) else phys ! x))) s"
proof (induction "p - j" arbitrary: j l2 phys s)
  case 0
  then show ?case by (auto simp: not_le)
next
  case (Suc d)
  note pf = per_facts [OF assms(6), folded p_def]
  have j: "j < p" using Suc.hyps(2) by simp
  then have "j * p \<le> 16384 * 16384" using pf(4) by (intro mult_le_mono) simp_all
  then have base: "unat (12 + g_bs G div 4 + of_nat j * (g_bs G div 4)) = 12 + p + j * p"
    using pf(1,4,5) j by (subst unat_add_small; (subst unat_mult_small)?) (simp_all add: unat_of_nat_small)
  have upt: "[j..<p] = j # [Suc j..<p]" using j by (simp add: upt_rec)
  have le: "12 + p + Suc j * p \<le> 12 + p + p * p" using j mult_le_mono1 [of "Suc j" p p] by simp
  show ?case
  proof (cases "12 + g_bs G div 4 + of_nat j * (g_bs G div 4) \<ge> n")
    case True
    then have "unat n \<le> 12 + p + j * p" using base by (simp add: word_le_nat_alt)
    then show ?thesis using Suc.prems True by (simp add: upt)
  next
    case False
    then have n: "12 + p + j * p < unat n" using base by (simp add: word_le_nat_alt)
    let ?w = "l1 ! j"
    have w: "rd l1 j = Some ?w" using j assms(5) by simp
    have IH: "wp (map_double n (g_bs G div 4) l1 [Suc j..<p] l phys') (\<lambda>q s'. length q = length phys' \<and> fs_at sec L G B s' \<and>
        (\<forall>x<unat n. q ! x = (if 12 + p + Suc j * p \<le> x \<and> x < 12 + p + p * p then ind_at B (l1 ! ((x - 12 - p) div p)) ((x - 12 - p) mod p) else phys' ! x))) s1"
      if "fs_at sec L G B s1" "length l = unat (g_bs G)" "unat n \<le> length phys'" "\<And>x. 12 + p + Suc j * p \<le> x \<Longrightarrow> x < unat n \<Longrightarrow> phys' ! x = 0" for s1 l phys'
      using Suc.hyps(1) [of "Suc j" s1 l phys'] Suc.hyps(2) that j by simp
    show ?thesis
    proof (cases "?w = 0")
      case True
      have "wp (map_double n (g_bs G div 4) l1 [Suc j..<p] l2 phys) (\<lambda>q s'. length q = length phys \<and> fs_at sec L G B s' \<and>
          (\<forall>x<unat n. q ! x = (if 12 + p + j * p \<le> x \<and> x < 12 + p + p * p then ind_at B (l1 ! ((x - 12 - p) div p)) ((x - 12 - p) mod p) else phys ! x))) s"
      proof (rule wp_mono [OF IH [OF Suc.prems(1,3,4)]], goal_cases)
        case (2 q s')
        have "ind_at B (l1 ! ((x - 12 - p) div p)) ((x - 12 - p) mod p) = 0" if "12 + p + j * p \<le> x" "x < 12 + p + Suc j * p" for x
          using grid_index [OF that] True by (simp add: ind_at_def)
        then show ?case using 2 Suc.prems(5) le by (auto simp: not_le)
      qed (use Suc.prems(5) in auto)
      then show ?thesis using False w True by (simp add: upt)
    next
      case w0: False
      have "?w \<in> set l1" using j assms(5) by simp
      then have d: "data_blk (g_bs G) ?w" using assms(1-3) w0 by (simp add: inode_ok_def)
      have lw: "length (words32 (B ?w)) = p" using length_block [OF Suc.prems(1) data_blk_sb [OF d]] by (simp add: p_def)
      define base where "base = 12 + g_bs G div 4 + of_nat j * (g_bs G div 4)"
      have step: "wp (bnd (chk (copy_words n base (words32 (B ?w)) phys)) (map_double n (g_bs G div 4) l1 [Suc j..<p] (B ?w)))
          (\<lambda>q s'. length q = length phys \<and> fs_at sec L G B s' \<and>
          (\<forall>x<unat n. q ! x = (if 12 + p + j * p \<le> x \<and> x < 12 + p + p * p then ind_at B (l1 ! ((x - 12 - p) div p)) ((x - 12 - p) mod p) else phys ! x))) s1"
        if s1: "fs_at sec L G B s1" for s1
      proof (rule copy_words_bnd)
        fix ph assume ph: "length ph = length phys"
          "\<And>x. x < length phys \<Longrightarrow> ph ! x = (if unat base \<le> x \<and> x < unat base + length (words32 (B ?w)) \<and> x < unat n then words32 (B ?w) ! (x - unat base) else phys ! x)"
        have at: "ph ! x = ind_at B (l1 ! ((x - 12 - p) div p)) ((x - 12 - p) mod p)" if "12 + p + j * p \<le> x" "x < 12 + p + Suc j * p" "x < unat n" for x
          using grid_index [OF that(1,2)] that w0 ph(2) [of x] base lw Suc.prems(4) by (simp add: ind_at_def base_def)
        have "wp (map_double n (g_bs G div 4) l1 [Suc j..<p] (B ?w) ph) (\<lambda>q s'. length q = length ph \<and> fs_at sec L G B s' \<and>
            (\<forall>x<unat n. q ! x = (if 12 + p + Suc j * p \<le> x \<and> x < 12 + p + p * p then ind_at B (l1 ! ((x - 12 - p) div p)) ((x - 12 - p) mod p) else ph ! x))) s1"
          using ph Suc.prems(4,5) base lw length_block [OF s1 data_blk_sb [OF d]] by (intro IH [OF s1]) (auto simp: base_def)
        then show "wp (map_double n (g_bs G div 4) l1 [Suc j..<p] (B ?w) ph) (\<lambda>q s'. length q = length phys \<and> fs_at sec L G B s' \<and>
            (\<forall>x<unat n. q ! x = (if 12 + p + j * p \<le> x \<and> x < 12 + p + p * p then ind_at B (l1 ! ((x - 12 - p) div p)) ((x - 12 - p) mod p) else phys ! x))) s1"
        proof (rule wp_mono, intro conjI allI impI; (elim conjE)?)
          fix q s' x
          assume q: "\<forall>x<unat n. q ! x = (if 12 + p + Suc j * p \<le> x \<and> x < 12 + p + p * p then ind_at B (l1 ! ((x - 12 - p) div p)) ((x - 12 - p) mod p) else ph ! x)"
            and x: "x < unat n"
          show "q ! x = (if 12 + p + j * p \<le> x \<and> x < 12 + p + p * p then ind_at B (l1 ! ((x - 12 - p) div p)) ((x - 12 - p) mod p) else phys ! x)"
            using q x at [of x] ph(2) [of x] Suc.prems(4) base lw le by (auto simp: base_def not_le)
        qed (use ph(1) in simp_all)
      qed (use base lw pf(4) \<open>j * p \<le> _\<close> Suc.prems(4) in \<open>simp_all add: base_def\<close>)
      have tk: "take (unat (g_bs G div 4)) (words32 (B ?w)) = words32 (B ?w)" using lw pf(1) by (simp del: length_words32)
      have go: "wp (map_double n (g_bs G div 4) l1 [j..<p] l2 phys) Q s"
        if "\<And>s1. fs_at sec L G B s1 \<Longrightarrow> wp (bnd (chk (copy_words n base (words32 (B ?w)) phys)) (map_double n (g_bs G div 4) l1 [Suc j..<p] (B ?w))) Q s1" for Q
        using Suc.prems(1) False w0 that unfolding upt base_def
        by (simp add: w Let_def) (erule read_bnd [OF _ d Suc.prems(3)], simp add: tk)
      show ?thesis by (rule go) (rule step)
    qed
  qed
qed

text \<open>The block numbers below \<open>lim\<close> are in place, the others are still 0.\<close>

definition mapped :: "u32 \<Rightarrow> (u32 \<Rightarrow> bytes) \<Rightarrow> inode \<Rightarrow> u32 \<Rightarrow> nat \<Rightarrow> u32 list \<Rightarrow> bool" where
  "mapped bs B i n lim phys \<longleftrightarrow> unat n \<le> length phys \<and> (\<forall>x<unat n. phys ! x = (if x < lim then blk_at bs B i x else 0))"

lemma blk_at_single: "12 \<le> x \<Longrightarrow> x < 12 + unat bs div 4 \<Longrightarrow> blk_at bs B i x = ind_at B (i_block i ! 12) (x - 12)"
  by (simp add: blk_at_def)

lemma blk_at_double:
  "12 + unat bs div 4 \<le> x \<Longrightarrow> blk_at bs B i x =
    (if x - 12 - unat bs div 4 < unat bs div 4 * (unat bs div 4)
     then ind_at B (ind_at B (i_block i ! 13) ((x - 12 - unat bs div 4) div (unat bs div 4))) ((x - 12 - unat bs div 4) mod (unat bs div 4)) else 0)"
  by (simp add: blk_at_def Let_def)

lemma wp_map_single:
  assumes "fs_at sec L G B s" "inode_ok (g_bs G) B i" "mapped (g_bs G) B i n 12 phys" "length l1 = unat (g_bs G)"
  shows "wp (if n > 12 \<and> i_block i ! 12 \<noteq> 0
          then bnd (read_block (i_block i ! 12) l1) (\<lambda>(_, l1).
            bnd (chk (copy_words n 12 (take (unat (g_bs G div 4)) (words32 l1)) phys)) (\<lambda>phys. ret (l1, phys)))
          else ret (l1, phys))
     (\<lambda>(l, q) s'. fs_at sec L G B s' \<and> length l = unat (g_bs G) \<and> length q = length phys \<and> mapped (g_bs G) B i n (12 + unat (g_bs G) div 4) q) s"
proof -
  note ok = fs_at_geom(8) [OF assms(1)]
  note pf = per_facts [OF ok]
  let ?b = "i_block i ! 12"
  have n12: "n > 12 \<longleftrightarrow> 12 < unat n" by (simp add: word_less_nat_alt)
  show ?thesis
  proof (cases "n > 12 \<and> ?b \<noteq> 0")
    case False
    then have "mapped (g_bs G) B i n (12 + unat (g_bs G) div 4) phys"
      using assms(3) by (auto simp: mapped_def n12 blk_at_single ind_at_def)
    then show ?thesis using False assms(1,4) by auto
  next
    case True
    then have d: "data_blk (g_bs G) ?b" using assms(2) by (simp add: inode_ok_def)
    have lw: "length (words32 (B ?b)) = unat (g_bs G) div 4" using length_block [OF assms(1) data_blk_sb [OF d]] by simp
    then have tk: "take (unat (g_bs G div 4)) (words32 (B ?b)) = words32 (B ?b)" using pf(1) by (simp del: length_words32)
    have "wp (bnd (chk (copy_words n 12 (words32 (B ?b)) phys)) (\<lambda>phys. ret (B ?b, phys)))
        (\<lambda>(l, q) s'. fs_at sec L G B s' \<and> length l = unat (g_bs G) \<and> length q = length phys \<and> mapped (g_bs G) B i n (12 + unat (g_bs G) div 4) q) s1"
      if s1: "fs_at sec L G B s1" for s1
    proof (rule copy_words_bnd)
      fix q assume q: "length q = length phys"
        "\<And>x. x < length phys \<Longrightarrow> q ! x = (if unat (12 :: u32) \<le> x \<and> x < unat (12 :: u32) + length (words32 (B ?b)) \<and> x < unat n then words32 (B ?b) ! (x - unat (12 :: u32)) else phys ! x)"
      have "mapped (g_bs G) B i n (12 + unat (g_bs G) div 4) q"
        using assms(3) q True lw by (auto simp: mapped_def blk_at_single ind_at_def)
      then show "wp (ret (B ?b, q)) (\<lambda>(l, q) s'. fs_at sec L G B s' \<and> length l = unat (g_bs G) \<and> length q = length phys \<and>
          mapped (g_bs G) B i n (12 + unat (g_bs G) div 4) q) s1"
        using s1 q(1) length_block [OF s1 data_blk_sb [OF d]] by simp
    qed (use lw pf(4) assms(3) in \<open>simp_all add: mapped_def\<close>)
    then show ?thesis unfolding if_P [OF True] by (intro read_bnd [OF assms(1) d assms(4)]) (simp only: tk)
  qed
qed

lemma wp_map_all:
  assumes "fs_at sec L G B s" "inode_ok (g_bs G) B i" "mapped (g_bs G) B i n (12 + unat (g_bs G) div 4) phys" "length l1 = unat (g_bs G)"
  shows "wp (if n > 12 + g_bs G div 4 \<and> i_block i ! 13 \<noteq> 0
          then bnd (new_buf 4 (uint (g_bs G div 4))) (\<lambda>(a2, l2).
            bnd (read_block (i_block i ! 13) l1) (\<lambda>(_, l1).
            bnd (map_double n (g_bs G div 4) (words32 l1) [0..<unat (g_bs G div 4)] l2 phys) (\<lambda>phys.
            bnd (free_buf a2) (\<lambda>_. ret phys))))
          else ret phys)
     (\<lambda>q s'. fs_at sec L G B s' \<and> length q = length phys \<and> (\<forall>x<unat n. q ! x = blk_at (g_bs G) B i x)) s"
proof -
  note ok = fs_at_geom(8) [OF assms(1)]
  note pf = per_facts [OF ok] and sz = scratch_sizes [OF ok]
  define p where "p = unat (g_bs G) div 4"
  let ?b = "i_block i ! 13"
  have np: "n > 12 + g_bs G div 4 \<longleftrightarrow> 12 + p < unat n" using pf(5) by (simp add: word_less_nat_alt p_def)
  show ?thesis
  proof (cases "n > 12 + g_bs G div 4 \<and> ?b \<noteq> 0")
    case False
    have "phys ! x = blk_at (g_bs G) B i x" if "x < unat n" for x
      using assms(3) that False by (cases "x < 12 + p") (auto simp: mapped_def np blk_at_double ind_at_def simp flip: p_def)
    then show ?thesis using False assms(1) by auto
  next
    case True
    then have d: "data_blk (g_bs G) ?b" using assms(2) by (simp add: inode_ok_def)
    have lw: "length (words32 (B ?b)) = p" using length_block [OF assms(1) data_blk_sb [OF d]] by (simp add: p_def)
    have body: "wp (map_double n (g_bs G div 4) (words32 (B ?b)) [0..<unat (g_bs G div 4)] l2 phys)
        (\<lambda>q s'. fs_at sec (insert (a, k) L) G B s' \<and> length q = length phys \<and> (\<forall>x<unat n. q ! x = blk_at (g_bs G) B i x)) s1"
      if s1: "fs_at sec (insert (a, k) L) G B s1" and l2: "length l2 = unat (g_bs G)" for a k l2 s1
    proof -
      have "wp (map_double n (g_bs G div 4) (words32 (B ?b)) [0..<p] l2 phys) (\<lambda>q s'. length q = length phys \<and> fs_at sec (insert (a, k) L) G B s' \<and>
          (\<forall>x<unat n. q ! x = (if 12 + p + 0 * p \<le> x \<and> x < 12 + p + p * p
            then ind_at B (words32 (B ?b) ! ((x - 12 - p) div p)) ((x - 12 - p) mod p) else phys ! x))) s1"
        using True assms(3) lw l2 unfolding p_def
        by (intro wp_map_double [OF assms(2) _ refl _ ok s1]) (auto simp: mapped_def p_def)
      then show ?thesis unfolding pf(1) p_def [symmetric]
      proof (rule wp_mono, elim conjE, intro conjI allI impI)
        fix q s' x
        assume q: "\<forall>x<unat n. q ! x = (if 12 + p + 0 * p \<le> x \<and> x < 12 + p + p * p
            then ind_at B (words32 (B ?b) ! ((x - 12 - p) div p)) ((x - 12 - p) mod p) else phys ! x)" and x: "x < unat n"
        show "q ! x = blk_at (g_bs G) B i x"
        proof (cases "x < 12 + p")
          case True
          then show ?thesis using q x assms(3) by (simp add: mapped_def p_def)
        next
          case ge: False
          have "ind_at B ?b m = words32 (B ?b) ! m" for m using True by (simp add: ind_at_def)
          then show ?thesis using q x ge assms(3) by (auto simp: mapped_def blk_at_double simp flip: p_def)
        qed
      qed auto
    qed
    show ?thesis unfolding if_P [OF True]
      by (rule new_bnd [OF assms(1)], simp, simp add: sz, erule read_bnd [OF _ d assms(4)])
        (rule wp_bndI [OF body], assumption, simp add: sz pf(6), elim conjE, erule free_bnd, assumption, simp)
  qed
qed

lemma wp_map_blocks:
  assumes "fs_at sec L G B s" "inode_ok (g_bs G) B i" "unat n \<le> length phys"
  shows "wp (map_blocks i n phys) (\<lambda>q s'. fs_at sec L G B s' \<and> length q = length phys \<and> (\<forall>x<unat n. q ! x = blk_at (g_bs G) B i x)) s"
proof -
  note geo = fs_at_geom [OF assms(1)]
  note sz = scratch_sizes [OF geo(8)] per_facts(6) [OF geo(8)]
  have len: "length (i_block i) = 15" using assms(2) by (simp add: inode_ok_def)
  have zero: "\<exists>z. copy_words n 0 (replicate (unat n) 0) phys = Some z \<and> length z = length phys \<and> (\<forall>x<unat n. z ! x = 0)"
    using copy_words_ok [of 0 "replicate (unat n) 0" n phys] assms(3) unat_u32_lt [of n] by auto
  then obtain z where z: "copy_words n 0 (replicate (unat n) 0) phys = Some z" "length z = length phys" "\<forall>x<unat n. z ! x = 0" by blast
  obtain y where y: "copy_words n 0 (take 12 (i_block i)) z = Some y" "length y = length phys"
    "\<forall>x<length z. y ! x = (if x < 12 \<and> x < unat n then i_block i ! x else z ! x)"
    using copy_words_ok [of 0 "take 12 (i_block i)" n z] assms(3) z(2) len by auto
  have m: "mapped (g_bs G) B i n 12 y" using y z assms(3) by (auto simp: mapped_def blk_at_def)
  show ?thesis
    unfolding map_blocks_def using assms(1)
    apply (simp add: geo z(1) y(1) Let_def cong: if_cong split del: if_split del: bnd_assoc)
    apply (erule new_bnd, simp, simp add: sz, simp add: len split del: if_split del: bnd_assoc)
    apply (rule wp_bndI [OF wp_map_single [OF _ assms(2) m]], assumption, simp add: sz)
    apply clarify
    apply (rule wp_bndI [OF wp_map_all [OF _ assms(2)]], assumption, assumption, assumption)
    apply (elim conjE, erule free_bnd, assumption, simp add: y(2))
    done
qed

end
