(* ===== verification/Ext2_Alloc.thy ===== *)
theory Ext2_Alloc
  imports Ext2_Read
begin

text \<open>
  Allocation of blocks (\<^verbatim>\<open>src/src/ext2.c\<close>). \<open>alloc_ok G B P\<close> says that no block marked free is one of the blocks \<open>P\<close> that
  somebody uses; an allocation takes a block outside \<open>P\<close>, adds it to \<open>P\<close>, and changes nothing in the blocks of \<open>P\<close> but the
  bitmaps and the group descriptors.
\<close>

subsection \<open>Writing a group descriptor\<close>

definition gd_put :: "geom \<Rightarrow> (u32 \<Rightarrow> bytes) \<Rightarrow> u32 \<Rightarrow> group_desc \<Rightarrow> u32 \<Rightarrow> bytes" where
  "gd_put G B g gd = B(gd_blk G g := store (B (gd_blk G g)) (gd_off G g) (group_desc_pack gd))"

lemma wp_write_group_desc:
  assumes "fs_at sec L G B s" "data_blk (g_bs G) (gd_blk G g)" "length (bg_reserved gd) = 3"
  shows "wp (write_group_desc g gd) (\<lambda>ok s'. ok \<and> fs_at sec L G (gd_put G B g gd) s') s"
proof -
  note geo = fs_at_geom [OF assms(1)]
  note bs = bs_ok_facts [OF geo(8)] scratch_sizes [OF geo(8)]
  have l: "length (B (gd_blk G g)) = unat (g_bs G)" by (rule length_block [OF assms(1) data_blk_sb [OF assms(2)]])
  have eq: "s_first_data_block (g_sb G) + 1 + g * 32 div g_bs G = gd_blk G g" "unat (g * 32 mod g_bs G) = gd_off G g"
    by (simp_all add: gd_blk_def gd_off_def)
  have put: "put_bytes (B (gd_blk G g)) (gd_off G g) (group_desc_pack gd) = Some (store (B (gd_blk G g)) (gd_off G g) (group_desc_pack gd))"
    using gd_off_le [OF geo(8), of g] l assms(3) by (simp add: put_bytes_Some)
  show ?thesis
    unfolding write_group_desc_def using assms(1)
    apply (simp add: geo Let_def eq bs)
    apply (erule new_bnd, simp, simp add: bs)
    apply (simp add: bs)
    apply (erule read_bnd, rule assms(2), simp)
    apply (simp add: geo eq put)
    apply (erule write_bnd, rule data_blk_sb [OF assms(2)], use gd_off_le [OF geo(8), of g] l assms(3) in simp)
    apply (erule free_bnd, assumption, simp add: gd_put_def)
    done
qed

lemma write_gd_bnd:
  assumes "fs_at sec L G B s" "data_blk (g_bs G) (gd_blk G g)" "length (bg_reserved gd) = 3"
    and "\<And>s'. fs_at sec L G (gd_put G B g gd) s' \<Longrightarrow> wp (f True) Q s'"
  shows "wp (bnd (write_group_desc g gd) f) Q s"
  by (rule wp_bndI [OF wp_write_group_desc [OF assms(1-3)]]) (use assms(4) in auto)

lemma set_sb_bnd:
  assumes "fs_at sec L G B s" "\<And>s'. fs_at sec L (G\<lparr>g_sb := h (g_sb G)\<rparr>) B s' \<Longrightarrow> wp (f ()) Q s'"
  shows "wp (bnd (set_sb h) f) Q s"
proof -
  have "fs_at sec L (G\<lparr>g_sb := h (g_sb G)\<rparr>) B (s\<lparr>fs_sb := h (fs_sb s)\<rparr>)"
    using assms(1) by (auto simp: fs_at_def geom_of_def)
  then show ?thesis using assms(2) by (simp add: set_sb_def)
qed

subsection \<open>Bitmaps\<close>

definition bit_at :: "bytes \<Rightarrow> nat \<Rightarrow> bool" where
  "bit_at bm i = bit (bm ! (i div 8)) (i mod 8)"

lemma first_clear_ok:
  assumes "nb \<le> 8 * length bm"
  shows "\<exists>r. first_clear bm nb i = Some r \<and> (case r of None \<Rightarrow> \<forall>k. i \<le> k \<and> k < nb \<longrightarrow> bit_at bm k
    | Some j \<Rightarrow> i \<le> j \<and> j < nb \<and> \<not> bit_at bm j \<and> (\<forall>k. i \<le> k \<and> k < j \<longrightarrow> bit_at bm k))"
  using assms
proof (induction bm nb i rule: first_clear.induct)
  case (1 bm nb i)
  show ?case
  proof (cases "i < nb")
    case True
    then have r: "rd bm (i div 8) = Some (bm ! (i div 8))" using 1(2) by simp
    show ?thesis
    proof (cases "bit_at bm i")
      case b: True
      then have "\<exists>r. first_clear bm nb (i + 1) = Some r \<and> (case r of None \<Rightarrow> \<forall>k. i + 1 \<le> k \<and> k < nb \<longrightarrow> bit_at bm k
          | Some j \<Rightarrow> i + 1 \<le> j \<and> j < nb \<and> \<not> bit_at bm j \<and> (\<forall>k. i + 1 \<le> k \<and> k < j \<longrightarrow> bit_at bm k))"
        using 1(1) [OF True r] 1(2) by (simp add: bit_at_def)
      then obtain r where r': "first_clear bm nb (i + 1) = Some r" "case r of None \<Rightarrow> \<forall>k. i + 1 \<le> k \<and> k < nb \<longrightarrow> bit_at bm k
          | Some j \<Rightarrow> i + 1 \<le> j \<and> j < nb \<and> \<not> bit_at bm j \<and> (\<forall>k. i + 1 \<le> k \<and> k < j \<longrightarrow> bit_at bm k)" by blast
      have "first_clear bm nb i = Some r" using True r b r'(1) by (subst first_clear.simps) (simp add: bit_at_def rd_def)
      moreover have "bit_at bm k" if "i \<le> k" "i + 1 \<le> k \<Longrightarrow> bit_at bm k" for k using that b by (cases "k = i") simp_all
      ultimately show ?thesis using r'(2) by (cases r) auto
    next
      case b: False
      then have "first_clear bm nb i = Some (Some i)" using True r by (subst first_clear.simps) (simp add: bit_at_def rd_def)
      then show ?thesis using b True by auto
    qed
  next
    case False
    then show ?thesis by (subst first_clear.simps) auto
  qed
qed

lemma bit_u8_set: "j < 8 \<Longrightarrow> k < 8 \<Longrightarrow> bit ((b :: u8) OR 2 ^ j) k \<longleftrightarrow> k = j \<or> bit b k"
  by (auto simp: bit_or_iff bit_exp_iff possible_bit_def)

lemma bit_u8_clear: "j < 8 \<Longrightarrow> k < 8 \<Longrightarrow> bit ((b :: u8) AND NOT (2 ^ j)) k \<longleftrightarrow> k \<noteq> j \<and> bit b k"
  by (auto simp: bit_and_iff bit_not_iff bit_exp_iff possible_bit_def)

lemma nat_div_mod_eq:
  assumes "i div 8 = k div 8" "i mod 8 = k mod 8"
  shows "i = (k :: nat)"
proof -
  have "i = i div 8 * 8 + i mod 8" by (rule div_mult_mod_eq [symmetric])
  also have "\<dots> = k div 8 * 8 + k mod 8" by (simp only: assms)
  also have "\<dots> = k" by (rule div_mult_mod_eq)
  finally show ?thesis .
qed

lemma bit_set_ok:
  assumes "i < 8 * length bm"
  obtains bm' where "bit_set bm i = Some bm'" "length bm' = length bm" "\<And>k. k < 8 * length bm \<Longrightarrow> bit_at bm' k \<longleftrightarrow> k = i \<or> bit_at bm k"
proof
  have i: "i div 8 < length bm" using assms by simp
  let ?bm = "bm[i div 8 := bm ! (i div 8) OR push_bit (i mod 8) 1]"
  show "bit_set bm i = Some ?bm" using i by (simp add: bit_set_def rd_def wr_def)
  show "length ?bm = length bm" by simp
  show "bit_at ?bm k \<longleftrightarrow> k = i \<or> bit_at bm k" if "k < 8 * length bm" for k
  proof (cases "k div 8 = i div 8")
    case True
    then have "k mod 8 = i mod 8 \<longleftrightarrow> k = i" using nat_div_mod_eq [of k i] by auto
    then show ?thesis using True i by (simp add: bit_at_def bit_u8_set)
  qed (auto simp: bit_at_def)
qed

lemma bit_clear_ok:
  assumes "i < 8 * length bm"
  obtains bm' where "bit_clear bm i = Some bm'" "length bm' = length bm" "\<And>k. k < 8 * length bm \<Longrightarrow> bit_at bm' k \<longleftrightarrow> k \<noteq> i \<and> bit_at bm k"
proof
  have i: "i div 8 < length bm" using assms by simp
  let ?bm = "bm[i div 8 := bm ! (i div 8) AND NOT (push_bit (i mod 8) 1)]"
  show "bit_clear bm i = Some ?bm" using i by (simp add: bit_clear_def rd_def wr_def)
  show "length ?bm = length bm" by simp
  show "bit_at ?bm k \<longleftrightarrow> k \<noteq> i \<and> bit_at bm k" if "k < 8 * length bm" for k
  proof (cases "k div 8 = i div 8")
    case True
    then have "k mod 8 = i mod 8 \<longleftrightarrow> k = i" using nat_div_mod_eq [of k i] by auto
    then show ?thesis using True i by (simp add: bit_at_def bit_u8_clear)
  qed (auto simp: bit_at_def)
qed

lemma bitmap_alloc_bnd:
  assumes "fs_at sec L G B s" "data_blk (g_bs G) b" "unat nb \<le> 8 * unat (g_bs G)"
    and "\<And>s'. \<forall>k<unat nb. bit_at (B b) k \<Longrightarrow> fs_at sec L G B s' \<Longrightarrow> wp (f None) Q s'"
    and "\<And>i bm s'. i < unat nb \<Longrightarrow> \<not> bit_at (B b) i \<Longrightarrow> \<forall>k<i. bit_at (B b) k \<Longrightarrow> bit_set (B b) i = Some bm \<Longrightarrow>
      fs_at sec L G (B(b := bm)) s' \<Longrightarrow> wp (f (Some i)) Q s'"
  shows "wp (bnd (bitmap_alloc b nb) f) Q s"
proof -
  note geo = fs_at_geom [OF assms(1)]
  note bs = bs_ok_facts [OF geo(8)] scratch_sizes [OF geo(8)]
  have l: "length (B b) = unat (g_bs G)" by (rule length_block [OF assms(1) data_blk_sb [OF assms(2)]])
  obtain r where r: "first_clear (B b) (unat nb) 0 = Some r" "case r of None \<Rightarrow> \<forall>k<unat nb. bit_at (B b) k
    | Some j \<Rightarrow> j < unat nb \<and> \<not> bit_at (B b) j \<and> (\<forall>k<j. bit_at (B b) k)"
    using first_clear_ok [of "unat nb" "B b" 0] assms(3) l by (auto split: option.splits)
  show ?thesis
  proof (cases r)
    case None
    then show ?thesis
      unfolding bitmap_alloc_def using assms(1) r
      apply (simp add: geo)
      apply (erule new_bnd, simp, simp add: bs)
      apply (erule read_bnd, rule assms(2), simp)
      apply simp
      apply (erule free_bnd, assumption)
      apply (rule assms(4); simp)
      done
  next
    case (Some i)
    then have "i < 8 * length (B b)" using r(2) assms(3) l by simp
    then obtain bm where bm: "bit_set (B b) i = Some bm" "length bm = length (B b)" by (rule bit_set_ok)
    show ?thesis
      unfolding bitmap_alloc_def using assms(1) r Some
      apply (simp add: geo)
      apply (erule new_bnd, simp, simp add: bs)
      apply (erule read_bnd, rule assms(2), simp)
      apply (simp add: bm(1))
      apply (erule write_bnd, rule data_blk_sb [OF assms(2)], simp add: bm(2) l)
      apply (erule free_bnd, assumption)
      apply (rule assms(5); simp add: bm(1))
      done
  qed
qed

lemma bitmap_free_bnd:
  assumes "fs_at sec L G B s" "data_blk (g_bs G) b" "unat i < 8 * unat (g_bs G)"
    and "\<And>bm s'. bit_clear (B b) (unat i) = Some bm \<Longrightarrow> fs_at sec L G (B(b := bm)) s' \<Longrightarrow> wp (f ()) Q s'"
  shows "wp (bnd (bitmap_free b i) f) Q s"
proof -
  note geo = fs_at_geom [OF assms(1)]
  note bs = bs_ok_facts [OF geo(8)] scratch_sizes [OF geo(8)]
  have l: "length (B b) = unat (g_bs G)" by (rule length_block [OF assms(1) data_blk_sb [OF assms(2)]])
  then have "unat i < 8 * length (B b)" using assms(3) by simp
  then obtain bm where bm: "bit_clear (B b) (unat i) = Some bm" "length bm = length (B b)" by (rule bit_clear_ok)
  show ?thesis
    unfolding bitmap_free_def using assms(1)
    apply (simp add: geo)
    apply (erule new_bnd, simp, simp add: bs)
    apply (erule read_bnd, rule assms(2), simp)
    apply (simp add: bm(1))
    apply (erule write_bnd, rule data_blk_sb [OF assms(2)], simp add: bm(2) l)
    apply (erule free_bnd, assumption)
    apply (rule assms(4); simp add: bm(1))
    done
qed

subsection \<open>What the allocator promises\<close>

text \<open>Allocation changes only the counters of free blocks and inodes among the variables.\<close>

definition geo_eq :: "geom \<Rightarrow> geom \<Rightarrow> bool" where
  "geo_eq G G' \<longleftrightarrow> (\<exists>x y. G' = G\<lparr>g_sb := (g_sb G)\<lparr>s_free_blocks_count := x, s_free_inodes_count := y\<rparr>\<rparr>)"

lemma geo_eq_refl [simp, intro]: "geo_eq G G"
  unfolding geo_eq_def by (rule exI [of _ "s_free_blocks_count (g_sb G)"], rule exI [of _ "s_free_inodes_count (g_sb G)"]) simp

lemma geo_eq_trans [trans]: "geo_eq G G' \<Longrightarrow> geo_eq G' G'' \<Longrightarrow> geo_eq G G''"
  by (force simp: geo_eq_def)

lemma geo_eq_blocks: "geo_eq G (G\<lparr>g_sb := (g_sb G)\<lparr>s_free_blocks_count := x\<rparr>\<rparr>)"
  unfolding geo_eq_def by (rule exI [of _ x], rule exI [of _ "s_free_inodes_count (g_sb G)"]) simp

lemma geo_eq_inodes: "geo_eq G (G\<lparr>g_sb := (g_sb G)\<lparr>s_free_inodes_count := x\<rparr>\<rparr>)"
  unfolding geo_eq_def by (rule exI [of _ "s_free_blocks_count (g_sb G)"], rule exI [of _ x]) simp

lemma geo_eq_facts:
  assumes "geo_eq G G'"
  shows "g_bs G' = g_bs G" "g_is G' = g_is G" "g_groups G' = g_groups G" "g_ft G' = g_ft G" "g_mounted G' = g_mounted G" "g_lock G' = g_lock G"
    "gd_blk G' = gd_blk G" "gd_off G' = gd_off G" "gd_of G' = gd_of G" "ino_grp G' = ino_grp G" "ino_byte G' = ino_byte G" "ino_off G' = ino_off G"
    "ino_blk G' = ino_blk G" "inode_of G' = inode_of G" "geom_ok G' = geom_ok G" "ino_ok G' = ino_ok G"
    "s_first_data_block (g_sb G') = s_first_data_block (g_sb G)" "s_blocks_per_group (g_sb G') = s_blocks_per_group (g_sb G)"
    "s_inodes_per_group (g_sb G') = s_inodes_per_group (g_sb G)" "s_feature_ro_compat (g_sb G') = s_feature_ro_compat (g_sb G)"
  using assms
  by (auto simp: geo_eq_def fun_eq_iff gd_blk_def gd_off_def gd_of_def ino_grp_def ino_byte_def ino_off_def ino_blk_def inode_of_def geom_ok_def ino_ok_def)

definition bb :: "geom \<Rightarrow> (u32 \<Rightarrow> bytes) \<Rightarrow> u32 \<Rightarrow> u32" where
  "bb G B g = bg_block_bitmap (gd_of G B g)"

definition blk_num :: "geom \<Rightarrow> u32 \<Rightarrow> nat \<Rightarrow> u32" where
  "blk_num G g i = s_first_data_block (g_sb G) + g * s_blocks_per_group (g_sb G) + of_nat i"

text \<open>The blocks that the allocator itself writes.\<close>

definition own_blocks :: "geom \<Rightarrow> (u32 \<Rightarrow> bytes) \<Rightarrow> u32 set" where
  "own_blocks G B = gd_blk G ` {g. g < g_groups G} \<union> bb G B ` {g. g < g_groups G}"

definition range_ok :: "geom \<Rightarrow> bool" where
  "range_ok G \<longleftrightarrow> geom_ok G \<and> unat (s_blocks_per_group (g_sb G)) \<le> 8 * unat (g_bs G) \<and>
     unat (s_first_data_block (g_sb G)) + unat (g_groups G) * unat (s_blocks_per_group (g_sb G)) \<le> 2 ^ 32"

definition maps_ok :: "geom \<Rightarrow> (u32 \<Rightarrow> bytes) \<Rightarrow> bool" where
  "maps_ok G B \<longleftrightarrow> (\<forall>g<g_groups G. data_blk (g_bs G) (gd_blk G g) \<and> data_blk (g_bs G) (bb G B g)) \<and>
     (\<forall>g<g_groups G. \<forall>g'<g_groups G. gd_blk G g \<noteq> bb G B g' \<and> (bb G B g = bb G B g' \<longrightarrow> g = g'))"

definition free_ok :: "geom \<Rightarrow> (u32 \<Rightarrow> bytes) \<Rightarrow> u32 set \<Rightarrow> bool" where
  "free_ok G B P \<longleftrightarrow> (\<forall>g<g_groups G. \<forall>i<unat (s_blocks_per_group (g_sb G)).
     \<not> bit_at (B (bb G B g)) i \<longrightarrow> data_blk (g_bs G) (blk_num G g i) \<and> blk_num G g i \<notin> P)"

definition alloc_ok :: "geom \<Rightarrow> (u32 \<Rightarrow> bytes) \<Rightarrow> u32 set \<Rightarrow> bool" where
  "alloc_ok G B P \<longleftrightarrow> range_ok G \<and> maps_ok G B \<and> own_blocks G B \<subseteq> P \<and> free_ok G B P"

lemma alloc_okD:
  assumes "alloc_ok G B P" "g < g_groups G"
  shows "data_blk (g_bs G) (gd_blk G g)" "data_blk (g_bs G) (bb G B g)" "gd_blk G g \<in> P" "bb G B g \<in> P"
    "unat (s_blocks_per_group (g_sb G)) \<le> 8 * unat (g_bs G)" "gd_blk G g \<in> own_blocks G B" "bb G B g \<in> own_blocks G B"
  using assms by (auto simp: alloc_ok_def maps_ok_def own_blocks_def range_ok_def)

lemma unat_blk_num:
  assumes "range_ok G" "g < g_groups G" "i < unat (s_blocks_per_group (g_sb G))"
  shows "unat (blk_num G g i) = unat (s_first_data_block (g_sb G)) + unat g * unat (s_blocks_per_group (g_sb G)) + i"
proof -
  let ?f = "unat (s_first_data_block (g_sb G))" and ?n = "unat (s_blocks_per_group (g_sb G))"
  have "Suc (unat g) * ?n \<le> unat (g_groups G) * ?n" using assms(2) by (intro mult_le_mono1) (simp add: word_less_nat_alt)
  then have lt: "?f + unat g * ?n + i < 2 ^ 32" using assms(1,3) by (simp add: range_ok_def)
  have m: "unat (g * s_blocks_per_group (g_sb G)) = unat g * ?n" using lt by (subst unat_mult_small) simp_all
  have i: "unat (of_nat i :: u32) = i" using lt by (intro unat_of_nat_small) simp
  have "unat (s_first_data_block (g_sb G) + g * s_blocks_per_group (g_sb G)) = ?f + unat g * ?n" using lt m by (subst unat_add_small) simp_all
  then show ?thesis using lt i by (simp add: blk_num_def) (subst unat_add_small; simp)
qed

lemma blk_num_inj:
  assumes "range_ok G" "g < g_groups G" "g' < g_groups G" "i < unat (s_blocks_per_group (g_sb G))" "i' < unat (s_blocks_per_group (g_sb G))"
    "blk_num G g i = blk_num G g' i'"
  shows "g = g' \<and> i = i'"
proof -
  let ?n = "unat (s_blocks_per_group (g_sb G))"
  have "unat g * ?n + i = unat g' * ?n + i'"
    using arg_cong [OF assms(6), of unat] unat_blk_num [OF assms(1,2,4)] unat_blk_num [OF assms(1,3,5)] by simp
  then have "(unat g * ?n + i) div ?n = (unat g' * ?n + i') div ?n" "(unat g * ?n + i) mod ?n = (unat g' * ?n + i') mod ?n" by simp_all
  then show ?thesis using assms(4,5) by (simp add: word_unat_eq_iff)
qed

subsection \<open>Descriptors after a write\<close>

lemma gd_of_put:
  assumes "bs_ok (g_bs G)" "length (B (gd_blk G g)) = unat (g_bs G)" "length (bg_reserved gd) = 3"
  shows "gd_of G (gd_put G B g gd) g = gd"
    and "gd_blk G g' \<noteq> gd_blk G g \<or> gd_off G g' \<noteq> gd_off G g \<Longrightarrow> gd_of G (gd_put G B g gd) g' = gd_of G B g'"
proof -
  have p: "put_bytes (B (gd_blk G g)) (gd_off G g) (group_desc_pack gd) = Some (store (B (gd_blk G g)) (gd_off G g) (group_desc_pack gd))"
    using gd_off_le [OF assms(1), of g] assms(2,3) by (simp add: put_bytes_Some)
  show "gd_of G (gd_put G B g gd) g = gd" using group_desc_at_put [OF p assms(3)] by (simp add: gd_of_def gd_put_def)
  assume o: "gd_blk G g' \<noteq> gd_blk G g \<or> gd_off G g' \<noteq> gd_off G g"
  show "gd_of G (gd_put G B g gd) g' = gd_of G B g'"
  proof (cases "gd_blk G g' = gd_blk G g")
    case True
    have d: "32 dvd gd_off G g" for g
    proof -
      have "unat (32 :: u32) dvd unat (g * 32)" by (rule dvd_unat_mult) simp
      moreover have "32 dvd unat (g_bs G)" using bs_ok_facts(7) [OF assms(1)] by (rule dvd_eq_mod_eq_0 [THEN iffD2])
      ultimately show ?thesis by (simp add: gd_off_def unat_mod dvd_mod)
    qed
    obtain q q' where "gd_off G g = 32 * q" "gd_off G g' = 32 * q'" using d [of g] d [of g'] by (meson dvdE)
    moreover have "gd_off G g' \<noteq> gd_off G g" using True o by simp
    ultimately have "gd_off G g' + 32 \<le> gd_off G g \<or> gd_off G g + 32 \<le> gd_off G g'" by auto
    from group_desc_at_put_other [OF p assms(3) this] True show ?thesis by (simp add: gd_of_def gd_put_def)
  qed (simp add: gd_of_def gd_put_def)
qed

definition lens_ok :: "geom \<Rightarrow> (u32 \<Rightarrow> bytes) \<Rightarrow> bool" where
  "lens_ok G B \<longleftrightarrow> (\<forall>b. b \<noteq> sb_blk (g_bs G) \<longrightarrow> length (B b) = unat (g_bs G))"

lemma fs_at_lens: "fs_at sec L G B s \<Longrightarrow> lens_ok G B"
  using length_block [of sec L G B s] by (simp add: lens_ok_def)

lemma lens_okD: "lens_ok G B \<Longrightarrow> data_blk (g_bs G) b \<Longrightarrow> length (B b) = unat (g_bs G)"
  using data_blk_sb by (auto simp: lens_ok_def)

text \<open>One bitmap and its descriptor change; everything else stays.\<close>

definition map_put :: "geom \<Rightarrow> (u32 \<Rightarrow> bytes) \<Rightarrow> u32 \<Rightarrow> bytes \<Rightarrow> u16 \<Rightarrow> u32 \<Rightarrow> bytes" where
  "map_put G B g bm n = gd_put G (B(bb G B g := bm)) g ((gd_of G B g)\<lparr>bg_free_blocks_count := n\<rparr>)"

lemma gd_of_cong: "B' (gd_blk G g) = B (gd_blk G g) \<Longrightarrow> gd_of G B' g = gd_of G B g"
  by (simp add: gd_of_def)

lemma map_put_facts:
  assumes "bs_ok (g_bs G)" "lens_ok G B" "maps_ok G B" "g < g_groups G"
  shows "g' < g_groups G \<Longrightarrow> gd_of G (map_put G B g bm n) g' = (gd_of G B g')\<lparr>bg_free_blocks_count := if g' = g then n else bg_free_blocks_count (gd_of G B g')\<rparr>"
    and "g' < g_groups G \<Longrightarrow> bb G (map_put G B g bm n) g' = bb G B g'"
    and "g' < g_groups G \<Longrightarrow> map_put G B g bm n (bb G B g') = (if g' = g then bm else B (bb G B g'))"
    and "b \<notin> own_blocks G B \<Longrightarrow> map_put G B g bm n b = B b"
proof -
  note m = assms(3) [unfolded maps_ok_def]
  let ?B1 = "B(bb G B g := bm)" and ?gd = "(gd_of G B g)\<lparr>bg_free_blocks_count := n\<rparr>"
  have gd1: "gd_of G ?B1 g' = gd_of G B g'" if "g' < g_groups G" for g' using m assms(4) that by (intro gd_of_cong) simp
  have l: "length (B (gd_blk G g)) = unat (g_bs G)" using m assms(4) by (intro lens_okD [OF assms(2)]) blast
  have l1: "length (?B1 (gd_blk G g)) = unat (g_bs G)" using l m assms(4) by simp
  have r: "length (bg_reserved ?gd) = 3" using gd_of_at(2) [where B = B and g = g, OF assms(1) l] by simp
  note put = gd_of_put [where B = ?B1 and g = g and gd = ?gd, OF assms(1) l1 r]
  show gd: "gd_of G (map_put G B g bm n) g' = (gd_of G B g')\<lparr>bg_free_blocks_count := if g' = g then n else bg_free_blocks_count (gd_of G B g')\<rparr>"
    if g': "g' < g_groups G" for g'
  proof (cases "g' = g")
    case False
    then have "bb G B g' \<noteq> bb G B g" using m g' assms(4) by blast
    then have "gd_blk G g' \<noteq> gd_blk G g \<or> gd_off G g' \<noteq> gd_off G g" by (auto simp: bb_def gd_of_def)
    from put(2) [OF this] gd1 [OF g'] False show ?thesis by (simp add: map_put_def)
  qed (use put(1) in \<open>simp add: map_put_def\<close>)
  show "g' < g_groups G \<Longrightarrow> bb G (map_put G B g bm n) g' = bb G B g'" using gd by (simp add: bb_def)
  show "map_put G B g bm n (bb G B g') = (if g' = g then bm else B (bb G B g'))" if "g' < g_groups G"
  proof -
    have "gd_blk G g \<noteq> bb G B g'" using m assms(4) that by blast
    moreover have "bb G B g' = bb G B g \<longleftrightarrow> g' = g" using m assms(4) that by blast
    ultimately show ?thesis by (auto simp: map_put_def gd_put_def)
  qed
  show "b \<notin> own_blocks G B \<Longrightarrow> map_put G B g bm n b = B b" using assms(4) by (auto simp: map_put_def gd_put_def own_blocks_def)
qed

lemma image_bb_cong: "(\<And>g. g < g_groups G \<Longrightarrow> bb G B' g = bb G B g) \<Longrightarrow> own_blocks G B' = own_blocks G B"
  by (auto simp: own_blocks_def intro!: image_eqI)

lemma maps_ok_cong:
  assumes "\<And>g. g < g_groups G \<Longrightarrow> bb G B' g = bb G B g" "maps_ok G B"
  shows "maps_ok G B'"
  using assms by (simp add: maps_ok_def)

text \<open>Everything about the allocator depends on the blocks that it owns alone.\<close>

lemma alloc_ok_cong:
  assumes "alloc_ok G B P" "\<And>b. b \<in> own_blocks G B \<Longrightarrow> B' b = B b"
  shows "alloc_ok G B' P" "own_blocks G B' = own_blocks G B" "g < g_groups G \<Longrightarrow> gd_of G B' g = gd_of G B g"
proof -
  have gd: "gd_of G B' g = gd_of G B g" if "g < g_groups G" for g using alloc_okD(6) [OF assms(1) that] assms(2) by (intro gd_of_cong) simp
  then have b: "bb G B' g = bb G B g" if "g < g_groups G" for g using that by (simp add: bb_def)
  have c: "B' (bb G B g) = B (bb G B g)" if "g < g_groups G" for g using alloc_okD(7) [OF assms(1) that] assms(2) by simp
  show "own_blocks G B' = own_blocks G B" by (rule image_bb_cong) (rule b)
  with b c assms(1) show "alloc_ok G B' P" using maps_ok_cong [of G B' B] by (simp add: alloc_ok_def free_ok_def)
  show "g < g_groups G \<Longrightarrow> gd_of G B' g = gd_of G B g" by (rule gd)
qed

lemma geo_eq_alloc:
  assumes "geo_eq G G'"
  shows "bb G' = bb G" "blk_num G' = blk_num G" "own_blocks G' = own_blocks G" "alloc_ok G' = alloc_ok G"
proof -
  note g = geo_eq_facts [OF assms]
  show b: "bb G' = bb G" "blk_num G' = blk_num G" by (simp_all add: fun_eq_iff bb_def blk_num_def g)
  then show o: "own_blocks G' = own_blocks G" by (simp add: fun_eq_iff own_blocks_def g)
  show "alloc_ok G' = alloc_ok G" by (simp add: fun_eq_iff alloc_ok_def range_ok_def maps_ok_def free_ok_def g b o)
qed

subsection \<open>Taking a block\<close>

text \<open>The blocks that can still be taken: in each group as many as are marked free and are counted as free.\<close>

definition free_in :: "geom \<Rightarrow> (u32 \<Rightarrow> bytes) \<Rightarrow> u32 \<Rightarrow> nat" where
  "free_in G B g = min (unat (bg_free_blocks_count (gd_of G B g))) (card {i. i < unat (s_blocks_per_group (g_sb G)) \<and> \<not> bit_at (B (bb G B g)) i})"

definition avail :: "geom \<Rightarrow> (u32 \<Rightarrow> bytes) \<Rightarrow> nat" where
  "avail G B = (\<Sum>g | g < g_groups G. free_in G B g)"

lemma avail_cong:
  assumes "alloc_ok G B P" "\<And>b. b \<in> own_blocks G B \<Longrightarrow> B' b = B b"
  shows "avail G B' = avail G B"
proof -
  have "free_in G B' g = free_in G B g" if "g < g_groups G" for g
  proof -
    have gd: "gd_of G B' g = gd_of G B g" by (rule alloc_ok_cong(3) [OF assms(1) _ that]) (rule assms(2))
    moreover have "B' (bb G B g) = B (bb G B g)" using alloc_okD(7) [OF assms(1) that] assms(2) by simp
    ultimately show ?thesis by (simp add: free_in_def bb_def)
  qed
  then show ?thesis by (simp add: avail_def)
qed

lemma avail_geo: "geo_eq G G' \<Longrightarrow> avail G' B = avail G B"
  using geo_eq_facts(3,9,18) [of G G'] geo_eq_alloc(1) [of G G'] by (simp add: avail_def free_in_def)

lemma sum_le_one:
  fixes f f' :: "'a \<Rightarrow> nat"
  assumes "finite A" "a \<in> A" "\<And>g. g \<in> A \<Longrightarrow> g \<noteq> a \<Longrightarrow> f g = f' g" "f a \<le> f' a + 1"
  shows "sum f A \<le> sum f' A + 1"
proof -
  have "sum f (A - {a}) = sum f' (A - {a})" using assms(3) by (intro sum.cong) auto
  then show ?thesis using assms(4) by (simp add: sum.remove [OF assms(1,2)])
qed

definition group_full :: "geom \<Rightarrow> (u32 \<Rightarrow> bytes) \<Rightarrow> u32 \<Rightarrow> bool" where
  "group_full G B g \<longleftrightarrow> bg_free_blocks_count (gd_of G B g) = 0 \<or> (\<forall>k<unat (s_blocks_per_group (g_sb G)). bit_at (B (bb G B g)) k)"

definition allocated :: "geom \<Rightarrow> (u32 \<Rightarrow> bytes) \<Rightarrow> u32 set \<Rightarrow> u32 \<Rightarrow> geom \<Rightarrow> (u32 \<Rightarrow> bytes) \<Rightarrow> bool" where
  "allocated G B P blk G' B' \<longleftrightarrow> geo_eq G G' \<and> blk \<notin> P \<and> data_blk (g_bs G) blk \<and> alloc_ok G' B' (insert blk P) \<and>
     B' blk = replicate (unat (g_bs G)) 0 \<and> own_blocks G B' = own_blocks G B \<and> (\<forall>b. b \<notin> own_blocks G B \<longrightarrow> b \<noteq> blk \<longrightarrow> B' b = B b) \<and>
     (\<forall>g<g_groups G. \<exists>n. gd_of G B' g = (gd_of G B g)\<lparr>bg_free_blocks_count := n\<rparr>) \<and> avail G B \<le> avail G B' + 1"

text \<open>One bit is set and the counter goes down by one.\<close>

lemma avail_taken:
  assumes "g < g_groups G" "\<And>g'. g' < g_groups G \<Longrightarrow> g' \<noteq> g \<Longrightarrow> free_in G B' g' = free_in G B g'"
    "unat (bg_free_blocks_count (gd_of G B g)) \<le> unat (bg_free_blocks_count (gd_of G B' g)) + 1"
    "\<And>k. k < unat (s_blocks_per_group (g_sb G)) \<Longrightarrow> bit_at (B' (bb G B' g)) k \<longleftrightarrow> k = i \<or> bit_at (B (bb G B g)) k"
  shows "avail G B \<le> avail G B' + 1"
proof -
  let ?C = "\<lambda>B. {k. k < unat (s_blocks_per_group (g_sb G)) \<and> \<not> bit_at (B (bb G B g)) k}"
  have "?C B' = ?C B - {i}" using assms(4) by auto
  moreover have "card (?C B) - 1 \<le> card (?C B - {i})" by (simp only: card_Diff_singleton_if) simp
  ultimately have "card (?C B) \<le> card (?C B') + 1" by simp
  then have "free_in G B g \<le> free_in G B' g + 1" using assms(3) by (auto simp: free_in_def)
  then show ?thesis unfolding avail_def using assms(1,2) by (intro sum_le_one [where a = g]) auto
qed

lemma allocatedI:
  assumes "alloc_ok G B P" "bs_ok (g_bs G)" "lens_ok G B" "g < g_groups G"
    "i < unat (s_blocks_per_group (g_sb G))" "\<not> bit_at (B (bb G B g)) i" "bit_set (B (bb G B g)) i = Some bm" "geo_eq G G'"
    "unat (bg_free_blocks_count (gd_of G B g)) \<le> unat n + 1"
  shows "allocated G B P (blk_num G g i) G' ((map_put G B g bm n)(blk_num G g i := replicate (unat (g_bs G)) 0))"
proof -
  note a = assms(1) [unfolded alloc_ok_def]
  let ?blk = "blk_num G g i" and ?B2 = "map_put G B g bm n"
  let ?B' = "?B2(?blk := replicate (unat (g_bs G)) 0)"
  have blk: "data_blk (g_bs G) ?blk" "?blk \<notin> P" using a assms(4-6) by (auto simp: free_ok_def)
  have m: "maps_ok G B" using a by blast
  note mp = map_put_facts [where B = B and G = G and g = g and bm = bm and n = n, OF assms(2,3) m assms(4)]
  have nb: "bb G B g' \<noteq> ?blk" "gd_blk G g' \<noteq> ?blk" if "g' < g_groups G" for g' using alloc_okD(3,4) [OF assms(1) that] blk(2) by auto
  have gd: "gd_of G ?B' g' = gd_of G ?B2 g'" if "g' < g_groups G" for g' using nb [OF that] by (intro gd_of_cong) simp
  have b: "bb G ?B' g' = bb G B g'" if "g' < g_groups G" for g' using gd [OF that] mp(2) [OF that] by (simp add: bb_def)
  have own: "own_blocks G ?B' = own_blocks G B" by (rule image_bb_cong) (rule b)
  have len: "length (B (bb G B g)) = unat (g_bs G)" by (rule lens_okD [OF assms(3) alloc_okD(2) [OF assms(1,4)]])
  have sz: "unat (s_blocks_per_group (g_sb G)) \<le> 8 * unat (g_bs G)" by (rule alloc_okD(5) [OF assms(1,4)])
  have "i < 8 * length (B (bb G B g))" using assms(5) sz len by simp
  then obtain bm' where bm': "bit_set (B (bb G B g)) i = Some bm'" "\<And>k. k < 8 * length (B (bb G B g)) \<Longrightarrow> bit_at bm' k \<longleftrightarrow> k = i \<or> bit_at (B (bb G B g)) k"
    by (rule bit_set_ok) blast
  have free: "free_ok G ?B' (insert ?blk P)" unfolding free_ok_def
  proof (intro allI impI)
    fix g' i' assume g': "g' < g_groups G" and i': "i' < unat (s_blocks_per_group (g_sb G))" and c: "\<not> bit_at (?B' (bb G ?B' g')) i'"
    have "?B' (bb G ?B' g') = (if g' = g then bm else B (bb G B g'))" using b [OF g'] mp(3) [OF g'] nb(1) [OF g'] by simp
    then have c': "\<not> bit_at (B (bb G B g')) i'" "\<not> (g' = g \<and> i' = i)" using c bm' assms(7) i' len sz by (auto split: if_splits)
    with blk_num_inj [OF _ g' assms(4) i' assms(5)] a have "blk_num G g' i' \<noteq> ?blk" by blast
    then show "data_blk (g_bs G) (blk_num G g' i') \<and> blk_num G g' i' \<notin> insert ?blk P" using c'(1) a g' i' by (auto simp: free_ok_def)
  qed
  have "alloc_ok G ?B' (insert ?blk P)"
    using a own free maps_ok_cong [of G ?B' B] b by (auto simp: alloc_ok_def)
  then have ok: "alloc_ok G' ?B' (insert ?blk P)" by (simp only: geo_eq_alloc(4) [OF assms(8)])
  have oth: "?B' b = B b" if "b \<notin> own_blocks G B" "b \<noteq> ?blk" for b using mp(4) [OF that(1)] that(2) by simp
  have "\<exists>k. gd_of G ?B' g' = (gd_of G B g')\<lparr>bg_free_blocks_count := k\<rparr>" if "g' < g_groups G" for g'
    unfolding gd [OF that] mp(1) [OF that] by (rule exI, rule refl)
  moreover have "avail G B \<le> avail G ?B' + 1"
  proof (rule avail_taken [OF assms(4)])
    have m: "?B' (bb G ?B' g') = (if g' = g then bm else B (bb G B g'))" if "g' < g_groups G" for g' using b [OF that] mp(3) [OF that] nb(1) [OF that] by simp
    show "free_in G ?B' g' = free_in G B g'" if "g' < g_groups G" "g' \<noteq> g" for g'
      using gd [OF that(1)] mp(1) [OF that(1)] m [OF that(1)] that(2) by (simp add: free_in_def)
    show "unat (bg_free_blocks_count (gd_of G B g)) \<le> unat (bg_free_blocks_count (gd_of G ?B' g)) + 1"
      using assms(9) unfolding gd [OF assms(4)] mp(1) [OF assms(4)] by simp
    show "bit_at (?B' (bb G ?B' g)) k \<longleftrightarrow> k = i \<or> bit_at (B (bb G B g)) k" if "k < unat (s_blocks_per_group (g_sb G))" for k
      unfolding m [OF assms(4)] using bm' assms(7) that len sz by simp
  qed
  ultimately show ?thesis using blk ok own oth assms(8) by (simp add: allocated_def)
qed

lemma zero_block:
  assumes "fs_at sec L G B s" "bs = g_bs G" "b \<noteq> sb_blk (g_bs G)" "\<And>s'. fs_at sec L G (B(b := replicate (unat (g_bs G)) 0)) s' \<Longrightarrow> Q x s'"
  shows "wp (bnd (new_buf (Suc 0) (uint bs)) (\<lambda>(a, zero). bnd (write_block b zero) (\<lambda>_. bnd (free_buf a) (\<lambda>_. ret x)))) Q s"
  unfolding assms(2) using assms(1)
  apply -
  apply (erule new_bnd, simp, use scratch_sizes [OF fs_at_geom(8) [OF assms(1)]] in simp)
  apply (erule write_bnd, rule assms(3), simp)
  apply (erule free_bnd, assumption, simp add: assms(4))
  done

lemma wp_alloc_block_in:
  assumes "fs_at sec L G B s" "alloc_ok G B P" "g < g_groups G"
  shows "wp (alloc_block_in g) (\<lambda>r s'. case r of None \<Rightarrow> group_full G B g \<and> fs_at sec L G B s'
    | Some blk \<Rightarrow> \<exists>G' B'. allocated G B P blk G' B' \<and> fs_at sec L G' B' s') s"
proof -
  note geo = fs_at_geom [OF assms(1)]
  note bs = bs_ok_facts [OF geo(8)] scratch_sizes [OF geo(8)]
  note ok = alloc_okD [OF assms(2,3)]
  note len = fs_at_lens [OF assms(1)]
  have r: "length (bg_reserved (gd_of G B g)) = 3" by (rule gd_of_at(2) [where B = B and g = g, OF geo(8) lens_okD [OF len ok(1)]])
  let ?gd = "gd_of G B g"
  have mp: "gd_put G (B(bg_block_bitmap ?gd := bm)) g (?gd\<lparr>bg_free_blocks_count := k\<rparr>) = map_put G B g bm k" for bm k
    by (simp add: map_put_def bb_def)
  show ?thesis
  proof (cases "bg_free_blocks_count ?gd = 0")
    case True
    then show ?thesis
      unfolding alloc_block_in_def using assms(1)
      by - (erule read_gd_bnd, rule ok(1), simp add: group_full_def)
  next
    case False
    have alloc: "allocated G B P (blk_num G g i) (G\<lparr>g_sb := (g_sb G)\<lparr>s_free_blocks_count := c\<rparr>\<rparr>)
        ((map_put G B g bm n)(blk_num G g i := replicate (unat (g_bs G)) 0))"
      if "i < unat (s_blocks_per_group (g_sb G))" "\<not> bit_at (B (bb G B g)) i" "bit_set (B (bb G B g)) i = Some bm" "n = bg_free_blocks_count ?gd - 1" for i bm n c
    proof -
      have "unat (bg_free_blocks_count ?gd) \<le> unat n + 1" using False that(4) by (simp add: unat_minus_one)
      from allocatedI [OF assms(2) geo(8) len assms(3) that(1-3) geo_eq_blocks this] show ?thesis .
    qed
    show ?thesis
      unfolding alloc_block_in_def using assms(1)
      apply -
      apply (erule read_gd_bnd, rule ok(1))
      apply (simp add: False fs_at_geom(1))
      apply (erule bitmap_alloc_bnd, use ok(2) in \<open>simp add: bb_def\<close>, rule ok(5))
       apply (simp add: group_full_def bb_def)
      apply simp
      apply (erule write_gd_bnd, rule ok(1), simp add: r)
      apply (simp only: mp)
      apply (erule set_sb_bnd, erule write_superblock_bnd)
      apply (simp add: fs_at_geom(2) Let_def del: bnd_assoc flip: blk_num_def)
      apply (erule zero_block, simp, use alloc data_blk_sb in \<open>fastforce simp: allocated_def bb_def\<close>)
      apply (use alloc in \<open>fastforce simp: bb_def\<close>)
      done
  qed
qed

definition disk_full :: "geom \<Rightarrow> (u32 \<Rightarrow> bytes) \<Rightarrow> bool" where
  "disk_full G B \<longleftrightarrow> (\<forall>g<g_groups G. group_full G B g)"

lemma disk_full_avail:
  assumes "disk_full G B"
  shows "avail G B = 0"
  unfolding avail_def
proof (intro sum.neutral ballI)
  fix g assume "g \<in> {g. g < g_groups G}"
  then consider "bg_free_blocks_count (gd_of G B g) = 0" | "{i. i < unat (s_blocks_per_group (g_sb G)) \<and> \<not> bit_at (B (bb G B g)) i} = {}"
    using assms by (auto simp: disk_full_def group_full_def)
  then show "free_in G B g = 0"
  proof cases
    case 2 then show ?thesis unfolding free_in_def 2 by simp
  qed (simp add: free_in_def)
qed

lemma wp_alloc_block_loop:
  assumes "alloc_ok G B P"
  shows "fs_at sec L G B s \<Longrightarrow> (\<And>g. g \<in> set gs \<Longrightarrow> g < unat (g_groups G)) \<Longrightarrow>
    wp (alloc_block_loop gs) (\<lambda>blk s'. if blk = 0 then (\<forall>g\<in>set gs. group_full G B (of_nat g)) \<and> fs_at sec L G B s'
      else \<exists>G' B'. allocated G B P blk G' B' \<and> fs_at sec L G' B' s') s"
proof (induction gs arbitrary: s)
  case (Cons g gs)
  have "unat (of_nat g :: u32) = g" using Cons.prems(2) [of g] unat_u32_lt [of "g_groups G"] by (intro unat_of_nat_small) simp
  then have g: "of_nat g < g_groups G" using Cons.prems(2) [of g] by (simp add: word_less_nat_alt)
  show ?case unfolding alloc_block_loop.simps
  proof (rule wp_bndI [OF wp_alloc_block_in [OF Cons.prems(1) assms g]])
    fix r s' assume r: "case r of None \<Rightarrow> group_full G B (of_nat g) \<and> fs_at sec L G B s'
      | Some blk \<Rightarrow> \<exists>G' B'. allocated G B P blk G' B' \<and> fs_at sec L G' B' s'"
    show "wp (case r of None \<Rightarrow> alloc_block_loop gs | Some blk \<Rightarrow> ret blk)
       (\<lambda>blk s'. if blk = 0 then (\<forall>g\<in>set (g # gs). group_full G B (of_nat g)) \<and> fs_at sec L G B s'
        else \<exists>G' B'. allocated G B P blk G' B' \<and> fs_at sec L G' B' s') s'"
    proof (cases r)
      case None
      with r have "group_full G B (of_nat g)" "fs_at sec L G B s'" by simp_all
      moreover have "\<And>g. g \<in> set gs \<Longrightarrow> g < unat (g_groups G)" using Cons.prems(2) by simp
      ultimately show ?thesis using None by (auto intro: wp_mono [OF Cons.IH] split: if_splits)
    next
      case (Some blk)
      then have "blk \<noteq> 0" using r by (auto simp: allocated_def data_blk_def)
      then show ?thesis using r Some by simp
    qed
  qed
qed simp

lemma wp_alloc_block:
  assumes "fs_at sec L G B s" "alloc_ok G B P"
  shows "wp alloc_block (\<lambda>blk s'. if blk = 0 then disk_full G B \<and> fs_at sec L G B s'
      else \<exists>G' B'. allocated G B P blk G' B' \<and> fs_at sec L G' B' s') s"
proof -
  have full: "disk_full G B" if "\<forall>g\<in>set [0..<unat (g_groups G)]. group_full G B (of_nat g)"
    unfolding disk_full_def
  proof (intro allI impI)
    fix g assume "g < g_groups G"
    then have "unat g \<in> set [0..<unat (g_groups G)]" by (simp add: word_less_nat_alt)
    then have "group_full G B (of_nat (unat g))" using that by blast
    then show "group_full G B g" by simp
  qed
  have "wp (alloc_block_loop [0..<unat (g_groups G)]) (\<lambda>blk s'. if blk = 0 then disk_full G B \<and> fs_at sec L G B s'
      else \<exists>G' B'. allocated G B P blk G' B' \<and> fs_at sec L G' B' s') s"
    by (rule wp_mono [OF wp_alloc_block_loop [OF assms(2,1)]]) (use full in \<open>auto split: if_splits\<close>)
  then show ?thesis by (simp add: alloc_block_def fs_at_geom(4) [OF assms(1)])
qed

lemma alloc_bnd:
  assumes "fs_at sec L G B s" "alloc_ok G B P"
    and "\<And>s'. disk_full G B \<Longrightarrow> fs_at sec L G B s' \<Longrightarrow> wp (f 0) Q s'"
    and "\<And>blk G' B' s'. blk \<noteq> 0 \<Longrightarrow> allocated G B P blk G' B' \<Longrightarrow> fs_at sec L G' B' s' \<Longrightarrow> wp (f blk) Q s'"
  shows "wp (bnd alloc_block f) Q s"
  by (rule wp_bndI [OF wp_alloc_block [OF assms(1,2)]]) (use assms(3,4) in \<open>auto split: if_splits\<close>)

subsection \<open>Giving a block back\<close>

lemma alloc_ok_mono: "alloc_ok G B P \<Longrightarrow> own_blocks G B \<subseteq> P' \<Longrightarrow> P' \<subseteq> P \<Longrightarrow> alloc_ok G B P'"
  by (auto simp: alloc_ok_def free_ok_def)

definition released :: "geom \<Rightarrow> (u32 \<Rightarrow> bytes) \<Rightarrow> u32 set \<Rightarrow> geom \<Rightarrow> (u32 \<Rightarrow> bytes) \<Rightarrow> bool" where
  "released G B P G' B' \<longleftrightarrow> geo_eq G G' \<and> alloc_ok G' B' P \<and> own_blocks G B' = own_blocks G B \<and> (\<forall>b. b \<notin> own_blocks G B \<longrightarrow> B' b = B b) \<and>
     (\<forall>g<g_groups G. \<exists>n. gd_of G B' g = (gd_of G B g)\<lparr>bg_free_blocks_count := n\<rparr>)"

lemma releasedI:
  assumes "alloc_ok G B P" "bs_ok (g_bs G)" "lens_ok G B" "g < g_groups G" "i < unat (s_blocks_per_group (g_sb G))"
    "bit_clear (B (bb G B g)) i = Some bm" "geo_eq G G'" "data_blk (g_bs G) (blk_num G g i)" "blk_num G g i \<notin> own_blocks G B"
  shows "released G B (P - {blk_num G g i}) G' (map_put G B g bm n)"
proof -
  note a = assms(1) [unfolded alloc_ok_def]
  let ?blk = "blk_num G g i" and ?B' = "map_put G B g bm n"
  have m: "maps_ok G B" using a by blast
  note mp = map_put_facts [where B = B and G = G and g = g and bm = bm and n = n, OF assms(2,3) m assms(4)]
  have own: "own_blocks G ?B' = own_blocks G B" by (rule image_bb_cong) (rule mp(2))
  have len: "length (B (bb G B g)) = unat (g_bs G)" by (rule lens_okD [OF assms(3) alloc_okD(2) [OF assms(1,4)]])
  have sz: "unat (s_blocks_per_group (g_sb G)) \<le> 8 * unat (g_bs G)" by (rule alloc_okD(5) [OF assms(1,4)])
  have "i < 8 * length (B (bb G B g))" using assms(5) sz len by simp
  then obtain bm' where bm': "bit_clear (B (bb G B g)) i = Some bm'" "\<And>k. k < 8 * length (B (bb G B g)) \<Longrightarrow> bit_at bm' k \<longleftrightarrow> k \<noteq> i \<and> bit_at (B (bb G B g)) k"
    by (rule bit_clear_ok) blast
  have free: "free_ok G ?B' (P - {?blk})" unfolding free_ok_def
  proof (intro allI impI)
    fix g' i' assume g': "g' < g_groups G" and i': "i' < unat (s_blocks_per_group (g_sb G))" and c: "\<not> bit_at (?B' (bb G ?B' g')) i'"
    have "?B' (bb G ?B' g') = (if g' = g then bm else B (bb G B g'))" using mp(2,3) [OF g'] by simp
    then have c': "\<not> bit_at (B (bb G B g')) i' \<or> (g' = g \<and> i' = i)" using c bm' assms(6) i' len sz by (auto split: if_splits)
    then show "data_blk (g_bs G) (blk_num G g' i') \<and> blk_num G g' i' \<notin> P - {?blk}" using a g' i' assms(8) by (auto simp: free_ok_def)
  qed
  have "alloc_ok G ?B' (P - {?blk})"
    using a own free maps_ok_cong [of G ?B' B] mp(2) assms(9) by (auto simp: alloc_ok_def)
  then have ok: "alloc_ok G' ?B' (P - {?blk})" by (simp only: geo_eq_alloc(4) [OF assms(7)])
  have "\<exists>k. gd_of G ?B' g' = (gd_of G B g')\<lparr>bg_free_blocks_count := k\<rparr>" if "g' < g_groups G" for g' unfolding mp(1) [OF that] by (rule exI, rule refl)
  then show ?thesis using ok own mp(4) assms(7) by (simp add: released_def)
qed

lemma free_block_bnd:
  assumes "fs_at sec L G B s" "alloc_ok G B P" "data_blk (g_bs G) blk" "blk \<notin> own_blocks G B"
    and "\<And>G' B' s'. released G B (P - {blk}) G' B' \<Longrightarrow> fs_at sec L G' B' s' \<Longrightarrow> wp (f ()) Q s'"
  shows "wp (bnd (free_block blk) f) Q s"
proof -
  note geo = fs_at_geom [OF assms(1)]
  let ?n = "s_blocks_per_group (g_sb G)" and ?rel = "blk - s_first_data_block (g_sb G)"
  define g where "g = ?rel div ?n"
  have n0: "?n \<noteq> 0" using assms(2) by (simp add: alloc_ok_def range_ok_def geom_ok_def)
  have "alloc_ok G B (P - {blk})" using assms(2,4) by (intro alloc_ok_mono [OF assms(2)]) (auto simp: alloc_ok_def)
  moreover have "\<exists>k. gd_of G B h = (gd_of G B h)\<lparr>bg_free_blocks_count := k\<rparr>" for h by (intro exI [of _ "bg_free_blocks_count (gd_of G B h)"]) simp
  ultimately have same: "released G B (P - {blk}) G B" by (simp add: released_def)
  show ?thesis
  proof (cases "blk < s_first_data_block (g_sb G) \<or> g \<ge> g_groups G")
    case True
    then show ?thesis unfolding free_block_def using n0 assms(1,5) same by (auto simp: geo g_def Let_def)
  next
    case False
    then have g: "g < g_groups G" by (simp add: not_le)
    note ok = alloc_okD [OF assms(2) g]
    note len = fs_at_lens [OF assms(1)]
    have r: "length (bg_reserved (gd_of G B g)) = 3" by (rule gd_of_at(2) [where B = B and g = g, OF geo(8) lens_okD [OF len ok(1)]])
    have i: "unat (?rel mod ?n) < unat ?n" using n0 by (simp add: unat_mod unat_gt_0)
    have "?rel = g * ?n + ?rel mod ?n" unfolding g_def by (rule word_mod_div_equality [symmetric])
    then have blk: "blk_num G g (unat (?rel mod ?n)) = blk" by (simp add: blk_num_def algebra_simps)
    have rel: "released G B (P - {blk}) (G\<lparr>g_sb := (g_sb G)\<lparr>s_free_blocks_count := c\<rparr>\<rparr>) (map_put G B g bm k)"
      if "bit_clear (B (bb G B g)) (unat (?rel mod ?n)) = Some bm" for bm k c
      using releasedI [OF assms(2) geo(8) len g i that geo_eq_blocks] assms(3,4) unfolding blk .
    have mp: "gd_put G (B(bg_block_bitmap (gd_of G B g) := bm)) g ((gd_of G B g)\<lparr>bg_free_blocks_count := k\<rparr>) = map_put G B g bm k" for bm k
      by (simp add: map_put_def bb_def)
    have i8: "unat (?rel mod ?n) < 8 * unat (g_bs G)" using i ok(5) by simp
    show ?thesis
      unfolding free_block_def using assms(1) False n0
      apply (simp add: geo Let_def g_def [symmetric])
      apply (erule read_gd_bnd, rule ok(1))
      apply simp
      apply (erule bitmap_free_bnd, use ok(2) in \<open>simp add: bb_def\<close>, rule i8)
      apply (erule write_gd_bnd, rule ok(1), simp add: r)
      apply (simp only: mp)
      apply (erule set_sb_bnd, erule write_superblock_bnd)
      apply simp
      apply (rule assms(5) [rotated], assumption)
      apply (rule rel, simp add: bb_def)
      done
  qed
qed

end
