(* ===== verification/Ext2_Room.thy ===== *)
theory Ext2_Room
  imports Ext2_Inv
begin

text \<open>
  When the operations of the file system return. Every operation takes its scratch buffers from the heap of the file system and
  panics when the heap is used up. \<open>uses bs n k m\<close> bounds the slabs that \<open>m\<close> takes from the part of the heap that is not
  carved up yet, on a disk with blocks of \<open>bs\<close> bytes and \<open>n\<close> groups: when \<open>k\<close> slabs are left, \<open>m\<close> does not find the heap used up.
  A buffer that is given back is not counted as available again, so the bounds are safe and not tight.
\<close>

subsection \<open>The heap\<close>

definition slabs_for :: "nat \<Rightarrow> nat" where
  "slabs_for k = max 1 ((k + (SLAB_SIZE - 1)) div SLAB_SIZE)"

definition heap_room :: "heap \<Rightarrow> nat" where
  "heap_room h = (h_end h - h_bump h) div SLAB_SIZE"

definition fs_room :: "'d ext2 \<Rightarrow> nat" where
  "fs_room s = (case fs_heap s of None \<Rightarrow> 0 | Some h \<Rightarrow> heap_room h)"

lemma slabs_for_1: "k \<le> SLAB_SIZE \<Longrightarrow> slabs_for k = 1"
proof -
  assume "k \<le> SLAB_SIZE"
  then have "(k + (SLAB_SIZE - 1)) div SLAB_SIZE \<le> (SLAB_SIZE + (SLAB_SIZE - 1)) div SLAB_SIZE" by (intro div_le_mono) simp
  then show ?thesis by (simp add: slabs_for_def SLAB_SIZE_def)
qed

lemma carve_room:
  assumes "n \<le> k" "1 \<le> k" "k \<le> heap_room h"
  shows "carve h n = Inr (slab_of h (h_bump h), h\<lparr>h_bump := h_bump h + n * SLAB_SIZE\<rparr>)"
    "heap_room h \<le> heap_room (h\<lparr>h_bump := h_bump h + n * SLAB_SIZE\<rparr>) + k"
proof -
  have "heap_room h * SLAB_SIZE \<le> h_end h - h_bump h" unfolding heap_room_def by (rule div_times_less_eq_dividend)
  moreover have "n * SLAB_SIZE \<le> heap_room h * SLAB_SIZE" "1 * SLAB_SIZE \<le> heap_room h * SLAB_SIZE"
    using assms by (intro mult_le_mono1; simp)+
  ultimately have le: "n * SLAB_SIZE \<le> h_end h - h_bump h" "SLAB_SIZE \<le> h_end h - h_bump h" by linarith+
  then show "carve h n = Inr (slab_of h (h_bump h), h\<lparr>h_bump := h_bump h + n * SLAB_SIZE\<rparr>)"
    by (simp add: carve_def SLAB_SIZE_def)
  have "h_end h - h_bump h = h_end h - (h_bump h + n * SLAB_SIZE) + n * SLAB_SIZE" using le by linarith
  then have "(h_end h - h_bump h) div SLAB_SIZE = (h_end h - (h_bump h + n * SLAB_SIZE) + n * SLAB_SIZE) div SLAB_SIZE" by (rule arg_cong)
  also have "\<dots> = (h_end h - (h_bump h + n * SLAB_SIZE)) div SLAB_SIZE + n" by (simp add: SLAB_SIZE_def)
  finally show "heap_room h \<le> heap_room (h\<lparr>h_bump := h_bump h + n * SLAB_SIZE\<rparr>) + k" using assms(1) by (simp add: heap_room_def)
qed

lemma heap_room_frame [simp]:
  "heap_room (snd (take_block h c s n)) = heap_room h" "heap_room (fresh_slab h c s) = heap_room h"
  "heap_room (unlink_run h prev r) = heap_room h" "heap_room (split_run h r k) = heap_room h"
  "heap_room (free_small h s p) = heap_room h" "heap_room (heap_free h p) = heap_room h"
  "heap_room (h\<lparr>h_mem := m\<rparr>) = heap_room h" "heap_room (h\<lparr>h_descs := d\<rparr>) = heap_room h"
  by (simp_all add: heap_room_def take_block_def fresh_slab_def unlink_run_def split_run_def free_small_def heap_free_def Let_def
      split: prod.split option.split)

lemma alloc_small_room:
  assumes "1 \<le> heap_room h"
  shows "\<exists>p h'. alloc_small h n = Inr (p, h') \<and> heap_room h \<le> heap_room h' + 1"
proof (cases "h_partial h ! size_to_class n")
  case None
  have "carve h 1 = Inr (slab_of h (h_bump h), h\<lparr>h_bump := h_bump h + 1 * SLAB_SIZE\<rparr>)" by (rule carve_room(1)) (use assms in auto)
  moreover have "heap_room h \<le> heap_room (h\<lparr>h_bump := h_bump h + 1 * SLAB_SIZE\<rparr>) + 1" by (rule carve_room(2)) (use assms in auto)
  ultimately have "\<exists>r. alloc_small h n = Inr r \<and> heap_room h \<le> heap_room (snd r) + 1"
    using None by (simp add: alloc_small_def Let_def)
  then show ?thesis by (metis prod.collapse)
next
  case (Some s)
  then have "\<exists>r. alloc_small h n = Inr r \<and> heap_room h \<le> heap_room (snd r) + 1" by (simp add: alloc_small_def Let_def)
  then show ?thesis by (metis prod.collapse)
qed

lemma alloc_large_room:
  assumes "slabs_for tot \<le> heap_room h"
  shows "\<exists>p h'. alloc_large h tot = Inr (p, h') \<and> heap_room h \<le> heap_room h' + slabs_for tot"
proof -
  let ?n = "((tot + SLAB_SIZE - 1) div SLAB_SIZE) mod 2 ^ 32"
  have "?n \<le> (tot + (SLAB_SIZE - 1)) div SLAB_SIZE" by (simp add: SLAB_SIZE_def)
  then have n: "?n \<le> slabs_for tot" "1 \<le> slabs_for tot" by (auto simp: slabs_for_def)
  note c = carve_room [OF n assms]
  show ?thesis
  proof (cases "find_run (Suc (slab_of h (h_bump h))) (h_descs h) ?n None (h_free_runs h)")
    case None
    then show ?thesis using c by (simp add: alloc_large_def Let_def del: find_run.simps)
  next
    case (Some r)
    then show ?thesis by (cases r) (simp add: alloc_large_def Let_def del: find_run.simps)
  qed
qed

lemma heap_alloc_room:
  assumes "slabs_for (nat (sz * n)) \<le> heap_room h"
  shows "(\<exists>e. heap_alloc h sz algn n = Inl e \<and> e \<noteq> oom) \<or> (\<exists>p h'. heap_alloc h sz algn n = Inr (p, h') \<and> heap_room h \<le> heap_room h' + slabs_for (nat (sz * n)))"
proof -
  let ?t = "if sz * n = 0 then 1 else nat (sz * n)"
  have t: "slabs_for ?t = slabs_for (nat (sz * n))" "1 \<le> slabs_for (nat (sz * n))" by (auto simp: slabs_for_def SLAB_SIZE_def)
  obtain p h' q k' where "alloc_small h ?t = Inr (p, h')" "heap_room h \<le> heap_room h' + 1"
    "alloc_large h ?t = Inr (q, k')" "heap_room h \<le> heap_room k' + slabs_for ?t"
    using alloc_small_room [of h ?t] alloc_large_room [of ?t h] assms t by auto
  then show ?thesis using t by (auto simp: heap_alloc_def Let_def oom_def)
qed

lemma slabs_for_pos: "1 \<le> slabs_for k" "slabs_for (max 1 k) = slabs_for k"
  by (auto simp: slabs_for_def SLAB_SIZE_def max_def)

subsection \<open>Slabs that a run takes\<close>

definition uses :: "u32 \<Rightarrow> u32 \<Rightarrow> nat \<Rightarrow> ('d ext2, 'a) cm \<Rightarrow> bool" where
  "uses bs gr k m \<longleftrightarrow> (\<forall>s. fs_block_size s = bs \<and> fs_groups s = gr \<and> k \<le> fs_room s \<longrightarrow>
     (case m s of None \<Rightarrow> True | Some (Inl e) \<Rightarrow> e \<noteq> oom
      | Some (Inr (x, s')) \<Rightarrow> fs_block_size s' = bs \<and> fs_groups s' = gr \<and> fs_room s \<le> fs_room s' + k))"

text \<open>A run as specified that returns when there is room.\<close>

definition runs :: "nat \<Rightarrow> ('d ext2, 'a) cm \<Rightarrow> ('a \<Rightarrow> 'd ext2 \<Rightarrow> bool) \<Rightarrow> 'd ext2 \<Rightarrow> bool" where
  "runs k m Q s \<longleftrightarrow> wp m Q s \<and> (k \<le> fs_room s \<longrightarrow> (\<exists>x s'. m s = Some (Inr (x, s')) \<and> Q x s'))"

lemma runsI:
  assumes "wp m Q s" "uses (fs_block_size s) (fs_groups s) k m"
  shows "runs k m Q s"
  using assms(1) assms(2) [unfolded uses_def, rule_format, of s]
  by (cases "m s"; cases "the (m s)") (auto simp: wp_def runs_def)

lemma runsE:
  assumes "runs k m Q s" "k \<le> fs_room s"
  obtains x s' where "m s = Some (Inr (x, s'))" "Q x s'"
  using assms by (auto simp: runs_def)

lemma runs_mono: "runs k m Q s \<Longrightarrow> (\<And>x s'. Q x s' \<Longrightarrow> R x s') \<Longrightarrow> runs k m R s"
  unfolding runs_def by (blast intro: wp_mono)

lemma uses_mono: "uses bs gr k m \<Longrightarrow> k \<le> k' \<Longrightarrow> uses bs gr k' m"
  unfolding uses_def
proof (intro allI impI, goal_cases)
  case (1 s)
  then have "k \<le> fs_room s" by simp
  with 1 show ?case by (cases "m s"; cases "the (m s)") fastforce+
qed

lemma uses_bnd:
  assumes "uses bs gr k m" "\<And>x. uses bs gr k' (f x)"
  shows "uses bs gr (k + k') (bnd m f)"
  unfolding uses_def
proof (intro allI impI)
  fix s :: "'a ext2" assume s: "fs_block_size s = bs \<and> fs_groups s = gr \<and> k + k' \<le> fs_room s"
  show "case bnd m f s of None \<Rightarrow> True | Some (Inl e) \<Rightarrow> e \<noteq> oom
    | Some (Inr (x, s')) \<Rightarrow> fs_block_size s' = bs \<and> fs_groups s' = gr \<and> fs_room s \<le> fs_room s' + (k + k')"
  proof (cases "m s")
    case (Some r)
    note m = assms(1) [unfolded uses_def, rule_format, of s]
    show ?thesis
    proof (cases r)
      case (Inr p)
      obtain x s1 where p: "p = (x, s1)" by (cases p)
      have s1: "fs_block_size s1 = bs" "fs_groups s1 = gr" "fs_room s \<le> fs_room s1 + k" using m s Some Inr p by auto
      then have "k' \<le> fs_room s1" using s by linarith
      then show ?thesis using assms(2) [unfolded uses_def, rule_format, of s1 x] s1 Some Inr p
        by (auto simp: bnd_def split: option.splits sum.splits)
    qed (use m s Some in \<open>simp add: bnd_def\<close>)
  qed (simp add: bnd_def)
qed

lemma uses_leaf:
  "uses bs gr 0 (ret x)" "uses bs gr 0 ub" "uses bs gr 0 (need b)" "uses bs gr 0 (chk r)" "uses bs gr 0 (get g)" "uses bs gr 0 (set_sb f)"
  by (auto simp: uses_def ret_def ub_def need_def chk_def get_def set_sb_def upd_def fs_room_def split: option.split)

lemma uses_geom:
  "uses bs gr k (f bs) \<Longrightarrow> uses bs gr k (bnd (get fs_block_size) f)" "uses bs gr k (f' gr) \<Longrightarrow> uses bs gr k (bnd (get fs_groups) f')"
  by (auto simp: uses_def)

lemma uses_split:
  "uses bs gr k m \<Longrightarrow> uses bs gr k' m' \<Longrightarrow> uses bs gr (max k k') (if b then m else m')"
  "(\<And>a b. uses bs gr k (f a b)) \<Longrightarrow> uses bs gr k (case p of (a, b) \<Rightarrow> f a b)"
  "uses bs gr k m \<Longrightarrow> (\<And>x. uses bs gr k' (g x)) \<Longrightarrow> uses bs gr (max k k') (case r of None \<Rightarrow> m | Some x \<Rightarrow> g x)"
  "uses bs gr k (h v) \<Longrightarrow> uses bs gr k (let x = v in h x)"
  by (simp_all split: prod.split option.split add: uses_mono [OF _ max.cobounded1] uses_mono [OF _ max.cobounded2])

lemma uses_new_buf: "uses bs gr (slabs_for (sz * nat n)) (new_buf sz n)"
  unfolding uses_def
proof (intro allI impI)
  fix s :: "'a ext2" assume s: "fs_block_size s = bs \<and> fs_groups s = gr \<and> slabs_for (sz * nat n) \<le> fs_room s"
  have t: "nat (int sz * n) = sz * nat n" by (simp add: nat_mult_distrib)
  show "case new_buf sz n s of None \<Rightarrow> True | Some (Inl e) \<Rightarrow> e \<noteq> oom
    | Some (Inr (x, s')) \<Rightarrow> fs_block_size s' = bs \<and> fs_groups s' = gr \<and> fs_room s \<le> fs_room s' + slabs_for (sz * nat n)"
  proof (cases "fs_heap s")
    case (Some h)
    then show ?thesis using heap_alloc_room [of "int sz" n h "int sz"] s by (auto simp: new_buf_def fs_room_def t)
  qed (simp add: new_buf_def)
qed

lemma uses_scratch:
  assumes "bs_ok bs"
  shows "uses bs gr 1 (new_buf 1 (uint bs))" "uses bs gr 1 (new_buf 4 (uint (bs div 4)))"
proof -
  have b: "1 * nat (uint bs) \<le> SLAB_SIZE" "4 * nat (uint (bs div 4)) \<le> SLAB_SIZE" using assms by (auto simp: bs_ok_def SLAB_SIZE_def)
  show "uses bs gr 1 (new_buf 1 (uint bs))" using uses_new_buf [of bs gr 1 "uint bs"] slabs_for_1 [OF b(1)] by simp
  show "uses bs gr 1 (new_buf 4 (uint (bs div 4)))" using uses_new_buf [of bs gr 4 "uint (bs div 4)"] slabs_for_1 [OF b(2)] by simp
qed

lemma uses_free_buf: "uses bs gr 0 (free_buf a)"
  by (auto simp: uses_def free_buf_def fs_room_def split: option.split)

lemma uses_raw: "uses bs gr 0 (raw_read lba n buf)" "uses bs gr 0 (raw_write lba n buf)"
  by (auto simp: uses_def raw_read_def raw_write_def fs_room_def split: option.split prod.split)

lemma uses_block:
  "uses bs gr 0 (read_block b buf :: ('d ext2, bool \<times> bytes) cm)" "uses bs gr 0 (write_block b buf :: ('d ext2, bool) cm)"
proof -
  have r: "read_block b buf s = raw_read (ucast b * ucast (bs div 512)) (bs div 512) buf s"
    "write_block b buf s = raw_write (ucast b * ucast (bs div 512)) (bs div 512) buf s"
    if "fs_block_size s = bs" "fs_cache s = None" for s :: "'d ext2" using that by (simp_all add: read_block_def write_block_def Let_def)
  note raw = uses_raw [of bs gr "ucast b * ucast (bs div 512)" "bs div 512" buf, unfolded uses_def, rule_format]
  show "uses bs gr 0 (read_block b buf :: ('d ext2, bool \<times> bytes) cm)" unfolding uses_def
  proof (intro allI impI, goal_cases)
    case (1 s)
    show ?case
    proof (cases "fs_cache s")
      case None then show ?thesis using r(1) [of s] raw(1) [of s] 1 by simp
    qed (use 1 in \<open>simp add: read_block_def fs_room_def split: option.split\<close>)
  qed
  show "uses bs gr 0 (write_block b buf :: ('d ext2, bool) cm)" unfolding uses_def
  proof (intro allI impI, goal_cases)
    case (1 s)
    show ?case
    proof (cases "fs_cache s")
      case None then show ?thesis using r(2) [of s] raw(2) [of s] 1 by simp
    qed (use 1 in \<open>simp add: write_block_def fs_room_def split: option.split\<close>)
  qed
qed

subsection \<open>The operations\<close>

lemmas uses_rules = uses_geom uses_split uses_bnd uses_leaf uses_free_buf uses_block uses_raw

lemma uses_read_group_desc: "bs_ok bs \<Longrightarrow> uses bs gr 1 (read_group_desc g)"
  unfolding read_group_desc_def by (rule uses_mono, (rule uses_rules uses_scratch | assumption)+, simp)

lemma uses_write_group_desc: "bs_ok bs \<Longrightarrow> uses bs gr 1 (write_group_desc g gd)"
  unfolding write_group_desc_def by (rule uses_mono, (rule uses_rules uses_scratch | assumption)+, simp)

lemma uses_read_inode: "bs_ok bs \<Longrightarrow> uses bs gr 2 (read_inode ino)"
  unfolding read_inode_def by (rule uses_mono, (rule uses_rules uses_scratch uses_read_group_desc | assumption)+, simp)

lemma uses_write_inode: "bs_ok bs \<Longrightarrow> uses bs gr 2 (write_inode ino i)"
  unfolding write_inode_def by (rule uses_mono, (rule uses_rules uses_scratch uses_read_group_desc | assumption)+, simp)

lemma uses_write_superblock: "uses bs gr 0 write_superblock"
  unfolding write_superblock_def by (rule uses_mono, (rule uses_rules)+, simp)

lemma uses_block_of: "bs_ok bs \<Longrightarrow> uses bs gr 1 (block_of i n)"
  unfolding block_of_def by (rule uses_mono, (rule uses_rules uses_scratch | assumption)+, simp)

lemma uses_map_double: "uses bs gr 0 (map_double n per l1 js l2 phys)"
  by (induction js arbitrary: l2 phys) (simp_all, (rule uses_mono, (rule uses_rules | assumption)+, simp)+)

lemma uses_map_blocks: "bs_ok bs \<Longrightarrow> uses bs gr 2 (map_blocks i n phys)"
  unfolding map_blocks_def by (rule uses_mono, (rule uses_rules uses_scratch uses_map_double | assumption)+, simp)

lemma uses_bnd0: "uses bs gr 0 m \<Longrightarrow> (\<And>x. uses bs gr 0 (f x)) \<Longrightarrow> uses bs gr 0 (bnd m f)"
  using uses_bnd [of bs gr 0 m 0 f] by simp

lemma uses_read_run: "uses bs gr 0 (read_run p run off out :: ('d ext2, bytes) cm)"
  unfolding uses_def
proof (intro allI impI, goal_cases)
  case (1 s)
  have raw: "uses bs gr 0 (bnd (raw_read lba n buf) (\<lambda>(_, buf). ret (store out off buf)))" for lba n buf by (rule uses_bnd0 uses_rules)+
  show ?case
  proof (cases "get_bytes out off (unat run * unat bs)")
    case (Some buf)
    show ?thesis
    proof (cases "fs_cache s")
      case None
      with Some 1 show ?thesis
        using raw [of "ucast p * ucast (bs div 512)" "run * (bs div 512)" buf, unfolded uses_def, rule_format, of s] by (simp add: read_run_def Let_def)
    qed (use Some 1 in \<open>simp add: read_run_def fs_room_def Let_def split: option.split\<close>)
  qed (use 1 in \<open>simp add: read_run_def Let_def\<close>)
qed

lemma uses_read_runs: "uses bs gr 0 (read_runs bs' full phys i out :: ('d ext2, bytes) cm)"
proof (induction bs' full phys i out rule: read_runs.induct)
  case (1 bs' full phys i out)
  have "uses bs gr 0 (case r of None \<Rightarrow> ub :: ('d ext2, bytes) cm | Some p \<Rightarrow> if p = 0
      then bnd (chk (put_bytes out (i * unat bs') (replicate (unat bs') 0))) (\<lambda>out. read_runs bs' full phys (i + 1) out)
      else (case run_len phys full i p 1 of None \<Rightarrow> ub
        | Some run \<Rightarrow> bnd (read_run p (of_nat run) (i * unat bs') out) (\<lambda>out. read_runs bs' full phys (i + run) out)))"
    if "i < full" "rd phys i = r" for r
    using that by (auto intro!: uses_leaf uses_bnd0 uses_read_run intro: 1 simp del: rd_eq_Some One_nat_def split: option.split)
  then show ?case by (subst read_runs.simps) (simp add: uses_leaf)
qed

lemma uses_read_tail: "bs_ok bs \<Longrightarrow> uses bs gr 1 (read_tail bs phys full rem out)"
  unfolding read_tail_def by (rule uses_mono, (rule uses_rules uses_scratch | assumption)+, simp)

lemma uses_bitmap_alloc: "bs_ok bs \<Longrightarrow> uses bs gr 1 (bitmap_alloc b nb)"
  unfolding bitmap_alloc_def by (rule uses_mono, (rule uses_rules uses_scratch | assumption)+, simp)

lemma uses_bitmap_free: "bs_ok bs \<Longrightarrow> uses bs gr 1 (bitmap_free b i)"
  unfolding bitmap_free_def by (rule uses_mono, (rule uses_rules uses_scratch | assumption)+, simp)

lemmas uses_alloc_rules = uses_rules uses_scratch uses_read_group_desc uses_write_group_desc uses_bitmap_alloc uses_bitmap_free uses_write_superblock

lemma uses_alloc_block_in: "bs_ok bs \<Longrightarrow> uses bs gr 4 (alloc_block_in g)"
  unfolding alloc_block_in_def by (rule uses_mono, (rule uses_alloc_rules | assumption)+, simp)

lemma uses_alloc_block_loop: "bs_ok bs \<Longrightarrow> uses bs gr (4 * length gs) (alloc_block_loop gs)"
  by (induction gs) (simp_all add: uses_leaf, rule uses_mono, (rule uses_alloc_rules uses_alloc_block_in | assumption)+, simp)

lemma uses_alloc_block: "bs_ok bs \<Longrightarrow> uses bs gr (4 * unat gr) alloc_block"
  unfolding alloc_block_def by (rule uses_mono, (rule uses_rules uses_alloc_block_loop | assumption)+, simp)

lemma uses_free_block: "bs_ok bs \<Longrightarrow> uses bs gr 3 (free_block b)"
  unfolding free_block_def by (rule uses_mono, (rule uses_alloc_rules | assumption)+, simp)

lemma uses_set_block_of: "bs_ok bs \<Longrightarrow> uses bs gr (4 * unat gr + 1) (set_block_of i n b)"
  unfolding set_block_of_def by (rule uses_mono, (rule uses_alloc_rules uses_alloc_block | assumption)+, simp)

lemma uses_write_data: "bs_ok bs \<Longrightarrow> uses bs gr ((8 * unat gr + 1) * length bis + 3) (write_data bs data fsize bis i)"
proof (induction bis arbitrary: i)
  case (Cons bi bis)
  note IH = Cons.IH [OF Cons.prems]
  show ?case
    apply simp
    apply (rule uses_mono, (rule uses_rules uses_alloc_block [OF Cons.prems] uses_set_block_of [OF Cons.prems] uses_free_block [OF Cons.prems] IH)+)
    apply (simp add: algebra_simps)
    done
qed (simp add: uses_mono [OF uses_leaf(1)])

end
