(* ===== verification/Ext2_Image.thy ===== *)
theory Ext2_Image
  imports Ext2_Room Bcache_Spec
begin

text \<open>
  Small disks in memory, with blocks of 1024 bytes: any contents of the blocks are those of a mounted file system, and \<open>small_sb\<close> is
  the superblock of a disk with one group of 64 blocks and 16 inodes.
\<close>

definition disk_of :: "(u32 \<Rightarrow> bytes) \<Rightarrow> nat \<Rightarrow> bytes" where
  "disk_of img i = bslice (img (of_nat (i div 2))) (512 * (i mod 2)) 512"

lemma block_at_disk_of:
  assumes "length (img b) = 1024"
  shows "block_at ram_sec 2 (disk_of img) b = img b"
proof -
  have r: "[unat b * 2..<unat b * 2 + 2] = [unat b * 2, unat b * 2 + 1]" by (simp add: upt_rec)
  have "take 512 (drop 512 (img b)) = drop 512 (img b)" using assms by simp
  then have "take 512 (img b) @ take 512 (drop 512 (img b)) = img b" by (simp only: append_take_drop_id)
  moreover have "Suc (unat b * 2) mod 2 = 1" "Suc (unat b * 2) div 2 = unat b" by (simp_all add: mod_Suc)
  ultimately show ?thesis using assms by (simp add: block_at_def r disk_of_def ram_sec_def bslice_def)
qed

definition small_sb :: superblock where
  "small_sb = \<lparr>s_inodes_count = 16, s_blocks_count = 64, s_r_blocks_count = 0, s_free_blocks_count = 50, s_free_inodes_count = 4,
     s_first_data_block = 1, s_log_block_size = 0, s_log_frag_size = 0, s_blocks_per_group = 8192, s_frags_per_group = 8192,
     s_inodes_per_group = 16, s_mtime = 0, s_wtime = 0, s_mnt_count = 0, s_max_mnt_count = 0, s_magic = 0xEF53, s_state = 1, s_errors = 1,
     s_minor_rev_level = 0, s_lastcheck = 0, s_checkinterval = 0, s_creator_os = 0, s_rev_level = 1, s_def_resuid = 0, s_def_resgid = 0,
     s_first_ino = 11, s_inode_size = 128, s_block_group_nr = 0, s_feature_compat = 0, s_feature_incompat = 2, s_feature_ro_compat = 0\<rparr>"

definition small_geom :: geom where
  "small_geom = \<lparr>g_mounted = True, g_sb = small_sb, g_bs = 1024, g_is = 128, g_groups = 1, g_ft = True, g_lock = False\<rparr>"

lemma small_geom_simps [simp]:
  "g_mounted small_geom = True" "g_sb small_geom = small_sb" "g_bs small_geom = 1024" "g_is small_geom = 128" "g_groups small_geom = 1"
  "g_ft small_geom = True" "g_lock small_geom = False"
  by (simp_all add: small_geom_def)

text \<open>The heap of the file system as mounting makes it: 16 MiB, of which 255 slabs can be carved.\<close>

definition small_heap :: heap where
  "small_heap = heap_init (\<lambda>_. 0) (\<lambda>_. zero_slab) 0x10000 FS_HEAP_SZ"

lemma small_heap_ok: "heap_inv small_heap {}" "heap_room small_heap = 255"
proof -
  have f: "h_base small_heap = 0x20000" "h_bump small_heap = 0x20000" "h_end small_heap = 0x1010000"
    by (simp_all add: small_heap_def heap_init_def SLAB_SIZE_def FS_HEAP_SZ_def)
  show "heap_inv small_heap {}" by (rule heap_inv_init [OF _ _ small_heap_def]) (simp_all add: f FS_HEAP_SZ_def)
  show "heap_room small_heap = 255" by (simp add: heap_room_def f SLAB_SIZE_def)
qed

definition small_state :: "geom \<Rightarrow> (nat \<Rightarrow> bytes) bcache \<Rightarrow> (nat \<Rightarrow> bytes) \<Rightarrow> (nat \<Rightarrow> bytes) ext2" where
  "small_state G c d = \<lparr>fs_mounted = g_mounted G, fs_sb = g_sb G, fs_block_size = g_bs G, fs_inode_size = g_is G, fs_groups = g_groups G,
     fs_has_filetype = g_ft G, fs_lock = g_lock G, fs_heap = Some small_heap, fs_dev = Some (ram_dev True), fs_cache = Some c, fs_cache_mem = [],
     fs_disk = d\<rparr>"

lemma image_mounted:
  assumes "\<And>b. length (img b) = 1024" "g_bs G = 1024"
  shows "\<exists>s. fs_at ram_sec {} G img s \<and> fs_room s = 255"
proof -
  obtain bl c where c: "bcache_create 1024 4 (disk_of img) = Some (Some (bl, c))" "cache_ok ram_sec c"
    "view ram_sec c = block_at ram_sec (1024 div 512) (disk_of img)" "bc_block_size c = 1024" "valid_slots c = {}"
    by (rule bcache_create_ok [of 1024 4 "disk_of img" ram_sec]) (simp_all add: that)
  have "writes_ok (ram_dev True)" "reads_ok (ram_dev True)" by (simp_all add: writes_ok_def reads_ok_def ram_dev_def)
  then have "fs_at ram_sec {} G img (small_state G c (disk_of img))"
    using c(2-5) assms block_at_disk_of [of img] ram_dev_ok small_heap_ok(1)
    by (intro fs_atI [where dev = "ram_dev True" and c = c and h = small_heap]) (simp_all add: small_state_def geom_of_def bs_ok_def resident_def)
  moreover have "fs_room (small_state G c (disk_of img)) = 255" by (simp add: fs_room_def small_state_def small_heap_ok(2))
  ultimately show ?thesis by blast
qed

end
