(* ===== verification/Ext2_File.thy ===== *)
theory Ext2_File
  imports Ext2_Read Ext2_Image
begin

text \<open>
  Whole-file reads: \<^const>\<open>read_file\<close> gathers runs of consecutive blocks into single transfers, and its result is the concatenation
  of the blocks of the file, holes as zeros, cut to the size of the file.
\<close>

subsection \<open>Runs of blocks\<close>

lemma read_blocks_True:
  assumes "reads_ok dev"
  shows "read_blocks dev bs p c = Some (ok, q, c') \<Longrightarrow> ok"
proof (induction bs arbitrary: p q c)
  case (Cons b bs)
  obtain r c1 where r: "bcache_read dev b c = Some (r, c1)" using Cons.prems by (cases "bcache_read dev b c") auto
  then obtain x where "r = Some x" using bcache_read_Some [OF assms r] by blast
  then show ?case using Cons r by (cases "read_blocks dev bs (drop (length x) p) c1") auto
qed simp

lemma bcache_read_run_True:
  assumes "reads_ok dev" "bcache_read_run dev b n p c = Some (ok, q, c')"
  shows ok
proof (cases "n = 0")
  case False
  then obtain f where f: "any_resident c (map (\<lambda>i. b + of_nat i) [0..<unat n]) = Some f"
    using assms(2) by (cases "any_resident c (map (\<lambda>i. b + of_nat i) [0..<unat n])") (simp_all add: bcache_read_run_def Let_def)
  show ?thesis
  proof (cases f)
    case True
    then show ?thesis using assms f False read_blocks_True by (simp add: bcache_read_run_def Let_def) blast
  next
    case nf: False
    have "fst (bd_read dev (ucast b * ucast (bc_spb c)) (n * bc_spb c) (bc_dev c))" using assms(1) by (simp add: reads_ok_def)
    then show ?thesis using assms(2) f nf False by (auto simp: bcache_read_run_def Let_def split: prod.splits)
  qed
qed (use assms(2) in \<open>simp add: bcache_read_run_def\<close>)

text \<open>Consecutive data blocks do not wrap around.\<close>

lemma data_blk_run:
  assumes "\<And>k. k < n \<Longrightarrow> data_blk bs (p + of_nat k)"
  shows "k < n \<Longrightarrow> unat (p + of_nat k) = unat p + k"
proof (induction k)
  case (Suc k)
  then have k: "unat (p + of_nat k) = unat p + k" "data_blk bs (p + of_nat k)" using assms by simp_all
  have "p + of_nat (Suc k) = p + of_nat k + 1" by simp
  then show ?case using k by (simp only: unat_add_small) (simp add: data_blk_def unat_add_small)
qed simp

lemma wp_read_run:
  assumes "fs_at sec L G B s" "\<And>k. k < n \<Longrightarrow> data_blk (g_bs G) (p + of_nat k)" "0 < n" "n * unat (g_bs G) < 2 ^ 32" "off + n * unat (g_bs G) \<le> length out"
  shows "wp (read_run p (of_nat n) off out) (\<lambda>q s'. q = store out off (concat (map (\<lambda>k. B (p + of_nat k)) [0..<n])) \<and> fs_at sec L G B s') s"
proof -
  obtain dev c h where s: "geom_of s = G" "fs_dev s = Some dev" "fs_cache s = Some c" "fs_heap s = Some h" "dev_ok dev sec" "writes_ok dev"
    "reads_ok dev" "cache_ok sec c" "bc_block_size c = g_bs G" "heap_inv h L" "sb_blk (g_bs G) \<notin> resident c"
    "\<forall>b. b \<noteq> sb_blk (g_bs G) \<longrightarrow> view sec c b = B b" using assms(1) by (rule fs_atE)
  note geo = fs_at_geom [OF assms(1)]
  have "n * 1 \<le> n * unat (g_bs G)" using bs_ok_facts(2) [OF geo(8)] by (intro mult_le_mono) simp_all
  from le_less_trans [OF this assms(4)] have n: "unat (of_nat n :: u32) = n" by (intro unat_of_nat_small) simp
  obtain m where m: "n = Suc m" using assms(3) by (cases n) simp_all
  have "unat (p + of_nat m) = unat p + m" using data_blk_run [of n "g_bs G" p m] assms(2) m by blast
  then have last: "unat p + (n - 1) + 3 < 2 ^ 32" using assms(2) [of m] m by (simp add: data_blk_def)
  let ?buf = "bslice out off (n * unat (g_bs G))"
  have g: "get_bytes out off (n * unat (g_bs G)) = Some ?buf" "length ?buf = n * unat (g_bs G)" using assms(5) by (simp_all add: get_bytes_def)
  obtain ok q c' where r: "bcache_read_run dev p (of_nat n) ?buf c = Some (ok, q, c')" "cache_ok sec c'" "view sec c' = view sec c" "same_geom c c'"
    "ok \<longrightarrow> q = concat (map (\<lambda>k. view sec c (p + of_nat k)) [0..<n])"
    using bcache_read_run_ok [OF s(5,6,8), of p "of_nat n" ?buf] last assms(3,4) n s(9) g(2) by auto
  have "ok" by (rule bcache_read_run_True [OF s(7) r(1)])
  then have q: "q = concat (map (\<lambda>k. B (p + of_nat k)) [0..<n])"
    using r(5) s(12) data_blk_sb [OF assms(2)] by (auto intro!: arg_cong [of _ _ concat])
  have "unat (sb_blk (g_bs G)) < unat p" using assms(2) [of 0] assms(3) by (simp add: data_blk_def)
  moreover have "unat (p + of_nat k) = unat p + k" if "k < n + 3" for k
    using last assms(3) that by (subst unat_add_small) (simp_all add: unat_of_nat_small)
  ultimately have "sb_blk (g_bs G) \<notin> (\<lambda>k. p + of_nat k) ` {..<n + 3}" by fastforce
  then have "sb_blk (g_bs G) \<notin> resident c'" using bcache_read_run_resident [OF r(1)] s(11) n by auto
  moreover have "bc_block_size c' = g_bs G" using r(4) s(9) by (simp add: same_geom_def)
  ultimately have "fs_at sec L G B (s\<lparr>fs_cache := Some c'\<rparr>)"
    using s r(2,3) geo(8) by (intro fs_atI [where dev = dev and c = c' and h = h]) (simp_all add: geom_of_def)
  then show ?thesis using s(2,3) r(1) q g(1) n geo by (simp add: wp_def read_run_def Let_def)
qed

lemma run_len_ok:
  assumes "full \<le> length phys" "i + run \<le> full" "\<And>k. k < run \<Longrightarrow> phys ! (i + k) = p + of_nat k"
  shows "\<exists>r. run_len phys full i p run = Some r \<and> run \<le> r \<and> i + r \<le> full \<and> (\<forall>k<r. phys ! (i + k) = p + of_nat k)"
  using assms
proof (induction phys full i p run rule: run_len.induct)
  case (1 phys full i p run)
  show ?case
  proof (cases "i + run < full \<and> phys ! (i + run) = p + of_nat run")
    case True
    then have r: "rd phys (i + run) = Some (phys ! (i + run))" using 1(2) by simp
    have "\<exists>r. run_len phys full i p (run + 1) = Some r \<and> run + 1 \<le> r \<and> i + r \<le> full \<and> (\<forall>k<r. phys ! (i + k) = p + of_nat k)"
      using True r 1(2,3,4) by (intro 1(1)) (auto simp: less_Suc_eq)
    then show ?thesis using True r by (subst run_len.simps) (auto simp: rd_def)
  next
    case False
    then show ?thesis using 1(2-4) by (subst run_len.simps) (auto simp: rd_def)
  qed
qed

subsection \<open>The contents of a file\<close>

definition piece :: "u32 \<Rightarrow> (u32 \<Rightarrow> bytes) \<Rightarrow> u32 \<Rightarrow> bytes" where
  "piece bs B p = (if p = 0 then replicate (unat bs) 0 else B p)"

definition pieces :: "u32 \<Rightarrow> (u32 \<Rightarrow> bytes) \<Rightarrow> u32 list \<Rightarrow> bytes" where
  "pieces bs B ps = concat (map (piece bs B) ps)"

text \<open>The first \<open>n\<close> blocks of a file.\<close>

definition file_bytes :: "u32 \<Rightarrow> (u32 \<Rightarrow> bytes) \<Rightarrow> inode \<Rightarrow> nat \<Rightarrow> bytes" where
  "file_bytes bs B i n = pieces bs B (map (blk_at bs B i) [0..<n])"

lemma length_pieces:
  "(\<And>p. p \<in> set ps \<Longrightarrow> p \<noteq> 0 \<Longrightarrow> length (B p) = unat bs) \<Longrightarrow> length (pieces bs B ps) = length ps * unat bs"
  by (induction ps) (simp_all add: pieces_def piece_def)

lemma pieces_append [simp]: "pieces bs B (ps @ qs) = pieces bs B ps @ pieces bs B qs"
  by (simp add: pieces_def)

lemma length_concat_map: "(\<And>x. x \<in> set xs \<Longrightarrow> length (f x) = n) \<Longrightarrow> length (concat (map f xs)) = length xs * n"
  by (induction xs) simp_all

lemma store_prefix: "off = length xs \<Longrightarrow> out = xs @ ys \<Longrightarrow> store out off zs = (xs @ zs) @ drop (length zs) ys"
  by (simp add: store_def)

lemma wp_read_runs:
  assumes "full \<le> length phys" "full * unat (g_bs G) < 2 ^ 32" "\<And>x. x < full \<Longrightarrow> phys ! x \<noteq> 0 \<Longrightarrow> data_blk (g_bs G) (phys ! x)"
  shows "fs_at sec L G B s \<Longrightarrow> i \<le> full \<Longrightarrow> out = pieces (g_bs G) B (take i phys) @ rest \<Longrightarrow> (full - i) * unat (g_bs G) \<le> length rest \<Longrightarrow>
    wp (read_runs (g_bs G) full phys i out)
      (\<lambda>q s'. fs_at sec L G B s' \<and> q = pieces (g_bs G) B (take full phys) @ drop ((full - i) * unat (g_bs G)) rest) s"
proof (induction "full - i" arbitrary: i out rest s rule: less_induct)
  case less
  let ?bs = "unat (g_bs G)"
  show ?case
  proof (cases "i < full")
    case False
    then show ?thesis using less.prems by (subst read_runs.simps) auto
  next
    case True
    have len: "length (pieces (g_bs G) B (take i phys)) = i * ?bs"
    proof (rule trans [OF length_pieces])
      fix p assume "p \<in> set (take i phys)" "p \<noteq> 0"
      then obtain x where "x < i" "p = phys ! x" using True assms(1) by (auto simp: in_set_conv_nth)
      then show "length (B p) = ?bs" using length_block [OF less.prems(1)] data_blk_sb assms(3) [of x] \<open>p \<noteq> 0\<close> True by auto
    qed (use True assms(1) in simp)
    have next': "wp (read_runs (g_bs G) full phys (i + r) (store out (i * ?bs) zs))
        (\<lambda>q s'. fs_at sec L G B s' \<and> q = pieces (g_bs G) B (take full phys) @ drop ((full - i) * ?bs) rest) s1"
      if s1: "fs_at sec L G B s1" and r: "0 < r" "i + r \<le> full" and zs: "zs = pieces (g_bs G) B (take r (drop i phys))" "length zs = r * ?bs" for r zs s1
    proof -
      have split: "(full - i) * ?bs = (full - (i + r)) * ?bs + r * ?bs" using r by (simp flip: add_mult_distrib)
      have "wp (read_runs (g_bs G) full phys (i + r) (store out (i * ?bs) zs))
          (\<lambda>q s'. fs_at sec L G B s' \<and> q = pieces (g_bs G) B (take full phys) @ drop ((full - (i + r)) * ?bs) (drop (r * ?bs) rest)) s1"
      proof (rule less.hyps [OF _ s1 r(2)])
        show "store out (i * ?bs) zs = pieces (g_bs G) B (take (i + r) phys) @ drop (r * ?bs) rest"
          using store_prefix [OF len [symmetric] less.prems(3)] zs by (simp add: take_add)
      qed (use r less.prems(4) True split in simp_all)
      then show ?thesis using split by (simp add: add.commute)
    qed
    have put: "i * ?bs + r * ?bs \<le> length out" if "i + r \<le> full" for r
    proof -
      have "r * ?bs \<le> (full - i) * ?bs" using that by (intro mult_le_mono1) simp
      from le_trans [OF this less.prems(4)] show ?thesis using less.prems(3) len by simp
    qed
    let ?p = "phys ! i"
    have rdp: "rd phys i = Some ?p" using True assms(1) by simp
    show ?thesis
    proof (cases "?p = 0")
      case z: True
      have "take 1 (drop i phys) = [?p]" using True assms(1) by (simp add: take_Suc_conv_app_nth Cons_nth_drop_Suc [symmetric])
      then have "replicate ?bs 0 = pieces (g_bs G) B (take 1 (drop i phys))" using z by (simp add: pieces_def piece_def)
      from next' [OF less.prems(1) _ _ this] put [of 1] True z rdp show ?thesis
        by (subst read_runs.simps) (simp add: put_bytes_def rd_def)
    next
      case nz: False
      obtain r where r: "run_len phys full i ?p 1 = Some r" "1 \<le> r" "i + r \<le> full" "\<forall>k<r. phys ! (i + k) = ?p + of_nat k"
        using run_len_ok [of full phys i 1 ?p] True assms(1) by auto
      have d: "k < r \<Longrightarrow> data_blk (g_bs G) (?p + of_nat k)" for k
      proof (induction k)
        case 0
        then show ?case using assms(3) [OF True nz] by simp
      next
        case (Suc k)
        then have "unat (?p + of_nat k) + 3 < 2 ^ 32" by (simp add: data_blk_def)
        then have "unat (?p + of_nat k + 1) \<noteq> 0" by (subst unat_add_small) simp_all
        moreover have "phys ! (i + Suc k) = ?p + of_nat k + 1" using r(4) [rule_format, OF Suc.prems] by (simp only: of_nat_Suc add_ac)
        ultimately have "phys ! (i + Suc k) \<noteq> 0" by auto
        with assms(3) [of "i + Suc k"] r(3) Suc.prems have "data_blk (g_bs G) (phys ! (i + Suc k))" by simp
        then show ?case unfolding r(4) [rule_format, OF Suc.prems] .
      qed
      define zs where "zs = concat (map (\<lambda>k. B (?p + of_nat k)) [0..<r])"
      have "take r (drop i phys) = map (\<lambda>k. ?p + of_nat k) [0..<r]"
        using r(3,4) assms(1) by (intro nth_equalityI) simp_all
      moreover have "piece (g_bs G) B (?p + of_nat k) = B (?p + of_nat k)" if "k < r" for k
        using d [OF that] by (auto simp: piece_def data_blk_def)
      ultimately have zs: "zs = pieces (g_bs G) B (take r (drop i phys))"
        by (simp add: zs_def pieces_def comp_def) (auto intro!: arg_cong [of _ _ concat])
      have "length (B (?p + of_nat k)) = ?bs" if "k < r" for k using length_block [OF less.prems(1) data_blk_sb [OF d [OF that]]] .
      then have lz: "length zs = r * ?bs" unfolding zs_def by (subst length_concat_map [of _ _ ?bs]) simp_all
      have "r * ?bs \<le> full * ?bs" using r(3) by (intro mult_le_mono1) simp
      then have rb: "r * ?bs < 2 ^ 32" using assms(2) by linarith
      have "wp (bnd (read_run ?p (of_nat r) (i * ?bs) out) (read_runs (g_bs G) full phys (i + r)))
          (\<lambda>q s'. fs_at sec L G B s' \<and> q = pieces (g_bs G) B (take full phys) @ drop ((full - i) * ?bs) rest) s"
      proof (rule wp_bndI [OF wp_read_run [OF less.prems(1) d _ rb put [OF r(3)]]])
        fix q s' assume q: "q = store out (i * ?bs) (concat (map (\<lambda>k. B (?p + of_nat k)) [0..<r])) \<and> fs_at sec L G B s'"
        show "wp (read_runs (g_bs G) full phys (i + r) q) (\<lambda>q s'. fs_at sec L G B s' \<and> q = pieces (g_bs G) B (take full phys) @ drop ((full - i) * ?bs) rest) s'"
          using next' [OF _ _ r(3) zs lz] q r(2) by (simp add: zs_def)
      qed (use r(2) in simp_all)
      then show ?thesis using True nz rdp r(1) by (subst read_runs.simps) (simp add: rd_def)
    qed
  qed
qed

definition file_ok :: "u32 \<Rightarrow> (u32 \<Rightarrow> bytes) \<Rightarrow> inode \<Rightarrow> nat \<Rightarrow> bool" where
  "file_ok bs B i n \<longleftrightarrow> inode_ok bs B i \<and> (\<forall>k<n. blk_at bs B i k \<noteq> 0 \<longrightarrow> data_blk bs (blk_at bs B i k))"

text \<open>The number of blocks of a file.\<close>

definition nblocks_of :: "u32 \<Rightarrow> nat \<Rightarrow> nat" where
  "nblocks_of bs n = (n + unat bs - 1) div unat bs"

lemma nblocks_div_mod:
  assumes "0 < unat bs"
  shows "nblocks_of bs n = n div unat bs + (if n mod unat bs = 0 then 0 else 1)"
proof -
  define q r where "q = n div unat bs" and "r = n mod unat bs"
  have n: "n = q * unat bs + r" "r < unat bs" using assms by (simp_all add: q_def r_def)
  have "n + unat bs - 1 = (r + unat bs - 1) + q * unat bs" using assms n by simp
  then have "nblocks_of bs n = ((r + unat bs - 1) + q * unat bs) div unat bs" by (simp only: nblocks_of_def)
  also have "\<dots> = q + (r + unat bs - 1) div unat bs" using assms by (intro div_mult_self1) simp
  finally have "nblocks_of bs n = q + (r + unat bs - 1) div unat bs" .
  moreover have "(r + unat bs - 1) div unat bs = (if r = 0 then 0 else 1)"
    using n(2) by (cases r) (simp_all add: div_nat_eqI)
  ultimately show ?thesis by (simp add: q_def r_def)
qed

lemma signed_take_bit_small: "0 \<le> k \<Longrightarrow> k < 2147483648 \<Longrightarrow> signed_take_bit 63 (k :: int) = k"
  by (intro signed_take_bit_int_eq_self) simp_all

lemma file_words:
  assumes "bs_ok bs" "unat (fsize :: u64) < 2 ^ 31"
  shows "unat (ucast ((fsize + ucast bs - 1) div ucast bs) :: u32) = nblocks_of bs (unat fsize)"
    "unat (ucast (fsize div ucast bs) :: u32) = unat fsize div unat bs"
    "unat (ucast (fsize mod ucast bs) :: u32) = unat fsize mod unat bs"
    "uint fsize = sint fsize" "nblocks_of bs (unat fsize) \<le> 2 ^ 31"
proof -
  note bs = bs_ok_facts [OF assms(1)]
  have "unat (fsize + ucast bs - 1) = unat fsize + unat bs - 1"
    using assms(2) bs(2,3) by (subst unat_sub_small; subst unat_add_small) simp_all
  then have n: "unat ((fsize + ucast bs - 1) div ucast bs) = nblocks_of bs (unat fsize)" by (simp add: unat_div nblocks_of_def)
  have "nblocks_of bs (unat fsize) \<le> unat fsize + unat bs - 1" by (simp add: nblocks_of_def)
  moreover have "(unat fsize + unat bs - 1) div unat bs \<le> (unat fsize + unat bs - 1) div 1024" using bs(2) by (intro div_le_mono2) simp_all
  ultimately show le: "nblocks_of bs (unat fsize) \<le> 2 ^ 31" using assms(2) bs(3) by (simp add: nblocks_of_def)
  show "unat (ucast ((fsize + ucast bs - 1) div ucast bs) :: u32) = nblocks_of bs (unat fsize)"
    using n le by (subst unat_ucast_small) simp_all
  have "unat fsize div unat bs < 2 ^ 31" by (rule le_less_trans [OF div_le_dividend assms(2)])
  then show "unat (ucast (fsize div ucast bs) :: u32) = unat fsize div unat bs"
    using assms(2) by (subst unat_ucast_small) (simp_all add: unat_div)
  have "unat fsize mod unat bs < unat bs" using bs(2) by simp
  then show "unat (ucast (fsize mod ucast bs) :: u32) = unat fsize mod unat bs"
    using bs(3) by (subst unat_ucast_small) (simp_all add: unat_mod)
  have "uint fsize < 2 ^ 31" using assms(2) by (simp add: uint_nat del: of_nat_unat)
  then show "uint fsize = sint fsize" by (simp add: sint_uint signed_take_bit_small)
qed

lemma file_bytes_split:
  "file_bytes bs B i (Suc n) = file_bytes bs B i n @ piece bs B (blk_at bs B i n)"
  by (simp add: file_bytes_def pieces_def)

lemma length_file_bytes:
  assumes "fs_at sec L G B s" "file_ok (g_bs G) B i n"
  shows "length (file_bytes (g_bs G) B i n) = n * unat (g_bs G)"
  using assms(2) length_block [OF assms(1)] data_blk_sb
  by (auto simp: file_bytes_def file_ok_def intro!: trans [OF length_pieces])

text \<open>The partial last block.\<close>

lemma wp_read_tail:
  assumes "fs_at sec L G B s" "rem < unat (g_bs G)" "out = xs @ ys" "length xs = full * unat (g_bs G)" "rem \<le> length ys"
    "0 < rem \<Longrightarrow> full < length phys" "0 < rem \<Longrightarrow> phys ! full \<noteq> 0 \<Longrightarrow> data_blk (g_bs G) (phys ! full)"
  shows "wp (read_tail (g_bs G) phys full rem out)
     (\<lambda>q s'. fs_at sec L G B s' \<and> length q = length out \<and> take (length xs + rem) q = xs @ take rem (piece (g_bs G) B (phys ! full))) s"
proof (cases "0 < rem")
  case False
  then show ?thesis using assms(1,3) by (simp add: read_tail_def)
next
  case r: True
  note sz = scratch_sizes [OF fs_at_geom(8) [OF assms(1)]]
  have put: "put_bytes out (full * unat (g_bs G)) z = Some (xs @ z @ drop rem ys)" if "length z = rem" for z
    using assms(3-5) that by (simp add: put_bytes_def store_def)
  have rdp: "rd phys full = Some (phys ! full)" using assms(6) [OF r] by simp
  show ?thesis
  proof (cases "phys ! full = 0")
    case True
    then show ?thesis using assms(1,2,3,5) put r rdp by (simp add: read_tail_def piece_def min_def rd_def)
  next
    case False
    then have d: "data_blk (g_bs G) (phys ! full)" by (rule assms(7) [OF r])
    have l: "length (B (phys ! full)) = unat (g_bs G)" by (rule length_block [OF assms(1) data_blk_sb [OF d]])
    have lt: "length (take rem (B (phys ! full))) = rem" using l assms(2) by simp
    have g: "get_bytes (B (phys ! full)) 0 rem = Some (take rem (B (phys ! full)))" using l assms(2) by (simp add: get_bytes_def bslice_def)
    show ?thesis
      unfolding read_tail_def using assms(1) False r rdp
      apply (simp add: rd_def)
      apply (erule new_bnd, simp, simp add: sz)
      apply (erule read_bnd, rule d, simp)
      apply (simp add: g put [OF lt])
      apply (erule free_bnd, assumption, use assms(3,5) lt in \<open>simp add: piece_def\<close>)
      done
  qed
qed

lemma wp_bnd2I:
  assumes "wp (bnd m f) R s" "\<And>x s'. R x s' \<Longrightarrow> wp (g x) Q s'"
  shows "wp (bnd m (\<lambda>x. bnd (f x) g)) Q s"
  using wp_bndI [OF assms(1), of g Q] assms(2) by simp

lemma wp_read_data:
  assumes "fs_at sec L G B s" "file_ok (g_bs G) B i (nblocks_of (g_bs G) n)" "n < 2 ^ 31" "nblocks_of (g_bs G) n \<le> length phys"
    "\<forall>x<nblocks_of (g_bs G) n. phys ! x = blk_at (g_bs G) B i x" "n \<le> M"
  shows "wp (bnd (read_runs (g_bs G) (n div unat (g_bs G)) phys 0 (replicate M 0)) (read_tail (g_bs G) phys (n div unat (g_bs G)) (n mod unat (g_bs G))))
    (\<lambda>q s'. fs_at sec L G B s' \<and> length q = M \<and> take n q = take n (file_bytes (g_bs G) B i (nblocks_of (g_bs G) n))) s"
proof -
  let ?bs = "unat (g_bs G)"
  let ?N = "nblocks_of (g_bs G) n" and ?F = "n div ?bs" and ?R = "n mod ?bs"
  have bs: "0 < ?bs" using bs_ok_facts(2) [OF fs_at_geom(8) [OF assms(1)]] by simp
  have N: "?N = ?F + (if ?R = 0 then 0 else 1)" using nblocks_div_mod bs by simp
  have dat: "x < ?N \<Longrightarrow> phys ! x \<noteq> 0 \<Longrightarrow> data_blk (g_bs G) (phys ! x)" for x using assms(2,5) by (simp add: file_ok_def)
  have FR: "n = ?F * ?bs + ?R" by simp
  have FM: "?F * ?bs \<le> M" "?R \<le> M - ?F * ?bs" using FR assms(6) by linarith+
  define xs where "xs = pieces (g_bs G) B (take ?F phys)"
  have xs: "xs = file_bytes (g_bs G) B i ?F"
    using assms(4,5) N unfolding xs_def file_bytes_def by (intro arg_cong [of _ _ "pieces (g_bs G) B"] nth_equalityI) simp_all
  have "file_ok (g_bs G) B i ?F" using assms(2) N by (simp add: file_ok_def)
  then have lx: "length xs = ?F * ?bs" using length_file_bytes [OF assms(1)] xs by simp
  have "?R \<noteq> 0 \<Longrightarrow> file_bytes (g_bs G) B i ?N = xs @ piece (g_bs G) B (phys ! ?F)" using N assms(5) by (simp add: xs file_bytes_split)
  then have tk: "take n (file_bytes (g_bs G) B i ?N) = xs @ take ?R (piece (g_bs G) B (phys ! ?F))"
    using N lx FR by (cases "?R = 0") (auto simp: xs minus_div_mult_eq_mod)
  have dv: "?F * ?bs < 2 ^ 32" by (rule le_less_trans [OF div_times_less_eq_dividend]) (use assms(3) in simp)
  have "wp (read_runs (g_bs G) ?F phys 0 (replicate M 0)) (\<lambda>q s'. fs_at sec L G B s' \<and> q = xs @ drop (?F * ?bs) (replicate M 0)) s"
    using wp_read_runs [where full = ?F and phys = phys and i = 0 and rest = "replicate M 0", OF _ dv _ assms(1)] dat N assms(4) FM(1)
    by (simp add: pieces_def xs_def)
  then show ?thesis
  proof (rule wp_bndI, elim conjE)
    fix q s' assume s': "fs_at sec L G B s'" and q: "q = xs @ drop (?F * ?bs) (replicate M 0)"
    have "0 < ?R \<Longrightarrow> ?F < length phys" using N assms(4) by simp
    from wp_read_tail [where rem = ?R, OF s' _ q lx _ this] bs FM N dat FR lx tk
    show "wp (read_tail (g_bs G) phys ?F ?R q) (\<lambda>q s'. fs_at sec L G B s' \<and> length q = M \<and> take n q = take n (file_bytes (g_bs G) B i ?N)) s'"
      by (simp add: q)
  qed
qed

lemma wp_read_file:
  assumes "fs_at sec L G B s" "unat fsize < 2 ^ 31" "file_ok (g_bs G) B i (nblocks_of (g_bs G) (unat fsize))"
  shows "wp (read_file i fsize) (\<lambda>(a, out, n) s'. n = fsize \<and> take (unat fsize) out = take (unat fsize) (file_bytes (g_bs G) B i (nblocks_of (g_bs G) (unat fsize))) \<and>
    length out = max 1 (unat fsize) \<and> (\<exists>k. (a, k) \<notin> L \<and> fs_at sec (insert (a, k) L) G B s')) s"
proof -
  note geo = fs_at_geom [OF assms(1)]
  note bs = bs_ok_facts [OF geo(8)]
  let ?bs = "unat (g_bs G)" and ?N = "nblocks_of (g_bs G) (unat fsize)"
  define n full rem where "n = (ucast ((fsize + ucast (g_bs G) - 1) div ucast (g_bs G)) :: u32)"
    and "full = (ucast (fsize div ucast (g_bs G)) :: u32)" and "rem = (ucast (fsize mod ucast (g_bs G)) :: u32)"
  note fw = file_words [OF geo(8) assms(2), folded n_def full_def rem_def]
  have iok: "inode_ok (g_bs G) B i" using assms(3) by (simp add: file_ok_def)
  define M where "M = max 1 (unat fsize)"
  have sz1: "nat (if fsize \<noteq> 0 then sint fsize else 1) = M" "(if fsize \<noteq> 0 then sint fsize else 1) \<le> 2 ^ 40"
    "0 \<le> (if fsize \<noteq> 0 then sint fsize else 1)"
    using assms(2) unat_gt_0 [of fsize] by (auto simp: M_def max_def uint_nat simp flip: fw(4) simp del: of_nat_unat)
  have sz2: "4 * (if n \<noteq> 0 then uint n else 1) \<le> 2 ^ 40" "unat n \<le> nat (if n \<noteq> 0 then uint n else 1)" 
    using uint_lt2p [of n] by auto
  have bs0: "g_bs G \<noteq> 0" using bs(2) by auto
  show ?thesis
    unfolding read_file_def using assms(1)
    apply (simp only: wp_get geo Let_def n_def [symmetric] full_def [symmetric] rem_def [symmetric])
    apply (erule new_bnd, use sz1 in \<open>simp split del: if_split\<close>, use sz1 in \<open>simp split del: if_split\<close>)
    apply (simp add: sz1 bs0 del: bnd_assoc split del: if_split)
    apply (erule new_bnd, simp, use sz2 in \<open>simp split del: if_split\<close>)
    apply (rule wp_bndI [OF wp_map_blocks [OF _ iok]], assumption, use sz2 in \<open>simp split del: if_split\<close>)
    apply (unfold fw(1-3), elim conjE)
    apply (rule wp_bnd2I [OF wp_read_data [OF _ assms(3,2)]], assumption, use sz2 fw(1) in \<open>simp split del: if_split\<close>, assumption, simp add: M_def)
    apply (elim conjE, erule free_bnd, assumption, auto simp: M_def)
    done
qed

definition file_slabs :: "u32 \<Rightarrow> nat \<Rightarrow> nat" where
  "file_slabs bs n = slabs_for n + slabs_for (4 * nblocks_of bs n) + 3"

lemma uses_read_file:
  assumes "bs_ok bs" "unat fsize < 2 ^ 31"
  shows "uses bs gr (file_slabs bs (unat fsize)) (read_file i fsize)"
proof -
  note fw = file_words [OF assms]
  have a: "nat (if fsize \<noteq> 0 then sint fsize else 1) = max 1 (unat fsize)"
    using unat_gt_0 [of fsize] by (auto simp: max_def uint_nat simp flip: fw(4) simp del: of_nat_unat)
  have b: "nat (if m \<noteq> 0 then uint m else 1) = max 1 (unat m)" for m :: u32 using unat_gt_0 [of m] by (auto simp: max_def)
  have c: "slabs_for (4 * max 1 k) = slabs_for (4 * k)" for k by (auto simp: slabs_for_def SLAB_SIZE_def max_def)
  note new = uses_new_buf [of bs gr 1 "if fsize \<noteq> 0 then sint fsize else 1", unfolded a mult_1 slabs_for_pos(2)]
    uses_new_buf [of bs gr 4 "if m \<noteq> 0 then uint m else 1" for m :: u32, unfolded b c]
  show ?thesis unfolding read_file_def Let_def
    apply (rule uses_mono)
    apply (rule uses_rules new uses_map_blocks uses_read_runs uses_read_tail assms(1))+
    apply (simp add: fw(1) file_slabs_def)
    done
qed

subsection \<open>Properties\<close>

text \<open>C11. \<^const>\<open>map_blocks\<close> is an optimised \<^const>\<open>block_of\<close>: it reads every index block once, and entry \<open>x\<close> of the array it fills
  is the block that \<^const>\<open>block_of\<close> finds for \<open>x\<close>, for the direct, the single and the double indirect blocks alike. Neither changes a
  block of the disk nor leaks memory. They return when two slabs and one slab of the heap are left; with less they do that or panic since the
  heap is used up.\<close>

theorem map_blocks_block_of:
  assumes "fs_at sec L G B s" "inode_ok (g_bs G) B i" "unat n \<le> length phys"
  shows "runs 2 (map_blocks i n phys) (\<lambda>q s'. fs_at sec L G B s' \<and> length q = length phys \<and>
    (\<forall>x<n. runs 1 (block_of i x) (\<lambda>b s''. b = q ! unat x \<and> fs_at sec L G B s'') s')) s"
proof (rule runsI [OF wp_mono [OF wp_map_blocks [OF assms]]], elim conjE, intro conjI allI impI)
  fix q s' x assume s': "fs_at sec L G B s'" and q: "\<forall>x<unat n. q ! x = blk_at (g_bs G) B i x" and x: "x < n"
  have "unat x < unat n" using x by (simp add: word_less_nat_alt)
  with q have "q ! unat x = blk_at (g_bs G) B i (unat x)" by simp
  then show "runs 1 (block_of i x) (\<lambda>b s''. b = q ! unat x \<and> fs_at sec L G B s'') s'"
    using wp_block_of [OF s' assms(2), of x] fs_at_geom [OF s'] by (intro runsI uses_block_of) simp_all
qed (use fs_at_geom [OF assms(1)] in \<open>simp_all add: uses_map_blocks\<close>)

definition some_inode :: "u16 \<Rightarrow> u32 \<Rightarrow> u32 list \<Rightarrow> inode" where
  "some_inode mode n bl = \<lparr>i_mode = mode, i_uid = 0, i_size = n, i_atime = 0, i_ctime = 0, i_mtime = 0, i_dtime = 0, i_gid = 0, i_links_count = 1,
     i_blocks = 0, i_flags = 0, i_osd1 = 0, i_block = bl, i_generation = 0, i_file_acl = 0, i_dir_acl = 0\<rparr>"

lemma i_block_some_inode [simp]: "i_block (some_inode mode n bl) = bl"
  by (simp add: some_inode_def)

theorem map_blocks_block_of_witness:
  "\<exists>(s :: (nat \<Rightarrow> bytes) ext2) q s'. map_blocks (some_inode 0x8000 0 ([20, 21] @ replicate 10 0 @ [9, 0, 0])) 14 (replicate 14 0) s = Some (Inr (q, s')) \<and>
     runs 1 (block_of (some_inode 0x8000 0 ([20, 21] @ replicate 10 0 @ [9, 0, 0])) 13) (\<lambda>b s''. b = q ! 13) s'"
proof -
  let ?i = "some_inode 0x8000 0 ([20, 21] @ replicate 10 0 @ [9, 0, 0])" and ?B = "\<lambda>b :: u32. replicate 1024 (7 :: u8)"
  obtain s where s: "fs_at ram_sec {} small_geom ?B s" "fs_room s = 255" using image_mounted [of ?B small_geom] by auto
  have "inode_ok (g_bs small_geom) ?B ?i" by (simp add: inode_ok_def data_blk_def sb_blk_def nth_append)
  from map_blocks_block_of [OF s(1) this, of 14 "replicate 14 0"]
  have "runs 2 (map_blocks ?i 14 (replicate 14 0)) (\<lambda>q s'. fs_at ram_sec {} small_geom ?B s' \<and> length q = 14 \<and>
    (\<forall>x<14. runs 1 (block_of ?i x) (\<lambda>b s''. b = q ! unat x \<and> fs_at ram_sec {} small_geom ?B s'') s')) s" by simp
  then obtain q s' where m: "map_blocks ?i 14 (replicate 14 0) s = Some (Inr (q, s'))"
    and q: "\<forall>x<14. runs 1 (block_of ?i x) (\<lambda>b s''. b = q ! unat x \<and> fs_at ram_sec {} small_geom ?B s'') s'"
    by (rule runsE) (use s(2) in auto)
  from q have "runs 1 (block_of ?i 13) (\<lambda>b s''. b = q ! unat (13 :: u32) \<and> fs_at ram_sec {} small_geom ?B s'') s'"
    by (rule spec [of _ 13, THEN mp]) (simp add: word_less_nat_alt)
  then have "runs 1 (block_of ?i 13) (\<lambda>b s''. b = q ! 13) s'" by (rule runs_mono) simp
  with m show ?thesis by blast
qed

text \<open>C10. Reading a file: \<^const>\<open>read_file\<close> returns a buffer of its own with exactly the bytes of the file, the contents of its blocks
  in order with zeroes for the holes, however the blocks are spread over the disk and whether or not the file ends in the middle of a block.
  The disk is as before and only the buffer has been taken from the heap. It returns when the heap has \<^const>\<open>file_slabs\<close> slabs left; with less
  it does that or panics since the heap is used up.\<close>

theorem read_file_contents:
  assumes "fs_at sec L G B s" "unat fsize < 2 ^ 31" "file_ok (g_bs G) B i (nblocks_of (g_bs G) (unat fsize))"
  shows "runs (file_slabs (g_bs G) (unat fsize)) (read_file i fsize) (\<lambda>(a, out, n) s'. n = fsize \<and>
    take (unat fsize) out = take (unat fsize) (file_bytes (g_bs G) B i (nblocks_of (g_bs G) (unat fsize))) \<and>
    length out = max 1 (unat fsize) \<and> (\<exists>k. (a, k) \<notin> L \<and> fs_at sec (insert (a, k) L) G B s')) s"
  using wp_read_file [OF assms] uses_read_file [OF fs_at_geom(8) [OF assms(1)] assms(2)] fs_at_geom [OF assms(1)] by (intro runsI) simp_all

lemma all_less_3: "(\<forall>k<3. P k) \<longleftrightarrow> P 0 \<and> P 1 \<and> P (2 :: nat)"
proof -
  have "k < 3 \<longleftrightarrow> k = 0 \<or> k = 1 \<or> k = 2" for k :: nat by arith
  then show ?thesis by auto
qed

theorem read_file_contents_witness:
  "\<exists>(s :: (nat \<Rightarrow> bytes) ext2) a s'. read_file (some_inode 0x8000 3000 ([20, 0, 22] @ replicate 12 0)) 3000 s =
     Some (Inr ((a, replicate 1024 5 @ replicate 1024 0 @ replicate 952 7, 3000), s'))"
proof -
  let ?i = "some_inode 0x8000 3000 ([20, 0, 22] @ replicate 12 0)"
  let ?B = "(\<lambda>b :: u32. replicate 1024 (0 :: u8))(20 := replicate 1024 5, 22 := replicate 1024 7)"
  have "\<exists>s. fs_at ram_sec {} small_geom ?B s \<and> fs_room s = 255" by (rule image_mounted) simp_all
  then obtain s where s: "fs_at ram_sec {} small_geom ?B s" "fs_room s = 255" by blast
  have n: "nblocks_of 1024 3000 = 3" "unat (3000 :: u64) = 3000" by (simp_all add: nblocks_of_def)
  have "blk_at 1024 ?B ?i 0 = 20" "blk_at 1024 ?B ?i 1 = 0" "blk_at 1024 ?B ?i 2 = 22" by (simp_all add: blk_at_def)
  note b = this this(2) [unfolded One_nat_def]
  have "[0..<3] = [0, 1, 2 :: nat]" by (simp add: upt_rec)
  then have "file_bytes 1024 ?B ?i 3 = replicate 1024 5 @ replicate 1024 0 @ replicate 1024 7"
    using b by (simp add: file_bytes_def pieces_def piece_def)
  then have t: "take 3000 (file_bytes 1024 ?B ?i 3) = replicate 1024 5 @ replicate 1024 0 @ replicate 952 7" by simp
  have "file_ok (g_bs small_geom) ?B ?i (nblocks_of (g_bs small_geom) (unat (3000 :: u64)))"
    using b by (simp add: n all_less_3 file_ok_def inode_ok_def data_blk_def sb_blk_def)
  from read_file_contents [OF s(1) _ this] obtain r s' where r: "read_file ?i 3000 s = Some (Inr (r, s'))"
    "case r of (a, out, n) \<Rightarrow> n = 3000 \<and> take 3000 out = take 3000 (file_bytes 1024 ?B ?i 3) \<and> length out = 3000"
    unfolding n small_geom_simps by (rule runsE) (auto simp: s(2) n file_slabs_def slabs_for_def SLAB_SIZE_def)
  then show ?thesis unfolding t by (cases r) (auto intro!: exI [of _ s])
qed

end
