(* ===== verification/Ext2_Write.thy ===== *)
theory Ext2_Write
  imports Ext2_Alloc Ext2_File
begin

text \<open>
  Writing the contents of a file (\<^verbatim>\<open>src/src/ext2.c\<close>): the block map grows by one block at a time, each block is taken from the
  allocator and filled, and what was written is what \<^const>\<open>read_file\<close> then returns.
\<close>

subsection \<open>Steps that take blocks\<close>

text \<open>From \<open>G, B, P\<close> to \<open>G', B', P'\<close>: blocks are added to those in use, and of the ones in use before only those in \<open>X\<close> change.\<close>

definition grows :: "geom \<Rightarrow> (u32 \<Rightarrow> bytes) \<Rightarrow> u32 set \<Rightarrow> geom \<Rightarrow> (u32 \<Rightarrow> bytes) \<Rightarrow> u32 set \<Rightarrow> u32 set \<Rightarrow> bool" where
  "grows G B P G' B' P' X \<longleftrightarrow> geo_eq G G' \<and> alloc_ok G' B' P' \<and> P \<subseteq> P' \<and> own_blocks G B' = own_blocks G B \<and>
     (\<forall>b\<in>P - own_blocks G B - X. B' b = B b) \<and> (\<forall>g<g_groups G. \<exists>n. gd_of G B' g = (gd_of G B g)\<lparr>bg_free_blocks_count := n\<rparr>)"

lemma gd_self: "\<exists>n. gd = gd\<lparr>bg_free_blocks_count := n\<rparr>"
  by (rule exI [of _ "bg_free_blocks_count gd"]) simp

lemma grows_refl: "alloc_ok G B P \<Longrightarrow> grows G B P G B P X"
  by (simp add: grows_def gd_self)

lemma grows_mono: "grows G B P G' B' P' X \<Longrightarrow> X \<subseteq> Y \<Longrightarrow> grows G B P G' B' P' Y"
  unfolding grows_def by blast

lemma grows_trans:
  assumes "grows G B P G1 B1 P1 X" "grows G1 B1 P1 G2 B2 P2 Y" "Y \<inter> P \<subseteq> X"
  shows "grows G B P G2 B2 P2 X"
proof -
  note a = assms(1) [unfolded grows_def] and b = assms(2) [unfolded grows_def]
  have g: "geo_eq G G1" using a by blast
  note ge = geo_eq_facts [OF g] geo_eq_alloc [OF g]
  have "\<exists>n. gd_of G B2 h = (gd_of G B h)\<lparr>bg_free_blocks_count := n\<rparr>" if "h < g_groups G" for h
  proof -
    obtain n where "gd_of G B1 h = (gd_of G B h)\<lparr>bg_free_blocks_count := n\<rparr>" using a \<open>h < g_groups G\<close> by blast
    moreover obtain n' where "gd_of G B2 h = (gd_of G B1 h)\<lparr>bg_free_blocks_count := n'\<rparr>" using b \<open>h < g_groups G\<close> by (auto simp: ge)
    ultimately show ?thesis by (auto intro!: exI [of _ n'])
  qed
  moreover have "B2 b = B b" if "b \<in> P - own_blocks G B - X" for b
  proof -
    have "b \<in> P1 - own_blocks G B1 - Y" using that a assms(3) by blast
    then show ?thesis using that a b by (simp add: ge)
  qed
  moreover have "geo_eq G G2" using geo_eq_trans [OF g] b by blast
  ultimately show ?thesis using a b unfolding grows_def by (simp add: ge) blast
qed

lemma grows_alloc: "allocated G B P blk G' B' \<Longrightarrow> grows G B P G' B' (insert blk P) X"
  by (auto simp: allocated_def grows_def)

lemma grows_write:
  assumes "alloc_ok G B P" "b \<notin> own_blocks G B" "b \<in> X"
  shows "grows G B P G (B(b := x)) P X"
proof -
  have same: "(B(b := x)) c = B c" if "c \<in> own_blocks G B" for c using that assms(2) by auto
  note c = alloc_ok_cong [where B' = "B(b := x)", OF assms(1) same]
  show ?thesis using c assms(3) by (auto simp: grows_def gd_self)
qed

subsection \<open>The block map\<close>

text \<open>The first \<open>k\<close> blocks of the file are mapped to blocks of \<open>U\<close>, and so is the index block.\<close>

definition fmap :: "u32 \<Rightarrow> (u32 \<Rightarrow> bytes) \<Rightarrow> inode \<Rightarrow> nat \<Rightarrow> u32 set \<Rightarrow> bool" where
  "fmap bs B i k U \<longleftrightarrow> length (i_block i) = 15 \<and> i_block i ! 13 = 0 \<and> (i_block i ! 12 = 0 \<longleftrightarrow> k \<le> 12) \<and>
     (12 < k \<longrightarrow> data_blk bs (i_block i ! 12) \<and> i_block i ! 12 \<in> U) \<and>
     (\<forall>j<k. data_blk bs (blk_at bs B i j) \<and> blk_at bs B i j \<in> U \<and> blk_at bs B i j \<noteq> i_block i ! 12)"

lemma fmap_file_ok: "fmap bs B i k U \<Longrightarrow> n \<le> k \<Longrightarrow> file_ok bs B i n"
  by (auto simp: fmap_def file_ok_def inode_ok_def)

lemma blk_at_direct: "j < 12 \<Longrightarrow> blk_at bs B i j = i_block i ! j"
  by (simp add: blk_at_def)

lemma blk_at_put:
  assumes "put_bytes (B b) (4 * m) (le32_bytes blk) = Some p" "length (B b) = unat bs" "unat bs mod 4 = 0" "i_block i ! 12 = b" "b \<noteq> 0"
    "j < 12 + unat bs div 4"
  shows "blk_at bs (B(b := p)) i j = (if j = 12 + m then blk else blk_at bs B i j)"
proof (cases "j < 12")
  case True
  then show ?thesis by (simp add: blk_at_direct)
next
  case False
  have w: "words32 p = (words32 (B b))[m := blk]" "m < length (words32 (B b))" using words32_put [OF assms(1)] assms(2,3) by simp_all
  then show ?thesis using False assms(4-6) by (auto simp: blk_at_single ind_at_def)
qed

lemma fmap_direct:
  assumes "fmap bs B i k U" "k < 12" "data_blk bs blk" "blk \<in> U"
  shows "fmap bs B (i\<lparr>i_block := (i_block i)[k := blk], i_blocks := x\<rparr>) (Suc k) U"
    "blk_at bs B (i\<lparr>i_block := (i_block i)[k := blk], i_blocks := x\<rparr>) k = blk"
    "j < k \<Longrightarrow> blk_at bs B (i\<lparr>i_block := (i_block i)[k := blk], i_blocks := x\<rparr>) j = blk_at bs B i j"
proof -
  have at: "blk_at bs B (i\<lparr>i_block := (i_block i)[k := blk], i_blocks := x\<rparr>) j = (if j = k then blk else blk_at bs B i j)" if "j \<le> k" for j
    using assms(1,2) that by (simp add: blk_at_direct fmap_def)
  then show "blk_at bs B (i\<lparr>i_block := (i_block i)[k := blk], i_blocks := x\<rparr>) k = blk"
    "j < k \<Longrightarrow> blk_at bs B (i\<lparr>i_block := (i_block i)[k := blk], i_blocks := x\<rparr>) j = blk_at bs B i j" by simp_all
  have "blk \<noteq> 0" using assms(3) by (auto simp: data_blk_def)
  then show "fmap bs B (i\<lparr>i_block := (i_block i)[k := blk], i_blocks := x\<rparr>) (Suc k) U"
    using assms at by (auto simp: fmap_def less_Suc_eq)
qed

text \<open>The second half of \<^const>\<open>set_block_of\<close>: the entry in the index block \<open>b\<close>.\<close>

definition put_index :: "u32 \<Rightarrow> nat \<Rightarrow> u32 \<Rightarrow> u32 \<Rightarrow> inode \<Rightarrow> ('d ext2, bool \<times> inode) cm" where
  "put_index bs m blk b i =
     bnd (new_buf 4 (uint (bs div 4))) (\<lambda>(a, tmp). bnd (read_block b tmp) (\<lambda>(ok, tmp).
     bnd (if ok then bnd (chk (put_bytes tmp (4 * m) (le32_bytes blk))) (\<lambda>tmp.
        bnd (write_block b tmp) (\<lambda>ok. ret (ok, i\<lparr>i_blocks := i_blocks i + bs div 512\<rparr>))) else ret (False, i)) (\<lambda>r.
     bnd (free_buf a) (\<lambda>_. ret r))))"

lemma wp_put_index:
  assumes "fs_at sec L G B s" "data_blk (g_bs G) b" "m < unat (g_bs G) div 4"
    and "\<And>p s'. put_bytes (B b) (4 * m) (le32_bytes blk) = Some p \<Longrightarrow> fs_at sec L G (B(b := p)) s' \<Longrightarrow> Q (True, i\<lparr>i_blocks := i_blocks i + g_bs G div 512\<rparr>) s'"
  shows "wp (put_index (g_bs G) m blk b i) Q s"
proof -
  note geo = fs_at_geom [OF assms(1)]
  note bs = bs_ok_facts [OF geo(8)] scratch_sizes [OF geo(8)]
  have l: "length (B b) = unat (g_bs G)" by (rule length_block [OF assms(1) data_blk_sb [OF assms(2)]])
  have "4 * m + 4 \<le> unat (g_bs G)" using assms(3) by simp
  then have p: "put_bytes (B b) (4 * m) (le32_bytes blk) = Some (store (B b) (4 * m) (le32_bytes blk))"
    "length (store (B b) (4 * m) (le32_bytes blk)) = unat (g_bs G)" using l by (simp_all add: put_bytes_Some)
  show ?thesis
    unfolding put_index_def using assms(1)
    apply -
    apply (erule new_bnd, simp, simp add: bs)
    apply (erule read_bnd, rule assms(2), use bs in simp)
    apply (simp add: p(1))
    apply (erule write_bnd, rule data_blk_sb [OF assms(2)], simp add: p(2))
    apply (erule free_bnd, assumption)
    apply (simp add: assms(4) [OF p(1)])
    done
qed

text \<open>\<^const>\<open>set_block_of\<close> beyond the direct blocks.\<close>

definition with_index :: "u32 \<Rightarrow> inode \<Rightarrow> u32 \<Rightarrow> inode" where
  "with_index bs i ind = i\<lparr>i_block := (i_block i)[12 := ind], i_blocks := i_blocks i + bs div 512\<rparr>"

lemma bnd_if: "bnd (if c then m else m') f = (if c then bnd m f else bnd m' f)"
  by simp

lemma set_block_of_index:
  assumes "fs_block_size s = bs" "length (i_block i) = 15" "\<not> n < 12" "\<not> n - 12 \<ge> bs div 4"
  shows "wp (set_block_of i n blk) Q s = wp (if i_block i ! 12 = 0
    then bnd alloc_block (\<lambda>ind. if ind = 0 then ret (False, i) else put_index bs (unat (n - 12)) blk ind (with_index bs i ind))
    else put_index bs (unat (n - 12)) blk (i_block i ! 12) i) Q s"
proof -
  have rw: "rd (i_block i) 12 = Some (i_block i ! 12)" "wr (i_block i) 12 ind = Some ((i_block i)[12 := ind])" for ind
    using assms(2) by (simp_all add: rd_def wr_def)
  show ?thesis
    unfolding set_block_of_def put_index_def with_index_def using assms
    by (cases "i_block i ! 12 = 0") (simp_all add: Let_def rw bnd_if chk_def cong: if_cong)
qed

lemma blk_at_blocks [simp]: "blk_at bs B (i\<lparr>i_blocks := x\<rparr>) = blk_at bs B i"
  by (simp add: fun_eq_iff blk_at_def Let_def cong: if_cong)

lemma fmap_index:
  assumes "put_bytes (B b) (4 * m) (le32_bytes blk) = Some p" "length (B b) = unat bs" "unat bs mod 4 = 0" "m < unat bs div 4"
    "length (i_block i) = 15" "i_block i ! 13 = 0" "i_block i ! 12 = b" "data_blk bs b" "b \<in> U" "data_blk bs blk" "blk \<in> U" "blk \<noteq> b"
    "\<And>j. j < 12 + m \<Longrightarrow> data_blk bs (blk_at bs B i j) \<and> blk_at bs B i j \<in> U \<and> blk_at bs B i j \<noteq> b"
  shows "fmap bs (B(b := p)) (i\<lparr>i_blocks := x\<rparr>) (Suc (12 + m)) U" "blk_at bs (B(b := p)) (i\<lparr>i_blocks := x\<rparr>) (12 + m) = blk"
    "j < 12 + m \<Longrightarrow> blk_at bs (B(b := p)) (i\<lparr>i_blocks := x\<rparr>) j = blk_at bs B i j"
proof -
  have b0: "b \<noteq> 0" using assms(8) by (auto simp: data_blk_def)
  note at = blk_at_put [where B = B and b = b, OF assms(1-3,7) b0]
  show "blk_at bs (B(b := p)) (i\<lparr>i_blocks := x\<rparr>) (12 + m) = blk" "j < 12 + m \<Longrightarrow> blk_at bs (B(b := p)) (i\<lparr>i_blocks := x\<rparr>) j = blk_at bs B i j"
    using at assms(4) by simp_all
  show "fmap bs (B(b := p)) (i\<lparr>i_blocks := x\<rparr>) (Suc (12 + m)) U"
    unfolding fmap_def using assms(4-12) b0
  proof (intro conjI allI impI)
    fix j assume j: "j < Suc (12 + m)"
    then have "blk_at bs (B(b := p)) i j = (if j = 12 + m then blk else blk_at bs B i j)" using assms(4) by (intro at) simp
    then have "data_blk bs (blk_at bs (B(b := p)) i j) \<and> blk_at bs (B(b := p)) i j \<in> U \<and> blk_at bs (B(b := p)) i j \<noteq> b"
      using assms(10-12) assms(13) [of j] j by (cases "j = 12 + m") simp_all
    then show "data_blk bs (blk_at bs (B(b := p)) (i\<lparr>i_blocks := x\<rparr>) j)" "blk_at bs (B(b := p)) (i\<lparr>i_blocks := x\<rparr>) j \<in> U"
      "blk_at bs (B(b := p)) (i\<lparr>i_blocks := x\<rparr>) j \<noteq> i_block (i\<lparr>i_blocks := x\<rparr>) ! 12" using assms(7) by simp_all
  qed simp_all
qed

definition same_meta :: "inode \<Rightarrow> inode \<Rightarrow> bool" where
  "same_meta i i' \<longleftrightarrow> i' = i\<lparr>i_block := i_block i', i_blocks := i_blocks i'\<rparr>"

lemma same_meta_refl [simp]: "same_meta i i" and same_meta_upd [simp]: "same_meta i (i\<lparr>i_blocks := x\<rparr>)" "same_meta i (i\<lparr>i_block := bl, i_blocks := y\<rparr>)"
  by (simp_all add: same_meta_def)

lemma same_meta_trans: "same_meta i i' \<Longrightarrow> same_meta i' i'' \<Longrightarrow> same_meta i i''"
  by (cases i; cases i'; cases i'') (simp add: same_meta_def)

definition mapped_next :: "geom \<Rightarrow> (u32 \<Rightarrow> bytes) \<Rightarrow> inode \<Rightarrow> u32 set \<Rightarrow> inode \<Rightarrow> nat \<Rightarrow> u32 \<Rightarrow> u32 set \<Rightarrow> (u32 \<Rightarrow> bytes) \<Rightarrow> bool" where
  "mapped_next G B i O' i' k blk P' B' \<longleftrightarrow> fmap (g_bs G) B' i' (Suc k) (P' - O') \<and> blk_at (g_bs G) B' i' k = blk \<and>
     (\<forall>j<k. blk_at (g_bs G) B' i' j = blk_at (g_bs G) B i j) \<and> same_meta i i'"

lemma set_entry_grows:
  assumes "fs_at sec L G1 B1 s" "grows G B P G1 B1 P1 X" "length (i_block i1) = 15" "i_block i1 ! 13 = 0" "i_block i1 ! 12 = b" "data_blk (g_bs G) b"
    "b \<in> P1 - Z" "b \<in> P \<longrightarrow> b \<in> X" "m < unat (g_bs G) div 4" "data_blk (g_bs G) blk" "blk \<in> P1 - Z" "blk \<noteq> b"
    "\<forall>j<12 + m. data_blk (g_bs G) (blk_at (g_bs G) B1 i1 j) \<and> blk_at (g_bs G) B1 i1 j \<in> P1 - Z \<and> blk_at (g_bs G) B1 i1 j \<noteq> b"
    "put_bytes (B1 b) (4 * m) (le32_bytes blk) = Some p" "own_blocks G B \<subseteq> Z"
  shows "grows G B P G1 (B1(b := p)) P1 X"
    "fmap (g_bs G) (B1(b := p)) (i1\<lparr>i_blocks := x\<rparr>) (Suc (12 + m)) (P1 - Z)"
    "blk_at (g_bs G) (B1(b := p)) (i1\<lparr>i_blocks := x\<rparr>) (12 + m) = blk"
    "j < 12 + m \<Longrightarrow> blk_at (g_bs G) (B1(b := p)) (i1\<lparr>i_blocks := x\<rparr>) j = blk_at (g_bs G) B1 i1 j"
proof -
  note a = assms(2) [unfolded grows_def]
  have g: "geo_eq G G1" using a by blast
  note ge = geo_eq_facts [OF g] geo_eq_alloc [OF g]
  have "grows G1 B1 P1 G1 (B1(b := p)) P1 {b}" using a assms(7,15) by (intro grows_write) (auto simp: ge)
  then show "grows G B P G1 (B1(b := p)) P1 X" by (rule grows_trans [OF assms(2)]) (use assms(8) in auto)
  have l: "length (B1 b) = unat (g_bs G)" using lens_okD [OF fs_at_lens [OF assms(1)]] assms(6) by (simp add: ge)
  have m4: "unat (g_bs G) mod 4 = 0" using bs_ok_facts(6) [OF fs_at_geom(8) [OF assms(1)]] by (simp add: ge)
  note fi = fmap_index [where B = B1 and b = b and i = i1 and U = "P1 - Z", OF assms(14) l m4 assms(9,3-7,10-12)]
  show "fmap (g_bs G) (B1(b := p)) (i1\<lparr>i_blocks := x\<rparr>) (Suc (12 + m)) (P1 - Z)"
    "blk_at (g_bs G) (B1(b := p)) (i1\<lparr>i_blocks := x\<rparr>) (12 + m) = blk"
    "j < 12 + m \<Longrightarrow> blk_at (g_bs G) (B1(b := p)) (i1\<lparr>i_blocks := x\<rparr>) j = blk_at (g_bs G) B1 i1 j"
    using assms(13) by (intro fi; simp)+
qed

text \<open>What \<^const>\<open>set_block_of\<close> leaves behind: the file has one more block, or nothing has changed since the disk is full or the file as large
  as it can be.\<close>

definition set_post :: "('d \<Rightarrow> nat \<Rightarrow> bytes) \<Rightarrow> (nat \<times> nat) set \<Rightarrow> u32 set \<Rightarrow> geom \<Rightarrow> (u32 \<Rightarrow> bytes) \<Rightarrow> u32 set \<Rightarrow> inode \<Rightarrow> nat \<Rightarrow> u32 \<Rightarrow> bool \<times> inode \<Rightarrow> 'd ext2 \<Rightarrow> bool" where
  "set_post sec L Z G B P i k blk r s' \<longleftrightarrow> (\<exists>G' B' P'. fs_at sec L G' B' s' \<and> grows G B P G' B' P' {i_block i ! 12} \<and>
     (if fst r then mapped_next G B i Z (snd r) k blk P' B' \<and> (i_block (snd r) ! 12 \<in> P \<longrightarrow> i_block (snd r) ! 12 = i_block i ! 12) \<and>
        avail G B \<le> avail G' B' + (if k = 12 then 1 else 0)
      else snd r = i \<and> G' = G \<and> B' = B \<and> P' = P \<and> (12 + unat (g_bs G) div 4 \<le> k \<or> k = 12 \<and> disk_full G B)))"

lemma set_post_same:
  "fs_at sec L G B s' \<Longrightarrow> alloc_ok G B P \<Longrightarrow> 12 + unat (g_bs G) div 4 \<le> k \<or> k = 12 \<and> disk_full G B \<Longrightarrow> set_post sec L Z G B P i k blk (False, i) s'"
  by (auto simp: set_post_def grows_refl)

lemma put_index_post:
  assumes "fs_at sec L G1 B1 s1" "grows G B P G1 B1 P1 {i_block i ! 12}" "length (i_block i1) = 15" "i_block i1 ! 13 = 0" "i_block i1 ! 12 = b"
    "data_blk (g_bs G) b" "b \<in> P1 - Z" "b \<in> P \<longrightarrow> b \<in> {i_block i ! 12}" "blk \<noteq> b" "m < unat (g_bs G) div 4"
    "\<forall>j<12 + m. blk_at (g_bs G) B1 i1 j = blk_at (g_bs G) B i j \<and> blk_at (g_bs G) B i j \<noteq> b" "same_meta i i1"
    "fmap (g_bs G) B i (12 + m) (P - Z)" "data_blk (g_bs G) blk" "blk \<in> P - Z" "own_blocks G B \<subseteq> Z"
    "avail G B \<le> avail G1 B1 + (if m = 0 then 1 else 0)"
  shows "wp (put_index (g_bs G) m blk b i1) (set_post sec L Z G B P i (12 + m) blk) s1"
proof -
  have g: "g_bs G1 = g_bs G" "P \<subseteq> P1" using assms(2) geo_eq_facts(1) by (auto simp: grows_def)
  have pre: "\<forall>j<12 + m. data_blk (g_bs G) (blk_at (g_bs G) B1 i1 j) \<and> blk_at (g_bs G) B1 i1 j \<in> P1 - Z \<and> blk_at (g_bs G) B1 i1 j \<noteq> b"
    using assms(11,13) g(2) by (auto simp: fmap_def)
  have blk: "blk \<in> P1 - Z" using assms(15) g(2) by blast
  note sg = set_entry_grows [OF assms(1-8,10,14) blk assms(9) pre _ assms(16)]
  have "set_post sec L Z G B P i (12 + m) blk (True, i1\<lparr>i_blocks := x\<rparr>) s'"
    if p: "put_bytes (B1 b) (4 * m) (le32_bytes blk) = Some p" and "fs_at sec L G1 (B1(b := p)) s'" for p s' x
  proof -
    have "mapped_next G B i Z (i1\<lparr>i_blocks := x\<rparr>) (12 + m) blk P1 (B1(b := p))"
      unfolding mapped_next_def using sg(2-4) [OF p] assms(11) same_meta_trans [OF assms(12)] by simp
    moreover have "alloc_ok G1 B1 P1" "own_blocks G1 B1 \<subseteq> Z" using assms(2,16) geo_eq_alloc(3) [of G G1] by (auto simp: grows_def)
    then have "avail G1 (B1(b := p)) = avail G1 B1" using assms(7) by (intro avail_cong) auto
    ultimately show ?thesis using sg(1) [OF p] that(2) assms(5,8,17) unfolding set_post_def
      by (intro exI [of _ G1] exI [of _ "B1(b := p)"] exI [of _ P1]) auto
  qed
  then show ?thesis using wp_put_index [OF assms(1), of b m blk "set_post sec L Z G B P i (12 + m) blk" i1] assms(6,10) unfolding g(1) by blast
qed

lemma set_block_of_alloc:
  assumes "fs_at sec L G B s" "alloc_ok G B P" "fmap (g_bs G) B i 12 (P - Z)" "data_blk (g_bs G) blk" "blk \<in> P - Z"
    "own_blocks G B \<subseteq> Z" "Z \<subseteq> P"
  shows "wp (bnd alloc_block (\<lambda>ind. if ind = 0 then ret (False, i) else put_index (g_bs G) 0 blk ind (with_index (g_bs G) i ind)))
    (set_post sec L Z G B P i 12 blk) s"
proof (rule alloc_bnd [OF assms(1,2)])
  show "wp (if 0 = 0 then ret (False, i) else put_index (g_bs G) 0 blk 0 (with_index (g_bs G) i 0)) (set_post sec L Z G B P i 12 blk) s'"
    if "disk_full G B" "fs_at sec L G B s'" for s' using that assms(2) by (simp add: set_post_same)
  fix ind G1 B1 s1 assume ind: "ind \<noteq> 0" "allocated G B P ind G1 B1" "fs_at sec L G1 B1 s1"
  note al = ind(2) [unfolded allocated_def]
  have len: "length (i_block i) = 15" "i_block i ! 13 = 0" using assms(3) by (simp_all add: fmap_def)
  have dat: "\<forall>j<12 + 0. blk_at (g_bs G) B1 (with_index (g_bs G) i ind) j = blk_at (g_bs G) B i j \<and> blk_at (g_bs G) B i j \<noteq> ind"
    using assms(3) al by (auto simp: fmap_def blk_at_direct with_index_def)
  have "ind \<notin> Z" using al assms(7) by auto
  then have mem: "ind \<in> insert ind P - Z" "ind \<in> P \<longrightarrow> ind \<in> {i_block i ! 12}" "blk \<noteq> ind" "data_blk (g_bs G) ind" using al assms(5) by auto
  have i1: "length (i_block (with_index (g_bs G) i ind)) = 15" "i_block (with_index (g_bs G) i ind) ! 13 = 0"
    "i_block (with_index (g_bs G) i ind) ! 12 = ind" "same_meta i (with_index (g_bs G) i ind)" using len by (simp_all add: with_index_def)
  have "0 < unat (g_bs G) div 4" using per_facts(3) [OF fs_at_geom(8) [OF assms(1)]] by simp
  moreover have "avail G B \<le> avail G1 B1 + 1" using al avail_geo [of G G1 B1] by simp
  ultimately have "wp (put_index (g_bs G) 0 blk ind (with_index (g_bs G) i ind)) (set_post sec L Z G B P i (12 + 0) blk) s1"
    using assms(3-6) by (intro put_index_post [OF ind(3) grows_alloc [OF ind(2)] i1(1-3) mem(4,1-3) _ dat i1(4)]) simp_all
  then
  show "wp (if ind = 0 then ret (False, i) else put_index (g_bs G) 0 blk ind (with_index (g_bs G) i ind)) (set_post sec L Z G B P i 12 blk) s1" using ind(1) by simp
qed

lemma wp_set_block_of:
  assumes "fs_at sec L G B s" "alloc_ok G B P" "fmap (g_bs G) B i (unat n) (P - Z)" "data_blk (g_bs G) blk" "blk \<in> P - Z"
    "i_block i ! 12 \<noteq> blk" "own_blocks G B \<subseteq> Z" "Z \<subseteq> P"
  shows "wp (set_block_of i n blk) (set_post sec L Z G B P i (unat n) blk) s"
proof -
  note geo = fs_at_geom [OF assms(1)]
  have lt12: "n < 12 \<longleftrightarrow> unat n < 12" by (simp add: word_less_nat_alt)
  have len: "length (i_block i) = 15" "i_block i ! 13 = 0" using assms(3) by (simp_all add: fmap_def)
  have per: "n - 12 \<ge> g_bs G div 4 \<longleftrightarrow> 12 + unat (g_bs G) div 4 \<le> unat n" "unat (n - 12) = unat n - 12" if "\<not> n < 12"
    using that per_facts(1) [OF geo(8)] by (auto simp: unat_sub_small word_le_nat_alt word_less_nat_alt)
  consider "n < 12" | "\<not> n < 12" "n - 12 \<ge> g_bs G div 4" | "\<not> n < 12" "\<not> n - 12 \<ge> g_bs G div 4" by blast
  then show ?thesis
  proof cases
    case 1
    then have k: "unat n < 12" using lt12 by simp
    have "mapped_next G B i Z (i\<lparr>i_block := (i_block i)[unat n := blk], i_blocks := i_blocks i + g_bs G div 512\<rparr>) (unat n) blk P B"
      using fmap_direct [OF assms(3) k assms(4,5)] by (simp add: mapped_next_def)
    moreover have "wr (i_block i) (unat n) blk = Some ((i_block i)[unat n := blk])" using k len by (simp add: wr_def)
    moreover have "(i_block i)[unat n := blk] ! 12 = i_block i ! 12" using k by simp
    ultimately have "set_post sec L Z G B P i (unat n) blk (True, i\<lparr>i_block := (i_block i)[unat n := blk], i_blocks := i_blocks i + g_bs G div 512\<rparr>) s"
      using k assms(1) grows_refl [OF assms(2)] unfolding set_post_def by (intro exI [of _ G] exI [of _ B] exI [of _ P]) auto
    then show ?thesis using 1 k len by (simp add: set_block_of_def geo wr_def)
  next
    case 2
    then have "wp (set_block_of i n blk) Q s = Q (False, i) s" for Q by (simp add: set_block_of_def geo Let_def)
    then show ?thesis using set_post_same [OF assms(1,2)] per(1) [OF 2(1)] 2(2) by simp
  next
    case 3
    then have k: "12 + unat (n - 12) = unat n" "unat (n - 12) < unat (g_bs G) div 4" using per [OF 3(1)] lt12 by auto
    show ?thesis
    proof (cases "i_block i ! 12 = 0")
      case True
      then have "unat n = 12" "unat (n - 12) = 0" using assms(3) k(1) by (auto simp: fmap_def)
      then show ?thesis using set_block_of_alloc [OF assms(1,2) _ assms(4,5,7,8)] assms(3) True set_block_of_index [OF geo(2) len(1) 3] by (simp cong: if_cong)
    next
      case False
      then have f: "data_blk (g_bs G) (i_block i ! 12)" "i_block i ! 12 \<in> P - Z" "\<forall>j<12 + unat (n - 12). blk_at (g_bs G) B i j \<noteq> i_block i ! 12"
        using assms(3) k(1) by (auto simp: fmap_def)
      from put_index_post [OF assms(1) grows_refl [OF assms(2)] len refl f(1,2), where blk = blk and m = "unat (n - 12)"] f(3) assms(3-7) k False
      show ?thesis using set_block_of_index [OF geo(2) len(1) 3] by simp
    qed
  qed
qed

subsection \<open>The contents\<close>

lemma fmap_bound:
  assumes "fmap bs B i k U" "bs_ok bs"
  shows "k \<le> 12 + unat bs div 4"
proof (rule ccontr)
  assume "\<not> k \<le> 12 + unat bs div 4"
  then have "data_blk bs (blk_at bs B i (12 + unat bs div 4))" using assms(1) by (simp add: fmap_def)
  moreover have "0 < unat bs div 4 * (unat bs div 4)" using per_facts(3) [OF assms(2)] by simp
  then have "blk_at bs B i (12 + unat bs div 4) = 0" using assms(1) by (simp add: blk_at_def ind_at_def fmap_def)
  ultimately show False by (simp add: data_blk_def)
qed

lemma fmap_frame:
  assumes "fmap bs B i k U" "bs_ok bs" "U \<subseteq> U'" "i_block i ! 12 \<in> U \<Longrightarrow> B' (i_block i ! 12) = B (i_block i ! 12)"
  shows "fmap bs B' i k U'" "j < k \<Longrightarrow> blk_at bs B' i j = blk_at bs B i j"
proof -
  note k = fmap_bound [OF assms(1,2)]
  have at: "blk_at bs B' i j = blk_at bs B i j" if "j < k" for j
  proof (cases "j < 12")
    case False
    then have "i_block i ! 12 \<in> U" using assms(1) that by (simp add: fmap_def)
    from assms(4) [OF this] False that k show ?thesis by (simp add: blk_at_single ind_at_def)
  qed (simp add: blk_at_direct)
  then show "j < k \<Longrightarrow> blk_at bs B' i j = blk_at bs B i j" .
  show "fmap bs B' i k U'" using assms(1,3) at by (auto simp: fmap_def)
qed

lemma grows_released:
  assumes "grows G B P G1 B1 P1 X" "released G1 B1 P2 G2 B2" "P \<subseteq> P2" "P \<subseteq> P1"
  shows "grows G B P G2 B2 P2 X"
proof -
  note r = assms(2) [unfolded released_def]
  have "grows G1 B1 P G2 B2 P2 {}" using r assms(3) by (auto simp: grows_def)
  note a = assms(1) [unfolded grows_def]
  have g: "geo_eq G G1" using a by blast
  note ge = geo_eq_facts [OF g] geo_eq_alloc [OF g]
  have "\<exists>n. gd_of G B2 h = (gd_of G B h)\<lparr>bg_free_blocks_count := n\<rparr>" if "h < g_groups G" for h
  proof -
    obtain n where "gd_of G B1 h = (gd_of G B h)\<lparr>bg_free_blocks_count := n\<rparr>" using a \<open>h < g_groups G\<close> by blast
    moreover obtain n' where "gd_of G B2 h = (gd_of G B1 h)\<lparr>bg_free_blocks_count := n'\<rparr>" using r \<open>h < g_groups G\<close> by (auto simp: ge)
    ultimately show ?thesis by (auto intro!: exI [of _ n'])
  qed
  then show ?thesis using a r assms(3) geo_eq_trans [OF g] by (auto simp: grows_def ge)
qed

text \<open>Block \<open>k\<close> of the bytes \<open>xs\<close>, padded with zeroes.\<close>

definition chunk :: "u32 \<Rightarrow> bytes \<Rightarrow> nat \<Rightarrow> bytes" where
  "chunk bs xs k = take (unat bs) (drop (k * unat bs) xs @ replicate (unat bs) 0)"

lemma length_chunk [simp]: "length (chunk bs xs k) = unat bs"
  by (simp add: chunk_def)

lemma block_lt:
  assumes "k < nblocks_of bs n" "0 < unat bs"
  shows "k * unat bs < n"
proof -
  have "Suc k * unat bs \<le> nblocks_of bs n * unat bs" using assms(1) by (intro mult_le_mono1) simp
  also have "\<dots> \<le> n + unat bs - 1" by (simp add: nblocks_of_def)
  finally show ?thesis using assms(2) by simp
qed

lemma chunk_bytes:
  assumes "bs_ok bs" "unat (fsize :: u64) \<le> length data" "unat fsize < 2 ^ 31" "k < nblocks_of bs (unat fsize)"
  shows "\<exists>x. get_bytes data (k * unat bs) (unat (if (ucast (fsize - of_nat k * ucast bs) :: u32) > bs then bs else ucast (fsize - of_nat k * ucast bs))) = Some x \<and>
    put_bytes (replicate (unat bs) 0) 0 x = Some (chunk bs (take (unat fsize) data) k)"
proof -
  note bs = bs_ok_facts [OF assms(1)]
  have lt: "k * unat bs < unat fsize" using block_lt [OF assms(4)] bs(2) by simp
  have "k * 1 \<le> k * unat bs" using bs(2) by (intro mult_le_mono2) simp
  then have "k < 2 ^ 31" using lt assms(3) by linarith
  then have k: "unat (of_nat k :: u64) = k" by (intro unat_of_nat_small) simp
  have "unat (of_nat k * ucast bs :: u64) = k * unat bs" using k lt assms(3) by (subst unat_mult_small) simp_all
  then have d: "unat (fsize - of_nat k * ucast bs) = unat fsize - k * unat bs" using lt by (subst unat_sub_small) simp_all
  then have c: "unat (ucast (fsize - of_nat k * ucast bs) :: u32) = unat fsize - k * unat bs" using assms(3) by (subst unat_ucast_small) simp_all
  define n where "n = min (unat bs) (unat fsize - k * unat bs)"
  have n: "unat (if (ucast (fsize - of_nat k * ucast bs) :: u32) > bs then bs else ucast (fsize - of_nat k * ucast bs)) = n"
    using c by (auto simp: n_def word_less_nat_alt)
  have le: "k * unat bs + n \<le> length data" "n \<le> unat bs" using lt assms(2) by (auto simp: n_def)
  have "chunk bs (take (unat fsize) data) k = bslice data (k * unat bs) n @ replicate (unat bs - n) 0"
    using assms(2) lt by (auto simp: chunk_def n_def bslice_def take_drop min_def)
  then show ?thesis unfolding n using le by (simp add: get_bytes_def put_bytes_def store_def)
qed

text \<open>The blocks that are still to be taken for a file of \<open>n\<close> blocks of which \<open>k\<close> are there: one for each, and the index block.\<close>

definition to_take :: "nat \<Rightarrow> nat \<Rightarrow> nat" where
  "to_take k n = n - k + (if k \<le> 12 \<and> 12 < n then 1 else 0)"

lemma to_take_Suc: "k < n \<Longrightarrow> to_take k n = to_take (Suc k) n + 1 + (if k = 12 then 1 else 0)"
  by (auto simp: to_take_def)

text \<open>What writing the blocks of a file from block \<open>k\<close> on leaves behind: the file has the contents \<open>xs\<close>, or it is too large or has more blocks
  than are free.\<close>

definition write_post :: "('d \<Rightarrow> nat \<Rightarrow> bytes) \<Rightarrow> (nat \<times> nat) set \<Rightarrow> u32 set \<Rightarrow> geom \<Rightarrow> (u32 \<Rightarrow> bytes) \<Rightarrow> u32 set \<Rightarrow> inode \<Rightarrow> nat \<Rightarrow> nat \<Rightarrow> bytes \<Rightarrow> bool \<times> inode \<Rightarrow> 'd ext2 \<Rightarrow> bool" where
  "write_post sec L Z G B P i k n xs r s' \<longleftrightarrow> (\<exists>G' B' P'. fs_at sec L G' B' s' \<and> grows G B P G' B' P' {i_block i ! 12} \<and> same_meta i (snd r) \<and>
     length (i_block (snd r)) = 15 \<and>
     (if fst r then fmap (g_bs G) B' (snd r) n (P' - Z) \<and> (\<forall>j<n. B' (blk_at (g_bs G) B' (snd r) j) = chunk (g_bs G) xs j)
      else 12 + unat (g_bs G) div 4 < n \<or> avail G B < to_take k n))"

lemma write_post_True:
  "fs_at sec L G' B' s' \<Longrightarrow> grows G B P G' B' P' {i_block i ! 12} \<Longrightarrow> same_meta i i' \<Longrightarrow> fmap (g_bs G) B' i' n (P' - Z) \<Longrightarrow>
   \<forall>j<n. B' (blk_at (g_bs G) B' i' j) = chunk (g_bs G) xs j \<Longrightarrow> write_post sec L Z G B P i k n xs (True, i') s'"
  unfolding write_post_def by (intro exI [of _ G'] exI [of _ B'] exI [of _ P']) (simp add: fmap_def)

lemma write_post_False:
  "fs_at sec L G' B' s' \<Longrightarrow> grows G B P G' B' P' {i_block i ! 12} \<Longrightarrow> same_meta i i' \<Longrightarrow> length (i_block i') = 15 \<Longrightarrow>
   12 + unat (g_bs G) div 4 < n \<or> avail G B < to_take k n \<Longrightarrow> write_post sec L Z G B P i k n xs (False, i') s'"
  unfolding write_post_def by (intro exI [of _ G'] exI [of _ B'] exI [of _ P']) simp

lemma write_post_trans:
  assumes "grows G B P G1 B1 P1 {i_block i ! 12}" "same_meta i i1" "i_block i1 ! 12 \<in> P \<longrightarrow> i_block i1 ! 12 = i_block i ! 12"
    "write_post sec L Z G1 B1 P1 i1 (Suc k) n xs r s'" "avail G B \<le> avail G1 B1 + (1 + (if k = 12 then 1 else 0))" "k < n"
  shows "write_post sec L Z G B P i k n xs r s'"
proof -
  have g: "geo_eq G G1" "own_blocks G B1 = own_blocks G B" using assms(1) by (auto simp: grows_def)
  note ge = geo_eq_facts(1) [OF g(1)] geo_eq_alloc(3) [OF g(1)]
  have tr: "grows G B P G2 B2 P2 {i_block i ! 12}" if "grows G1 B1 P1 G2 B2 P2 {i_block i1 ! 12}" for G2 B2 P2
    by (rule grows_trans [OF assms(1) that]) (use assms(3) in auto)
  obtain G' B' P' where r: "fs_at sec L G' B' s'" "grows G1 B1 P1 G' B' P' {i_block i1 ! 12}" "same_meta i1 (snd r)" "length (i_block (snd r)) = 15"
    "if fst r then fmap (g_bs G) B' (snd r) n (P' - Z) \<and> (\<forall>j<n. B' (blk_at (g_bs G) B' (snd r) j) = chunk (g_bs G) xs j)
     else 12 + unat (g_bs G) div 4 < n \<or> avail G1 B1 < to_take (Suc k) n"
    using assms(4) unfolding write_post_def ge g(2) by blast
  from tr [OF r(2)] same_meta_trans [OF assms(2) r(3)] r(1,4)
  show ?thesis
  proof (cases "fst r")
    case False
    then have "12 + unat (g_bs G) div 4 < n \<or> avail G B < to_take k n" using r(5) assms(5) to_take_Suc [OF assms(6)] by auto
    then show ?thesis using tr [OF r(2)] same_meta_trans [OF assms(2) r(3)] r(1,4) False unfolding write_post_def by auto
  qed (use r(5) in \<open>auto simp: write_post_def\<close>)
qed

text \<open>One block: taken, filled, and entered into the map.\<close>

lemma write_one:
  assumes "alloc_ok G B P" "fmap (g_bs G) B i k (P - Z)" "bs_ok (g_bs G)" "allocated G B P blk G1 B1" "own_blocks G B \<subseteq> Z" "Z \<subseteq> P"
  shows "grows G B P G1 (B1(blk := x)) (insert blk P) X" "alloc_ok G1 (B1(blk := x)) (insert blk P)" "own_blocks G1 (B1(blk := x)) = own_blocks G B"
    "fmap (g_bs G) (B1(blk := x)) i k (insert blk P - Z)" "j < k \<Longrightarrow> blk_at (g_bs G) (B1(blk := x)) i j = blk_at (g_bs G) B i j"
    "b \<in> P - Z \<Longrightarrow> (B1(blk := x)) b = B b" "blk \<in> insert blk P - Z" "i_block i ! 12 \<noteq> blk" "data_blk (g_bs G) blk"
    "avail G B \<le> avail G1 (B1(blk := x)) + 1"
proof -
  note al = assms(4) [unfolded allocated_def]
  have g: "geo_eq G G1" using al by blast
  note ge = geo_eq_facts [OF g] geo_eq_alloc [OF g]
  have own: "blk \<notin> own_blocks G B" using al assms(1) by (auto simp: alloc_ok_def)
  show "blk \<in> insert blk P - Z" using al assms(6) by auto
  show d: "data_blk (g_bs G) blk" using al by blast
  have "grows G1 B1 (insert blk P) G1 (B1(blk := x)) (insert blk P) {blk}" using al own by (intro grows_write) (auto simp: ge)
  then show gr: "grows G B P G1 (B1(blk := x)) (insert blk P) X" by (rule grows_trans [OF grows_alloc [OF assms(4)]]) (use al in auto)
  then show "alloc_ok G1 (B1(blk := x)) (insert blk P)" "own_blocks G1 (B1(blk := x)) = own_blocks G B" by (simp_all add: grows_def ge)
  show fr: "(B1(blk := x)) b = B b" if "b \<in> P - Z" for b using that al assms(5) by auto
  have "avail G1 (B1(blk := x)) = avail G1 B1" using al own by (intro avail_cong [of G1 B1 "insert blk P"]) (auto simp: ge)
  then show "avail G B \<le> avail G1 (B1(blk := x)) + 1" using al avail_geo [OF g] by simp
  have "i_block i ! 12 = 0 \<or> i_block i ! 12 \<in> P" using assms(2) by (auto simp: fmap_def)
  then show "i_block i ! 12 \<noteq> blk" using al by (auto simp: data_blk_def)
  have sub: "P - Z \<subseteq> insert blk P - Z" by blast
  note ff = fmap_frame [where B' = "B1(blk := x)" and U' = "insert blk P - Z", OF assms(2,3) sub fr]
  show "fmap (g_bs G) (B1(blk := x)) i k (insert blk P - Z)" by (rule ff(1))
  show "j < k \<Longrightarrow> blk_at (g_bs G) (B1(blk := x)) i j = blk_at (g_bs G) B i j" by (rule ff(2))
qed

lemma entry_contents:
  assumes "fmap bs B i k (P - O')" "\<forall>j<k. B (blk_at bs B i j) = chunk bs xs j" "blk_at bs B3 i' k = blk" "\<forall>j<k. blk_at bs B3 i' j = blk_at bs B i j"
    "B3 blk = chunk bs xs k" "\<And>b. b \<in> P - O' \<Longrightarrow> b \<noteq> i_block i ! 12 \<Longrightarrow> B3 b = B b"
  shows "\<forall>j<Suc k. B3 (blk_at bs B3 i' j) = chunk bs xs j"
  using assms by (auto simp: less_Suc_eq fmap_def)

lemma write_entry:
  assumes "allocated G B P blk G1 B1" "fs_at sec L G1 (B1(blk := chunk bs xs k)) s" "alloc_ok G B P" "fmap (g_bs G) B i k (P - Z)"
    "\<forall>j<k. B (blk_at (g_bs G) B i j) = chunk (g_bs G) xs j" "g_bs G = bs" "unat n' = k" "k < n" "own_blocks G B \<subseteq> Z" "Z \<subseteq> P"
    and cont: "\<And>i' G' B' P' s'. fs_at sec L G' B' s' \<Longrightarrow> g_bs G' = bs \<Longrightarrow> alloc_ok G' B' P' \<Longrightarrow> own_blocks G' B' \<subseteq> Z \<Longrightarrow> Z \<subseteq> P' \<Longrightarrow> fmap bs B' i' (Suc k) (P' - Z) \<Longrightarrow>
      \<forall>j<Suc k. B' (blk_at bs B' i' j) = chunk bs xs j \<Longrightarrow> wp (f i') (write_post sec L Z G' B' P' i' (Suc k) n xs) s'"
  shows "wp (bnd (set_block_of i n' blk) (\<lambda>(ok, i). if \<not> ok then bnd (free_block blk) (\<lambda>_. ret (False, i)) else f i)) (write_post sec L Z G B P i k n xs) s"
proof -
  have g: "geo_eq G G1" using assms(1) by (simp add: allocated_def)
  note ge = geo_eq_facts(1) [OF g] geo_eq_alloc(3) [OF g]
  have bok: "bs_ok (g_bs G)" using fs_at_geom(8) [OF assms(2)] by (simp add: ge)
  note one = write_one(1-6) [where x = "chunk bs xs k", OF assms(3,4) bok assms(1,9,10)] write_one(7-9) [OF assms(3,4) bok assms(1,9,10)]
    write_one(10) [where x = "chunk bs xs k", OF assms(3,4) bok assms(1,9,10)]
  have len: "length (i_block i) = 15" using assms(4) by (simp add: fmap_def)
  let ?B2 = "B1(blk := chunk bs xs k)" and ?P2 = "insert blk P" and ?own = "own_blocks G B"
  have fm2: "fmap (g_bs G1) ?B2 i (unat n') (?P2 - Z)" unfolding assms(7) ge(1) by (rule one(4))
  have mem: "data_blk (g_bs G1) blk" "blk \<in> ?P2 - Z" "own_blocks G1 ?B2 \<subseteq> Z" "Z \<subseteq> ?P2"
    using one(9,7) assms(9,10) unfolding ge(1) one(3) by auto
  show ?thesis
  proof (rule wp_bndI [OF wp_set_block_of [OF assms(2) one(2) fm2 mem(1,2) one(8) mem(3,4)]], unfold assms(7))
    fix r s3 assume "set_post sec L Z G1 ?B2 ?P2 i k blk r s3"
    then obtain G3 B3 P3 where r: "fs_at sec L G3 B3 s3" "grows G1 ?B2 ?P2 G3 B3 P3 {i_block i ! 12}"
      "if fst r then mapped_next G1 ?B2 i Z (snd r) k blk P3 B3 \<and> (i_block (snd r) ! 12 \<in> ?P2 \<longrightarrow> i_block (snd r) ! 12 = i_block i ! 12) \<and>
          avail G1 ?B2 \<le> avail G3 B3 + (if k = 12 then 1 else 0)
       else snd r = i \<and> G3 = G1 \<and> B3 = ?B2 \<and> P3 = ?P2 \<and> (12 + unat (g_bs G1) div 4 \<le> k \<or> k = 12 \<and> disk_full G1 ?B2)"
      unfolding set_post_def by blast
    have gr: "grows G B P G3 B3 P3 {i_block i ! 12}" by (rule grows_trans [OF one(1) r(2)]) simp
    show "wp (case r of (ok, i) \<Rightarrow> if \<not> ok then bnd (free_block blk) (\<lambda>_. ret (False, i)) else f i) (write_post sec L Z G B P i k n xs) s3"
    proof (cases "fst r")
      case True
      with r(3) have mn: "mapped_next G1 ?B2 i Z (snd r) k blk P3 B3" "i_block (snd r) ! 12 \<in> ?P2 \<longrightarrow> i_block (snd r) ! 12 = i_block i ! 12"
        "avail G B \<le> avail G3 B3 + (1 + (if k = 12 then 1 else 0))" using one(10) by simp_all
      note m = mn(1) [unfolded mapped_next_def ge(1)]
      have g3: "g_bs G3 = bs" "own_blocks G3 B3 \<subseteq> Z" "alloc_ok G3 B3 P3" "Z \<subseteq> P3"
        using gr geo_eq_facts(1) [of G G3] geo_eq_alloc(3) [of G G3] assms(6,9,10) by (auto simp: grows_def)
      have keep: "B3 b = ?B2 b" if "b \<in> ?P2 - Z" "b \<noteq> i_block i ! 12" for b using r(2) that assms(9) unfolding grows_def one(3) by blast
      have "\<forall>j<Suc k. B3 (blk_at bs B3 (snd r) j) = chunk bs xs j"
      proof (rule entry_contents)
        show "B3 b = B b" if "b \<in> P - Z" "b \<noteq> i_block i ! 12" for b using keep [of b] one(6) [OF that(1)] that by auto
        show "B3 blk = chunk bs xs k" using keep [OF one(7)] one(8) by simp
      qed (use assms(4-6) m one(5) in auto)
      then have "wp (f (snd r)) (write_post sec L Z G3 B3 P3 (snd r) (Suc k) n xs) s3"
        using r(1) g3 m assms(6) by (intro cont) simp_all
      then have "wp (f (snd r)) (write_post sec L Z G B P i k n xs) s3"
        by (rule wp_mono) (rule write_post_trans [OF gr _ _ _ mn(3) assms(8)], use m mn(2) in auto)
      then show ?thesis using True by (cases r) simp
    next
      case False
      then have r': "snd r = i" "G3 = G1" "B3 = ?B2" "P3 = ?P2" "12 + unat (g_bs G1) div 4 \<le> k \<or> k = 12 \<and> disk_full G1 ?B2" using r(3) by simp_all
      have "12 + unat (g_bs G) div 4 < n \<or> avail G B < to_take k n"
        using r'(5) one(10) disk_full_avail [of G1 ?B2] to_take_Suc [OF assms(8)] assms(8) ge(1) by auto
      note too_big = this
      have "wp (bnd (free_block blk) (\<lambda>_. ret (False, i))) (write_post sec L Z G B P i k n xs) s3"
      proof (rule free_block_bnd [OF r(1)])
        show "alloc_ok G3 B3 P3" using r'(2-4) one(2) by simp
        show "data_blk (g_bs G3) blk" "blk \<notin> own_blocks G3 B3" using mem r'(2,3) by auto
        fix G4 B4 s4 assume rel: "released G3 B3 (P3 - {blk}) G4 B4" and s4: "fs_at sec L G4 B4 s4"
        have "grows G B P G4 B4 (P3 - {blk}) {i_block i ! 12}"
          using assms(1) r'(4) by (intro grows_released [OF gr rel]) (auto simp: allocated_def)
        then have "write_post sec L Z G B P i k n xs (False, i) s4"
          by (rule write_post_False [OF s4 _ same_meta_refl len]) (rule too_big)
        then show "wp (ret (False, i)) (write_post sec L Z G B P i k n xs) s4" by simp
      qed
      then show ?thesis using False r'(1) by (cases r) simp
    qed
  qed
qed

lemma wp_write_data:
  assumes "unat fsize \<le> length data" "unat fsize < 2 ^ 31" "n = nblocks_of bs (unat fsize)"
  shows "fs_at sec L G B s \<Longrightarrow> g_bs G = bs \<Longrightarrow> alloc_ok G B P \<Longrightarrow> own_blocks G B \<subseteq> Z \<Longrightarrow> Z \<subseteq> P \<Longrightarrow> fmap bs B i k (P - Z) \<Longrightarrow>
    \<forall>j<k. B (blk_at bs B i j) = chunk bs (take (unat fsize) data) j \<Longrightarrow> k \<le> n \<Longrightarrow>
    wp (write_data bs data fsize [k..<n] i) (write_post sec L Z G B P i k n (take (unat fsize) data)) s"
proof (induction "n - k" arbitrary: k i G B P s)
  case 0
  then have "[k..<n] = []" "k = n" by simp_all
  then show ?case using 0(2-8) by (auto intro!: write_post_True [OF _ grows_refl])
next
  case (Suc d)
  note fs = Suc.prems(1) and bs = Suc.prems(2) and al = Suc.prems(3) and Z = Suc.prems(4,5) and fm = Suc.prems(6) [folded bs] and ct = Suc.prems(7) [folded bs]
  let ?xs = "take (unat fsize) data"
  have bok: "bs_ok (g_bs G)" by (rule fs_at_geom(8) [OF fs])
  have k: "k < n" "[k..<n] = k # [Suc k..<n]" using Suc.hyps(2) by (simp_all add: upt_rec)
  have len: "length (i_block i) = 15" using fm by (simp add: fmap_def)
  have n31: "n \<le> 2 ^ 31" using file_words(5) [OF bok assms(2)] assms(3) bs by simp
  have kw: "unat (of_nat k :: u32) = k" using k(1) n31 by (intro unat_of_nat_small) simp
  obtain x where x: "get_bytes data (k * unat bs) (unat (if (ucast (fsize - of_nat k * ucast bs) :: u32) > bs then bs else ucast (fsize - of_nat k * ucast bs))) = Some x"
    "put_bytes (replicate (unat bs) 0) 0 x = Some (chunk bs ?xs k)" using chunk_bytes [OF bok assms(1,2)] k(1) assms(3) bs by auto
  show ?case unfolding k(2) write_data.simps
  proof (rule alloc_bnd [OF fs al], goal_cases)
    case (1 s')
    have "write_post sec L Z G B P i k n ?xs (False, i) s'"
      by (rule write_post_False [OF 1(2) grows_refl [OF al] same_meta_refl len]) (use disk_full_avail [OF 1(1)] k(1) in \<open>simp add: to_take_def\<close>)
    then show ?case by simp
  next
    case (2 blk G1 B1 s1)
    have "wp (bnd (set_block_of i (of_nat k) blk) (\<lambda>(ok, i). if \<not> ok then bnd (free_block blk) (\<lambda>_. ret (False, i)) else write_data bs data fsize [Suc k..<n] i))
        (write_post sec L Z G B P i k n ?xs) s2" if "fs_at sec L G1 (B1(blk := chunk bs ?xs k)) s2" for s2
      by (rule write_entry [OF 2(2) that al fm ct bs kw k(1) Z], rule Suc.hyps(1)) (use Suc.hyps(2) k(1) in simp_all)
    note rest = this
    have sb: "blk \<noteq> sb_blk (g_bs G1)" using 2(2) data_blk_sb geo_eq_facts(1) by (fastforce simp: allocated_def)
    have l: "length (chunk bs ?xs k) = unat (g_bs G1)" using 2(2) geo_eq_facts(1) bs by (fastforce simp: allocated_def)
    from 2(3) have "wp (bnd (write_block blk (chunk bs ?xs k)) (\<lambda>_. bnd (set_block_of i (of_nat k) blk) (\<lambda>(ok, i).
        if \<not> ok then bnd (free_block blk) (\<lambda>_. ret (False, i)) else write_data bs data fsize [Suc k..<n] i))) (write_post sec L Z G B P i k n ?xs) s1"
      by (rule write_bnd [OF _ sb l rest])
    then show ?case using 2(1) x by (simp add: Let_def)
  qed
qed

lemma take_zeros: "n \<le> m \<Longrightarrow> take n (ys @ replicate m 0) = take n (ys @ replicate n 0)"
  by (simp add: min_def) linarith

lemma chunks_concat:
  assumes "n * unat bs \<le> K"
  shows "concat (map (chunk bs xs) [0..<n]) = take (n * unat bs) (xs @ replicate K 0)"
  using assms
proof (induction n)
  case (Suc n)
  let ?Y = "xs @ replicate K 0"
  have "unat bs \<le> K - (n * unat bs - length xs)" using Suc.prems by simp
  then have "take (unat bs) (drop (n * unat bs) xs @ replicate (K - (n * unat bs - length xs)) 0) = chunk bs xs n" unfolding chunk_def by (rule take_zeros)
  moreover have "drop (n * unat bs) ?Y = drop (n * unat bs) xs @ replicate (K - (n * unat bs - length xs)) 0" by simp
  ultimately have "take (unat bs) (drop (n * unat bs) ?Y) = chunk bs xs n" by (simp only:)
  moreover have "take (Suc n * unat bs) ?Y = take (n * unat bs) ?Y @ take (unat bs) (drop (n * unat bs) ?Y)"
    unfolding mult_Suc add.commute [of "unat bs"] by (rule take_add)
  ultimately show ?case using Suc by simp
qed simp

lemma file_bytes_chunks:
  assumes "\<forall>j<n. blk_at bs B i j \<noteq> 0 \<and> B (blk_at bs B i j) = chunk bs xs j" "length xs \<le> n * unat bs"
  shows "take (length xs) (file_bytes bs B i n) = xs"
proof -
  have "file_bytes bs B i n = concat (map (chunk bs xs) [0..<n])"
    using assms(1) by (auto simp: file_bytes_def pieces_def piece_def comp_def intro!: arg_cong [of _ _ concat])
  then show ?thesis using chunks_concat [of n bs "n * unat bs" xs] assms(2) by (simp add: min_def)
qed

lemma nblocks_enough: "0 < unat bs \<Longrightarrow> n \<le> nblocks_of bs n * unat bs"
proof -
  assume b: "0 < unat bs"
  define q r where "q = n div unat bs" and "r = n mod unat bs"
  have "n = q * unat bs + r" "r < unat bs" using b by (simp_all add: q_def r_def)
  then show ?thesis unfolding nblocks_div_mod [OF b] q_def [symmetric] r_def [symmetric] by simp
qed

text \<open>A file whose blocks hold the bytes \<open>xs\<close>.\<close>

definition holds :: "u32 \<Rightarrow> (u32 \<Rightarrow> bytes) \<Rightarrow> inode \<Rightarrow> bytes \<Rightarrow> bool" where
  "holds bs B i xs \<longleftrightarrow> file_ok bs B i (nblocks_of bs (length xs)) \<and> take (length xs) (file_bytes bs B i (nblocks_of bs (length xs))) = xs"

lemma write_post_holds:
  assumes "fmap bs B i n U" "\<forall>j<n. B (blk_at bs B i j) = chunk bs xs j" "n = nblocks_of bs (length xs)" "0 < unat bs"
  shows "holds bs B i xs"
proof -
  have "blk_at bs B i j \<noteq> 0" if "j < n" for j using assms(1) that by (auto simp: fmap_def data_blk_def)
  then show ?thesis unfolding holds_def
    using fmap_file_ok [OF assms(1)] file_bytes_chunks [of n bs B i xs] nblocks_enough [OF assms(4), of "length xs"] assms(2,3) by simp
qed

lemma read_holds:
  assumes "fs_at sec L G B s" "holds (g_bs G) B i xs" "unat fsize = length xs" "length xs < 2 ^ 31"
  shows "wp (read_file i fsize) (\<lambda>(a, out, n) s'. n = fsize \<and> take (length xs) out = xs \<and> length out = max 1 (length xs) \<and>
    (\<exists>k. (a, k) \<notin> L \<and> fs_at sec (insert (a, k) L) G B s')) s"
  using wp_read_file [OF assms(1), of fsize i] assms(2-4) by (simp add: holds_def)

lemma fresh_fmap: "length (i_block i) = 15 \<Longrightarrow> i_block i ! 12 = 0 \<Longrightarrow> i_block i ! 13 = 0 \<Longrightarrow> fmap bs B i 0 U"
  by (simp add: fmap_def)

text \<open>Why a file of \<open>n\<close> blocks is not stored: it has more blocks than the direct and the single indirect ones, or there are not enough free
  blocks for it and its index block.\<close>

definition no_room :: "geom \<Rightarrow> (u32 \<Rightarrow> bytes) \<Rightarrow> nat \<Rightarrow> bool" where
  "no_room G B n \<longleftrightarrow> 12 + unat (g_bs G) div 4 < n \<or> avail G B < n + (if 12 < n then 1 else 0)"

lemma wp_write_holds:
  assumes "fs_at sec L G B s" "alloc_ok G B P" "length (i_block i) = 15" "i_block i ! 12 = 0" "i_block i ! 13 = 0"
    "unat fsize \<le> length data" "unat fsize < 2 ^ 31" "n = nblocks_of (g_bs G) (unat fsize)"
    "own_blocks G B \<subseteq> Z" "Z \<subseteq> P"
  shows "wp (write_data (g_bs G) data fsize [0..<n] i) (\<lambda>(ok, i') s'. \<exists>G' B' P'. fs_at sec L G' B' s' \<and> grows G B P G' B' P' {0} \<and>
    same_meta i i' \<and> length (i_block i') = 15 \<and> (if ok then holds (g_bs G) B' i' (take (unat fsize) data) \<and> fmap (g_bs G) B' i' n (P' - Z)
      else no_room G B n)) s"
proof -
  have b: "0 < unat (g_bs G)" using bs_ok_facts(2) [OF fs_at_geom(8) [OF assms(1)]] by simp
  have m: "min (length data) (unat fsize) = unat fsize" using assms(6) by simp
  show ?thesis
  proof (rule wp_mono [OF wp_write_data [OF assms(6-8,1) refl assms(2,9,10) fresh_fmap [OF assms(3-5)]]], goal_cases)
    case (3 r s')
    obtain ok i' where r: "r = (ok, i')" by (cases r)
    obtain G' B' P' where w: "fs_at sec L G' B' s'" "grows G B P G' B' P' {0}" "same_meta i i'" "length (i_block i') = 15"
      "if ok then fmap (g_bs G) B' i' n (P' - Z) \<and> (\<forall>j<n. B' (blk_at (g_bs G) B' i' j) = chunk (g_bs G) (take (unat fsize) data) j)
       else 12 + unat (g_bs G) div 4 < n \<or> avail G B < to_take 0 n"
      using 3 unfolding write_post_def assms(4) r fst_conv snd_conv by blast
    have "ok \<Longrightarrow> holds (g_bs G) B' i' (take (unat fsize) data)"
      using w(5) write_post_holds [of "g_bs G" B' i' n _ "take (unat fsize) data"] m b assms(8) by auto
    then show ?case using w unfolding r prod.case no_room_def to_take_def by (intro exI [of _ G'] exI [of _ B'] exI [of _ P']) auto
  qed simp_all
qed

end
