(* ===== verification/Ext2_Inode.thy ===== *)
theory Ext2_Inode
  imports Ext2_Write
begin

text \<open>
  Inodes on the disk (\<^verbatim>\<open>src/src/ext2.c\<close>): writing an inode and reading it back, and a file written through its inode.
\<close>

subsection \<open>Writing an inode\<close>

definition ino_put :: "geom \<Rightarrow> (u32 \<Rightarrow> bytes) \<Rightarrow> u32 \<Rightarrow> inode \<Rightarrow> u32 \<Rightarrow> bytes" where
  "ino_put G B ino i = B(ino_blk G B ino := store (B (ino_blk G B ino)) (ino_off G ino) (inode_pack i))"

lemma ino_slot:
  assumes "geom_ok G" "bs_ok (g_bs G)" "lens_ok G B" "ino_ok G B ino" "length (i_block i) = 15"
  shows "put_bytes (B (ino_blk G B ino)) (ino_off G ino) (inode_pack i) = Some (store (B (ino_blk G B ino)) (ino_off G ino) (inode_pack i))"
    "length (store (B (ino_blk G B ino)) (ino_off G ino) (inode_pack i)) = unat (g_bs G)"
proof -
  have l: "length (B (ino_blk G B ino)) = unat (g_bs G)" using assms(4) by (intro lens_okD [OF assms(3)]) (simp add: ino_ok_def)
  have "ino_off G ino + 112 \<le> unat (g_bs G)" using ino_off_dvd(1) [OF assms(1,2), of ino] assms(1) by (simp add: geom_ok_def)
  then show "put_bytes (B (ino_blk G B ino)) (ino_off G ino) (inode_pack i) = Some (store (B (ino_blk G B ino)) (ino_off G ino) (inode_pack i))"
    "length (store (B (ino_blk G B ino)) (ino_off G ino) (inode_pack i)) = unat (g_bs G)" using l assms(5) by (simp_all add: put_bytes_Some)
qed

lemma wp_write_inode:
  assumes "fs_at sec L G B s" "geom_ok G" "ino_ok G B ino" "length (i_block i) = 15"
  shows "wp (write_inode ino i) (\<lambda>ok s'. ok \<and> fs_at sec L G (ino_put G B ino i) s') s"
proof -
  note geo = fs_at_geom [OF assms(1)]
  note bs = bs_ok_facts [OF geo(8)] scratch_sizes [OF geo(8)]
  have d: "data_blk (g_bs G) (gd_blk G (ino_grp G ino))" "data_blk (g_bs G) (ino_blk G B ino)" "s_inodes_per_group (g_sb G) \<noteq> 0"
    using assms(2,3) by (simp_all add: ino_ok_def geom_ok_def)
  note slot = ino_slot [OF assms(2) geo(8) fs_at_lens [OF assms(1)] assms(3,4)]
  have eq: "(ino - 1) div s_inodes_per_group (g_sb G) = ino_grp G ino"
    "(ino - 1) mod s_inodes_per_group (g_sb G) * g_is G = ino_byte G ino"
    "bg_inode_table (gd_of G B (ino_grp G ino)) + ino_byte G ino div g_bs G = ino_blk G B ino"
    "unat (ino_byte G ino mod g_bs G) = ino_off G ino"
    by (simp_all add: ino_grp_def ino_byte_def ino_blk_def ino_off_def)
  show ?thesis
    unfolding write_inode_def using assms(1)
    apply (simp add: geo eq bs d Let_def)
    apply (erule read_gd_bnd, simp add: d)
    apply (simp add: eq bs)
    apply (erule new_bnd, simp, simp add: bs, simp add: bs)
    apply (erule read_bnd, simp add: eq d, simp add: bs)
    apply (simp add: eq geo slot)
    apply (erule write_bnd, rule data_blk_sb [OF d(2)], rule slot(2))
    apply (erule free_bnd, assumption, simp add: ino_put_def)
    done
qed

lemma write_inode_bnd:
  assumes "fs_at sec L G B s" "geom_ok G" "ino_ok G B ino" "length (i_block i) = 15"
    and "\<And>s'. fs_at sec L G (ino_put G B ino i) s' \<Longrightarrow> wp (f True) Q s'"
  shows "wp (bnd (write_inode ino i) f) Q s"
  by (rule wp_bndI [OF wp_write_inode [OF assms(1-4)]]) (use assms(5) in auto)

subsection \<open>Reading it back\<close>

text \<open>The inode tables are apart from the group descriptors.\<close>

definition table_ok :: "geom \<Rightarrow> (u32 \<Rightarrow> bytes) \<Rightarrow> u32 \<Rightarrow> bool" where
  "table_ok G B ino \<longleftrightarrow> ino_ok G B ino \<and> ino_grp G ino < g_groups G \<and> ino_blk G B ino \<notin> own_blocks G B"

lemma table_okD: "table_ok G B ino \<Longrightarrow> ino_grp G j < g_groups G \<Longrightarrow> gd_blk G (ino_grp G j) \<noteq> ino_blk G B ino"
  by (auto simp: table_ok_def own_blocks_def image_iff)

lemma ino_blk_put: "table_ok G B ino \<Longrightarrow> ino_grp G j < g_groups G \<Longrightarrow> ino_blk G (ino_put G B ino i) j = ino_blk G B j"
  using table_okD [of G B ino j] by (simp add: ino_blk_def ino_put_def gd_of_def)

lemma inode_of_put:
  assumes "geom_ok G" "bs_ok (g_bs G)" "lens_ok G B" "table_ok G B ino" "length (i_block i) = 15"
  shows "inode_of G (ino_put G B ino i) ino = i"
    and "ino_grp G j < g_groups G \<Longrightarrow> ino_blk G B j \<noteq> ino_blk G B ino \<or> ino_off G j \<noteq> ino_off G ino \<Longrightarrow> inode_of G (ino_put G B ino i) j = inode_of G B j"
proof -
  have ok: "ino_ok G B ino" "ino_grp G ino < g_groups G" using assms(4) by (simp_all add: table_ok_def)
  note slot = ino_slot [OF assms(1-3) ok(1) assms(5)]
  show "inode_of G (ino_put G B ino i) ino = i"
    using inode_at_put [OF slot(1) assms(5)] by (simp add: inode_of_def ino_blk_put [OF assms(4) ok(2)]) (simp add: ino_put_def)
  assume j: "ino_grp G j < g_groups G" and o: "ino_blk G B j \<noteq> ino_blk G B ino \<or> ino_off G j \<noteq> ino_off G ino"
  show "inode_of G (ino_put G B ino i) j = inode_of G B j"
  proof (cases "ino_blk G B j = ino_blk G B ino")
    case True
    obtain p q where p: "ino_off G j = unat (g_is G) * p" "ino_off G ino = unat (g_is G) * q"
      using ino_off_dvd(2) [OF assms(1,2)] by (meson dvdE)
    have "112 \<le> unat (g_is G)" using assms(1) by (simp add: geom_ok_def)
    moreover have "unat (g_is G) * p + unat (g_is G) \<le> unat (g_is G) * q \<or> unat (g_is G) * q + unat (g_is G) \<le> unat (g_is G) * p"
    proof (cases "p < q")
      case True
      then have "unat (g_is G) * Suc p \<le> unat (g_is G) * q" by (intro mult_le_mono2) simp
      then show ?thesis by simp
    next
      case False
      then have "unat (g_is G) * Suc q \<le> unat (g_is G) * p" using True o p by (intro mult_le_mono2) (auto simp: not_less)
      then show ?thesis by simp
    qed
    ultimately have "ino_off G j + 112 \<le> ino_off G ino \<or> ino_off G ino + 112 \<le> ino_off G j" using p by linarith
    from inode_at_put_other [OF slot(1) assms(5) this] True show ?thesis
      by (simp add: inode_of_def ino_blk_put [OF assms(4) j]) (simp add: ino_put_def)
  next
    case False
    then show ?thesis by (simp add: inode_of_def ino_blk_put [OF assms(4) j]) (simp add: ino_put_def)
  qed
qed

subsection \<open>A disk to try it on\<close>

text \<open>One group: its descriptor in block 2, its bitmaps in 3 and 4, its inodes in 5 and 6. Blocks 1 to 8 are in use, and those from 57 on do not exist.\<close>

definition small_gd :: group_desc where
  "small_gd = \<lparr>bg_block_bitmap = 3, bg_inode_bitmap = 4, bg_inode_table = 5, bg_free_blocks_count = 48, bg_free_inodes_count = 4, bg_used_dirs_count = 1,
     bg_pad = 0, bg_reserved = [0, 0, 0]\<rparr>"

definition small_map :: bytes where
  "small_map = 0xFF # replicate 6 0 @ replicate 1017 0xFF"

definition small_img :: "u32 \<Rightarrow> bytes" where
  "small_img b = (if b = 2 then group_desc_pack small_gd @ replicate 992 0 else if b = 3 then small_map else replicate 1024 0)"

lemma length_small_img: "length (small_img b) = 1024"
  by (simp add: small_img_def small_map_def small_gd_def)

lemma small_gd_of: "gd_blk small_geom 0 = 2" "gd_of small_geom small_img 0 = small_gd" "bb small_geom small_img 0 = 3"
proof -
  show b: "gd_blk small_geom 0 = 2" by (simp add: gd_blk_def small_sb_def)
  have "length (bg_reserved small_gd) = 3" by (simp add: small_gd_def)
  then show "gd_of small_geom small_img 0 = small_gd" by (simp add: gd_of_def b gd_off_def small_img_def group_desc_at_def get_bytes_def bslice_def)
  then show "bb small_geom small_img 0 = 3" by (simp add: bb_def small_gd_def)
qed

lemma u32_less_1: "g < (1 :: u32) \<longleftrightarrow> g = 0"
  by (simp add: word_less_nat_alt unat_eq_0)

lemma small_map_bit: "\<not> bit_at small_map i \<Longrightarrow> i < 8192 \<Longrightarrow> 8 \<le> i"
proof (rule ccontr)
  assume b: "\<not> bit_at small_map i" and i: "\<not> 8 \<le> i"
  then have "i = 0 \<or> i = 1 \<or> i = 2 \<or> i = 3 \<or> i = 4 \<or> i = 5 \<or> i = 6 \<or> i = 7" by arith
  then have "bit (255 :: u8) i" by auto
  then show False using b i by (simp add: bit_at_def small_map_def)
qed

lemma small_alloc_ok: "own_blocks small_geom small_img = {2, 3}" "alloc_ok small_geom small_img {b. b \<le> 8}"
proof -
  show own: "own_blocks small_geom small_img = {2, 3}" by (auto simp: own_blocks_def u32_less_1 small_gd_of)
  have r: "range_ok small_geom" by (simp add: range_ok_def geom_ok_def small_sb_def)
  have "maps_ok small_geom small_img" by (simp add: maps_ok_def u32_less_1 small_gd_of data_blk_def sb_blk_def)
  moreover have "free_ok small_geom small_img {b. b \<le> 8}"
    unfolding free_ok_def
  proof (intro allI impI)
    fix g i assume g: "g < g_groups small_geom" and i: "i < unat (s_blocks_per_group (g_sb small_geom))"
      and b: "\<not> bit_at (small_img (bb small_geom small_img g)) i"
    have g0: "g = 0" using g by (simp add: u32_less_1)
    have i': "i < 8192" using i by (simp add: small_sb_def)
    have "8 \<le> i" using b i' by (intro small_map_bit) (simp_all add: g0 small_gd_of small_img_def)
    moreover have "unat (blk_num small_geom g i) = 1 + i" using unat_blk_num [OF r g i] g0 by (simp add: small_sb_def)
    ultimately show "data_blk (g_bs small_geom) (blk_num small_geom g i) \<and> blk_num small_geom g i \<notin> {b. b \<le> 8}"
      using i' by (simp add: data_blk_def sb_blk_def word_le_nat_alt)
  qed
  moreover have "own_blocks small_geom small_img \<subseteq> {b. b \<le> 8}" by (simp add: own)
  ultimately show "alloc_ok small_geom small_img {b. b \<le> 8}" using r by (simp add: alloc_ok_def)
qed

lemma small_table_ok: "table_ok small_geom small_img 12" "ino_blk small_geom small_img 12 = 6" "geom_ok small_geom"
proof -
  have g: "ino_grp small_geom 12 = 0" by (simp add: ino_grp_def small_sb_def)
  have b: "ino_byte small_geom 12 = 1408" by (simp add: ino_byte_def small_sb_def)
  show blk: "ino_blk small_geom small_img 12 = 6" by (simp add: ino_blk_def g b small_gd_of small_gd_def)
  then show "table_ok small_geom small_img 12"
    by (simp add: table_ok_def ino_ok_def g small_gd_of small_alloc_ok(1) data_blk_def sb_blk_def u32_less_1)
  show "geom_ok small_geom" by (simp add: geom_ok_def small_sb_def)
qed

subsection \<open>Files through their inodes\<close>

lemma same_metaD: "same_meta i j \<Longrightarrow> i_size j = i_size i" "same_meta i j \<Longrightarrow> i_mode j = i_mode i"
  "same_meta i j \<Longrightarrow> i_links_count j = i_links_count i" "same_meta i j \<Longrightarrow> i_dir_acl j = i_dir_acl i"
  by (cases i; cases j; simp add: same_meta_def)+

lemma grows_ino:
  assumes "grows G B P G' B' P' X" "ino_grp G ino < g_groups G"
  shows "ino_blk G' B' ino = ino_blk G B ino"
proof -
  have g: "geo_eq G G'" using assms(1) by (simp add: grows_def)
  obtain n where "gd_of G B' (ino_grp G ino) = (gd_of G B (ino_grp G ino))\<lparr>bg_free_blocks_count := n\<rparr>" using assms by (auto simp: grows_def)
  then show ?thesis using geo_eq_facts(13) [OF g] by (simp add: ino_blk_def)
qed

lemma grows_table:
  assumes "grows G B P G' B' P' X" "table_ok G B ino"
  shows "table_ok G' B' ino"
proof -
  have t: "ino_grp G ino < g_groups G" using assms(2) by (simp add: table_ok_def)
  have g: "geo_eq G G'" "own_blocks G B' = own_blocks G B" using assms(1) by (simp_all add: grows_def)
  note b = grows_ino [OF assms(1) t]
  show ?thesis using assms(2) b unfolding table_ok_def ino_ok_def geo_eq_facts [OF g(1)] geo_eq_alloc [OF g(1)] g(2) by simp
qed

text \<open>A change outside the blocks of a file leaves the file as it is.\<close>

lemma holds_frame:
  assumes "holds bs B i xs" "fmap bs B i n U" "n = nblocks_of bs (length xs)" "bs_ok bs" "\<And>b. b \<in> U \<Longrightarrow> B' b = B b" "i_block j = i_block i"
  shows "holds bs B' j xs"
proof -
  have bj: "blk_at bs C j = blk_at bs C i" for C using assms(6) by (simp add: fun_eq_iff blk_at_def Let_def cong: if_cong)
  have at: "k < n \<Longrightarrow> blk_at bs B' i k = blk_at bs B i k" for k by (rule fmap_frame(2) [where B' = B', OF assms(2,4) subset_refl assms(5)])
  have "fmap bs B' i n U" by (rule fmap_frame(1) [where B' = B', OF assms(2,4) subset_refl assms(5)])
  then have "file_ok bs B' i n" by (rule fmap_file_ok) simp
  then have ok: "file_ok bs B' j n" using assms(6) bj by (simp add: file_ok_def inode_ok_def)
  have "piece bs B' (blk_at bs B' i k) = piece bs B (blk_at bs B i k)" if "k < n" for k
    using at [OF that] assms(2) assms(5) that by (simp add: piece_def fmap_def)
  then have "file_bytes bs B' j n = file_bytes bs B i n"
    by (auto simp: file_bytes_def pieces_def bj comp_def intro!: arg_cong [of _ _ concat])
  then show ?thesis using assms(1,3) ok by (simp add: holds_def)
qed

lemma grows_ino_put:
  assumes "grows G B P G' B' P' X" "table_ok G B ino" "ino_blk G B ino \<in> X"
  shows "grows G B P G' (ino_put G' B' ino i) P' X"
proof -
  note t = grows_table [OF assms(1,2)]
  have b: "ino_blk G' B' ino = ino_blk G B ino" using assms(2) by (intro grows_ino [OF assms(1)]) (simp add: table_ok_def)
  have "grows G' B' P' G' (ino_put G' B' ino i) P' X"
    unfolding ino_put_def using t assms(1,3) b by (intro grows_write) (auto simp: grows_def table_ok_def)
  then show ?thesis by (rule grows_trans [OF assms(1)]) simp
qed

lemma fmap_size: "fmap bs B (i\<lparr>i_size := x\<rparr>) k U = fmap bs B i k U"
proof -
  have "blk_at bs B (i\<lparr>i_size := x\<rparr>) = blk_at bs B i" by (simp add: fun_eq_iff blk_at_def Let_def cong: if_cong)
  then show ?thesis by (simp add: fmap_def)
qed

definition stored :: "('d \<Rightarrow> nat \<Rightarrow> bytes) \<Rightarrow> (nat \<times> nat) set \<Rightarrow> geom \<Rightarrow> (u32 \<Rightarrow> bytes) \<Rightarrow> u32 set \<Rightarrow> u32 \<Rightarrow> inode \<Rightarrow> bytes \<Rightarrow> bool \<Rightarrow> 'd ext2 \<Rightarrow> bool" where
  "stored sec L G B P ino i xs ok s' \<longleftrightarrow> (\<exists>G' B' P'. fs_at sec L G' B' s' \<and> grows G B P G' B' P' {0, ino_blk G B ino} \<and>
     same_meta i (inode_of G' B' ino) \<and>
     (if ok then holds (g_bs G) B' (inode_of G' B' ino) xs \<and> fmap (g_bs G) B' (inode_of G' B' ino) (nblocks_of (g_bs G) (length xs)) (P' - P)
      else no_room G B (nblocks_of (g_bs G) (length xs))))"

lemma wp_store_file:
  assumes "fs_at sec L G B s" "alloc_ok G B P" "length (i_block i) = 15" "i_block i ! 12 = 0" "i_block i ! 13 = 0"
    "unat fsize \<le> length data" "unat fsize < 2 ^ 31" "n = nblocks_of (g_bs G) (unat fsize)" "table_ok G B ino" "ino_blk G B ino \<in> P"
  shows "wp (bnd (write_data (g_bs G) data fsize [0..<n] i) (\<lambda>(ok, i). bnd (write_inode ino (i\<lparr>i_size := ucast fsize\<rparr>)) (\<lambda>_. ret ok)))
    (stored sec L G B P ino (i\<lparr>i_size := ucast fsize\<rparr>) (take (unat fsize) data)) s"
proof -
  have own: "own_blocks G B \<subseteq> P" using assms(2) by (simp add: alloc_ok_def)
  show ?thesis
  proof (rule wp_bndI [OF wp_write_holds [OF assms(1-8) own subset_refl]], clarify)
    fix ok i' s1 G1 B1 P1 assume s1: "fs_at sec L G1 B1 s1" and gr: "grows G B P G1 B1 P1 {0}" and me: "same_meta i i'" and len: "length (i_block i') = 15"
      and h: "if ok then holds (g_bs G) B1 i' (take (unat fsize) data) \<and> fmap (g_bs G) B1 i' n (P1 - P)
       else no_room G B n"
    have g: "geo_eq G G1" "geom_ok G1" "bs_ok (g_bs G1)" "g_bs G1 = g_bs G"
      using gr geo_eq_facts(1) fs_at_geom(8) [OF s1] by (auto simp: grows_def alloc_ok_def range_ok_def)
    note gr' = grows_mono [OF gr, of "{0, ino_blk G B ino}"]
    note t = grows_table [OF gr assms(9)]
    let ?j = "i'\<lparr>i_size := ucast fsize\<rparr>"
    have j: "inode_of G1 (ino_put G1 B1 ino ?j) ino = ?j" using len by (intro inode_of_put [OF g(2,3) fs_at_lens [OF s1] t]) simp
    have b: "ino_blk G1 B1 ino = ino_blk G B ino" using assms(9) by (intro grows_ino [OF gr]) (simp add: table_ok_def)
    have fr: "ino_put G1 B1 ino ?j b = B1 b" if "b \<in> P1 - P" for b using that assms(10) \<open>ino_blk G1 B1 ino = ino_blk G B ino\<close> by (auto simp: ino_put_def)
    have lx: "length (take (unat fsize) data) = unat fsize" using assms(6) by simp
    have "ok \<Longrightarrow> holds (g_bs G) (ino_put G1 B1 ino ?j) ?j (take (unat fsize) data)"
    proof (rule holds_frame [where B = B1 and i = i' and n = n and U = "P1 - P"])
      show "ino_put G1 B1 ino ?j b = B1 b" if "b \<in> P1 - P" for b using that by (rule fr)
    qed (use h assms(8) g(3,4) lx in simp_all)
    moreover have "ok \<Longrightarrow> fmap (g_bs G) (ino_put G1 B1 ino ?j) ?j n (P1 - P)"
    proof -
      assume ok
      then have "fmap (g_bs G) B1 i' n (P1 - P)" using h by simp
      from fmap_frame(1) [where B' = "ino_put G1 B1 ino ?j", OF this _ subset_refl fr] g(3,4) show ?thesis by (simp add: fmap_size)
    qed
    moreover have "same_meta (i\<lparr>i_size := ucast fsize\<rparr>) ?j" using me by (cases i; cases i') (simp add: same_meta_def)
    moreover note grows_ino_put [OF gr' assms(9), of ?j]
    ultimately have "stored sec L G B P ino (i\<lparr>i_size := ucast fsize\<rparr>) (take (unat fsize) data) ok s2"
      if "fs_at sec L G1 (ino_put G1 B1 ino ?j) s2" for s2
      unfolding stored_def lx assms(8) [symmetric] using that h j by (intro exI [of _ G1] exI [of _ "ino_put G1 B1 ino ?j"] exI [of _ P1]) auto
    then show "wp (bnd (write_inode ino ?j) (\<lambda>_. ret ok)) (stored sec L G B P ino (i\<lparr>i_size := ucast fsize\<rparr>) (take (unat fsize) data)) s1"
      using len t by (intro write_inode_bnd [OF s1 g(2)]) (auto simp: table_ok_def)
  qed
qed

subsection \<open>Storing and reading\<close>

text \<open>The end of \<^const>\<open>write_file_impl\<close>, the blocks of the file and then its inode, followed by reading the inode and the file.\<close>

definition store_then_read :: "u32 \<Rightarrow> bytes \<Rightarrow> u64 \<Rightarrow> u32 \<Rightarrow> inode \<Rightarrow> ('d ext2, (inode \<times> bytes) option) cm" where
  "store_then_read bs data fsize ino i =
     bnd (write_data bs data fsize [0..<nblocks_of bs (unat fsize)] i) (\<lambda>(ok, i).
     bnd (write_inode ino (i\<lparr>i_size := ucast fsize\<rparr>)) (\<lambda>_.
     if \<not> ok then ret None
     else bnd (read_inode ino) (\<lambda>r. case r of None \<Rightarrow> ret None | Some j \<Rightarrow> bnd (read_file j fsize) (\<lambda>(a, out, n). ret (Some (j, out))))))"

definition store_slabs :: "geom \<Rightarrow> nat \<Rightarrow> nat" where
  "store_slabs G n = (8 * unat (g_groups G) + 1) * nblocks_of (g_bs G) n + file_slabs (g_bs G) n + 7"

lemma uses_store_then_read:
  assumes "bs_ok bs" "unat fsize < 2 ^ 31"
  shows "uses bs gr ((8 * unat gr + 1) * nblocks_of bs (unat fsize) + file_slabs bs (unat fsize) + 7) (store_then_read bs data fsize ino i)"
  unfolding store_then_read_def
  apply (rule uses_mono)
   apply (rule uses_rules uses_write_data uses_write_inode uses_read_inode uses_read_file assms)+
  apply simp
  done

lemma wp_store_then_read:
  fixes s :: "'d ext2"
  assumes "fs_at sec L G B s" "alloc_ok G B P" "length (i_block i) = 15" "i_block i ! 12 = 0" "i_block i ! 13 = 0"
    "unat fsize \<le> length data" "unat fsize < 2 ^ 31" "table_ok G B ino" "ino_blk G B ino \<in> P"
  shows "wp (bnd (write_data (g_bs G) data fsize [0..<nblocks_of (g_bs G) (unat fsize)] i) (\<lambda>(ok, i).
      bnd (write_inode ino (i\<lparr>i_size := ucast fsize\<rparr>)) (\<lambda>_.
      if \<not> ok then ret None
      else bnd (read_inode ino) (\<lambda>r. case r of None \<Rightarrow> ret None | Some j \<Rightarrow> bnd (read_file j fsize) (\<lambda>(a, out, n). ret (Some (j, out)))))))
    (\<lambda>r s'. (case r of Some (j, out) \<Rightarrow> i_size j = ucast fsize \<and> i_mode j = i_mode i \<and> take (unat fsize) out = take (unat fsize) data \<and>
          length out = max 1 (unat fsize)
       | None \<Rightarrow> no_room G B (nblocks_of (g_bs G) (unat fsize))) \<and>
      (\<exists>L' G' B' P'. fs_at sec L' G' B' s' \<and> grows G B P G' B' P' {0, ino_blk G B ino})) s" (is "wp _ ?Q s")
proof -
  let ?n = "nblocks_of (g_bs G) (unat fsize)" and ?xs = "take (unat fsize) data" and ?i = "i\<lparr>i_size := ucast fsize\<rparr>"
  define F :: "bool \<Rightarrow> ('d ext2, (inode \<times> bytes) option) cm" where "F ok = (if \<not> ok then ret None
      else bnd (read_inode ino) (\<lambda>r. case r of None \<Rightarrow> ret None | Some j \<Rightarrow> bnd (read_file j fsize) (\<lambda>(a, out, n). ret (Some (j, out)))))" for ok
  have lx: "length ?xs = unat fsize" using assms(6) by simp
  have F: "wp (F ok) ?Q s1" if st: "stored sec L G B P ino ?i ?xs ok s1" for ok s1
  proof -
    obtain G' B' P' where w: "fs_at sec L G' B' s1" "grows G B P G' B' P' {0, ino_blk G B ino}" "same_meta ?i (inode_of G' B' ino)"
      "if ok then holds (g_bs G) B' (inode_of G' B' ino) ?xs else no_room G B ?n" using st unfolding stored_def lx by (auto split: if_splits)
    have g: "geom_ok G'" "g_bs G' = g_bs G" using w(2) geo_eq_facts(1) by (auto simp: grows_def alloc_ok_def range_ok_def)
    have i: "ino_ok G' B' ino" using grows_table [OF w(2) assms(8)] by (simp add: table_ok_def)
    have me: "i_size (inode_of G' B' ino) = ucast fsize" "i_mode (inode_of G' B' ino) = i_mode i" using same_metaD [OF w(3)] by simp_all
    show ?thesis
    proof (cases ok)
      case False
      then show ?thesis using w by (auto simp: F_def)
    next
      case True
      then have "holds (g_bs G') B' (inode_of G' B' ino) ?xs" using w(4) g(2) by simp
      note rd = read_holds [where fsize = fsize, OF _ this lx [symmetric]]
      show ?thesis unfolding F_def using True w(1)
        apply simp
        apply (erule read_inode_bnd, rule g(1), rule i)
        apply simp
        apply (rule wp_bndI [OF rd], assumption, use assms(6,7) in simp)
        apply (use w(2) me lx in auto)
        done
    qed
  qed
  from wp_bndI [OF wp_store_file [OF assms(1-7) refl assms(8,9)] F] show ?thesis by (simp add: F_def)
qed

lemma small_avail: "3 \<le> avail small_geom small_img"
proof -
  have "\<not> bit_at (small_img 3) i" if "i \<in> {8, 9, 10}" for i using that by (auto simp: bit_at_def small_img_def small_map_def nth_append)
  then have "{8, 9, 10} \<subseteq> {i. i < 8192 \<and> \<not> bit_at (small_img 3) i}" by auto
  from card_mono [OF _ this] have "3 \<le> card {i. i < 8192 \<and> \<not> bit_at (small_img 3) i}" by simp
  then show ?thesis by (simp add: avail_def u32_less_1 free_in_def small_gd_of small_gd_def small_sb_def)
qed

subsection \<open>Properties\<close>

text \<open>C12. An inode that is written is read back as it was, and every other inode is as before, also one that shares the block of the table;
  no other block of the disk changes. The two calls return when four slabs of the heap are left; with less they do that or panic since the heap
  is used up.\<close>

theorem write_inode_read_inode:
  assumes "fs_at sec L G B s" "geom_ok G" "table_ok G B ino" "length (i_block i) = 15"
  shows "runs 4 (bnd (write_inode ino i) (\<lambda>ok. bnd (read_inode ino) (\<lambda>r. ret (ok, r)))) (\<lambda>(ok, r) s'. ok \<and> r = Some i \<and>
    (\<exists>B'. fs_at sec L G B' s' \<and> (\<forall>b. b \<noteq> ino_blk G B ino \<longrightarrow> B' b = B b) \<and>
      (\<forall>j. ino_grp G j < g_groups G \<longrightarrow> ino_blk G B j \<noteq> ino_blk G B ino \<or> ino_off G j \<noteq> ino_off G ino \<longrightarrow> inode_of G B' j = inode_of G B j))) s"
proof -
  have ok: "ino_ok G B ino" "ino_grp G ino < g_groups G" using assms(3) by (simp_all add: table_ok_def)
  note put = inode_of_put [OF assms(2) fs_at_geom(8) [OF assms(1)] fs_at_lens [OF assms(1)] assms(3,4)]
  have "gd_blk G (ino_grp G ino) \<noteq> ino_blk G B ino" by (rule table_okD [OF assms(3) ok(2)])
  then have ok': "ino_ok G (ino_put G B ino i) ino" using ok(1) by (simp add: ino_ok_def ino_blk_put [OF assms(3) ok(2)])
  show ?thesis
  proof (rule runsI)
    show "uses (fs_block_size s) (fs_groups s) 4 (bnd (write_inode ino i) (\<lambda>ok. bnd (read_inode ino) (\<lambda>r. ret (ok, r))))"
      unfolding fs_at_geom(2) [OF assms(1)]
      by (rule uses_mono, (rule uses_rules uses_write_inode uses_read_inode fs_at_geom(8) [OF assms(1)])+, simp)
  qed (use assms(1) in \<open>-\<close>, erule write_inode_bnd, rule assms(2), rule ok(1), rule assms(4), erule read_inode_bnd, rule assms(2), rule ok',
    simp add: put(1), rule exI [of _ "ino_put G B ino i"], simp add: put(2), simp add: ino_put_def)
qed

theorem write_inode_read_inode_witness:
  "\<exists>(s :: (nat \<Rightarrow> bytes) ext2) s'. bnd (write_inode 12 (some_inode 0x81A4 100 (9 # replicate 14 0))) (\<lambda>ok. bnd (read_inode 12) (\<lambda>r. ret (ok, r))) s =
     Some (Inr ((True, Some (some_inode 0x81A4 100 (9 # replicate 14 0))), s'))"
proof -
  obtain s where s: "fs_at ram_sec {} small_geom small_img s" "fs_room s = 255"
    using image_mounted [of small_img small_geom] length_small_img by auto
  have "length (i_block (some_inode 0x81A4 100 (9 # replicate 14 0))) = 15" by simp
  from write_inode_read_inode [OF s(1) small_table_ok(3,1) this]
  obtain x s' where "bnd (write_inode 12 (some_inode 0x81A4 100 (9 # replicate 14 0))) (\<lambda>ok. bnd (read_inode 12) (\<lambda>r. ret (ok, r))) s = Some (Inr (x, s'))"
    "x = (True, Some (some_inode 0x81A4 100 (9 # replicate 14 0)))" by (rule runsE) (auto simp: s(2))
  then show ?thesis by (intro exI [of _ s] exI [of _ s']) simp
qed

text \<open>C8. What is stored in a file is what is read from it: after the blocks of a file have been written and its inode with them, the
  inode that is read back leads to exactly the bytes that were stored. It fails only when the file is too large for the direct and single
  indirect blocks or when fewer blocks are free than it and its index block need. No block that was in use before has changed but the block of
  the inode table and the bookkeeping of the allocator. The run returns when its heap has \<^const>\<open>store_slabs\<close> slabs left; with less it does that or
  panics since the heap is used up.\<close>

theorem stored_file_reads_back:
  fixes s :: "'d ext2"
  assumes "fs_at sec L G B s" "alloc_ok G B P" "length (i_block i) = 15" "i_block i ! 12 = 0" "i_block i ! 13 = 0"
    "unat fsize \<le> length data" "unat fsize < 2 ^ 31" "table_ok G B ino" "ino_blk G B ino \<in> P"
  shows "runs (store_slabs G (unat fsize)) (store_then_read (g_bs G) data fsize ino i)
    (\<lambda>r s'. (case r of Some (j, out) \<Rightarrow> i_size j = ucast fsize \<and> i_mode j = i_mode i \<and> take (unat fsize) out = take (unat fsize) data \<and>
          length out = max 1 (unat fsize)
       | None \<Rightarrow> no_room G B (nblocks_of (g_bs G) (unat fsize))) \<and>
      (\<exists>L' G' B' P'. fs_at sec L' G' B' s' \<and> grows G B P G' B' P' {0, ino_blk G B ino})) s" (is "runs _ _ ?Q s")
proof -
  have "wp (store_then_read (g_bs G) data fsize ino i) ?Q s"
    unfolding store_then_read_def by (rule wp_store_then_read [OF assms])
  moreover have "uses (fs_block_size s) (fs_groups s) (store_slabs G (unat fsize)) (store_then_read (g_bs G) data fsize ino i)"
    using uses_store_then_read [OF fs_at_geom(8) [OF assms(1)] assms(7)] fs_at_geom [OF assms(1)] by (simp add: store_slabs_def)
  ultimately show ?thesis by (rule runsI)
qed

theorem stored_file_reads_back_witness:
  "\<exists>(s :: (nat \<Rightarrow> bytes) ext2) j s'. store_then_read 1024 (replicate 3000 7) 3000 12 (some_inode 0x81A4 0 (replicate 15 0)) s =
     Some (Inr (Some (j, replicate 3000 7), s')) \<and> i_size j = 3000"
proof -
  obtain s where s: "fs_at ram_sec {} small_geom small_img s" "fs_room s = 255"
    using image_mounted [of small_img small_geom] length_small_img by auto
  let ?i = "some_inode 0x81A4 0 (replicate 15 0)"
  have p: "length (i_block ?i) = 15" "i_block ?i ! 12 = 0" "i_block ?i ! 13 = 0" "unat (3000 :: u64) \<le> length (replicate 3000 (7 :: u8))"
    "unat (3000 :: u64) < 2 ^ 31" "ino_blk small_geom small_img 12 \<in> {b. b \<le> 8}" "nblocks_of 1024 3000 = 3" "unat (3000 :: u64) = 3000" "ucast (3000 :: u64) = (3000 :: u32)"
    using small_table_ok(2) by (simp_all add: nblocks_of_def)
  have room: "store_slabs small_geom 3000 \<le> 255" by (simp add: store_slabs_def file_slabs_def slabs_for_def SLAB_SIZE_def p(7))
  have "\<not> no_room small_geom small_img 3" using small_avail by (simp add: no_room_def)
  moreover from stored_file_reads_back [OF s(1) small_alloc_ok(2) p(1-5) small_table_ok(1) p(6), unfolded small_geom_simps p(8) p(7,9)]
  obtain r s' where "store_then_read 1024 (replicate 3000 7) 3000 12 ?i s = Some (Inr (r, s'))"
    "case r of Some (j, out) \<Rightarrow> i_size j = 3000 \<and> take 3000 out = take 3000 (replicate 3000 7) \<and> length out = 3000 | None \<Rightarrow> no_room small_geom small_img 3"
    by (rule runsE) (use room s(2) in \<open>auto split: option.splits\<close>)
  ultimately show ?thesis by (cases r) (auto intro!: exI [of _ s])
qed

text \<open>C9. The block allocator keeps its maps well-formed: no block marked free is in use, and the bitmaps and the group descriptors are where
  they were. \<^const>\<open>alloc_block\<close> gives out a zeroed block that nobody uses and marks it, changing no other block but the allocator's own, and
  fails only when every group is full; \<^const>\<open>free_block\<close> of a block in use changes the allocator's own blocks alone. They return when four
  slabs of the heap for each group, and three slabs, are left; with less they do that or panic since the heap is used up.\<close>

theorem block_maps_ok:
  assumes "fs_at sec L G B s" "alloc_ok G B P"
  shows "runs (4 * unat (g_groups G)) alloc_block (\<lambda>blk s'. if blk = 0 then disk_full G B \<and> fs_at sec L G B s'
      else \<exists>G' B'. allocated G B P blk G' B' \<and> fs_at sec L G' B' s') s \<and>
    (\<forall>b\<in>P - own_blocks G B. data_blk (g_bs G) b \<longrightarrow>
      runs 3 (free_block b) (\<lambda>_ s'. \<exists>G' B'. released G B (P - {b}) G' B' \<and> fs_at sec L G' B' s') s)"
proof (intro conjI ballI impI)
  note geo = fs_at_geom [OF assms(1)]
  show "runs (4 * unat (g_groups G)) alloc_block (\<lambda>blk s'. if blk = 0 then disk_full G B \<and> fs_at sec L G B s'
      else \<exists>G' B'. allocated G B P blk G' B' \<and> fs_at sec L G' B' s') s"
    using wp_alloc_block [OF assms] uses_alloc_block [OF geo(8), of "g_groups G"] geo(2,4) by (intro runsI) simp_all
  fix b assume b: "b \<in> P - own_blocks G B" "data_blk (g_bs G) b"
  have "wp (bnd (free_block b) ret) (\<lambda>_ s'. \<exists>G' B'. released G B (P - {b}) G' B' \<and> fs_at sec L G' B' s') s"
    by (rule free_block_bnd [OF assms b(2)]) (use b(1) in auto)
  then show "runs 3 (free_block b) (\<lambda>_ s'. \<exists>G' B'. released G B (P - {b}) G' B' \<and> fs_at sec L G' B' s') s"
    using uses_free_block [OF geo(8)] geo(2) by (intro runsI) simp_all
qed

theorem block_maps_ok_witness:
  "\<exists>(s :: (nat \<Rightarrow> bytes) ext2) blk s'. alloc_block s = Some (Inr (blk, s')) \<and> 8 < blk"
proof -
  obtain s where s: "fs_at ram_sec {} small_geom small_img s" "fs_room s = 255"
    using image_mounted [of small_img small_geom] length_small_img by auto
  have "\<not> disk_full small_geom small_img" using small_avail disk_full_avail [of small_geom small_img] by auto
  moreover from block_maps_ok [OF s(1) small_alloc_ok(2)] obtain blk s' where "alloc_block s = Some (Inr (blk, s'))"
    "if blk = 0 then disk_full small_geom small_img \<and> fs_at ram_sec {} small_geom small_img s'
      else \<exists>G' B'. allocated small_geom small_img {b. b \<le> 8} blk G' B' \<and> fs_at ram_sec {} G' B' s'"
    by (elim conjE runsE) (auto simp: s(2))
  ultimately show ?thesis by (intro exI [of _ s] exI [of _ blk] exI [of _ s']) (auto simp: allocated_def split: if_splits)
qed

end
