(* ===== verification/Spec2Isabelle.thy ===== *)
theory Spec2Isabelle
  imports Str Arena Heap_Ops Keyboard Rtc Qoi Qoa Dhcp Tcp_Stream Dns Bcache_Spec Ext2_Inode Ext2_Pack
begin

text \<open>
  A verification development of the juampi-os kernel, a freestanding 64-bit C program. Its own code is \<^verbatim>\<open>src/src/*.c\<close> with headers
  in \<^verbatim>\<open>src/include/*.h\<close>; the theories keep the names of its functions, constants and structure members.

  \<^bold>\<open>Conventions.\<close> A structure is a record, a machine integer a word of its width, a table of fixed size a list. A function that
  changes static variables takes and returns a record of them. \<^const>\<open>None\<close> as the result of a run is undefined behaviour: an access
  outside an object, a division by zero, an unterminated string, a lock that is never released. \<^const>\<open>Inl\<close> of a message is \<^verbatim>\<open>kernel_panic\<close>.
  Devices are parameters: a record of functions on an abstract device state (\<open>Ports\<close>, the network environment \<open>'w env\<close> of
  \<open>Net_State\<close>, \<open>'d blockdev\<close> of \<open>Bcache\<close>), with what is relied on as a named hypothesis (\<^const>\<open>dev_ok\<close>, \<^const>\<open>writes_ok\<close>,
  \<^const>\<open>reads_ok\<close>, \<^const>\<open>silent\<close>). \<open>Prelude\<close> holds the shared facts on lists, words, byte orders and bounded reads (\<^const>\<open>rd\<close>,
  \<^const>\<open>wr\<close>), \<open>Ring\<close> those on ring buffers, \<open>Links\<close> those on intrusive linked lists.

  \<^bold>\<open>Memory.\<close> \<open>Bitset\<close> models \<^verbatim>\<open>bitset.c\<close>, \<open>Frames\<close> the physical frame allocator \<^verbatim>\<open>frames.c\<close> on it: the search finds the least free
  index, frames given out are distinct and were available. \<open>Mem\<close> models the byte memory with \<^verbatim>\<open>memset\<close> and \<^verbatim>\<open>memcpy\<close> of \<^verbatim>\<open>utils.c\<close>, which are shown
  equal to their byte-wise meaning. \<open>Alloc\<close> states the contract of \<^verbatim>\<open>alloc.h\<close> as locales; \<open>Arena\<close> (\<^verbatim>\<open>arena.c\<close>) and \<open>Heap\<close>, \<open>Heap_Inv\<close>,
  \<open>Heap_Ops\<close> (\<^verbatim>\<open>memory.c\<close>) interpret them: \<open>heap_inv h L\<close> says that the slab lists, the free lists threaded through the
  memory and the runs describe exactly the live blocks \<open>L\<close>; every allocation gives a new, aligned, zeroed block apart from all others, and every
  release takes one away. The first-fit walk over the runs is bounded by the number of carved slabs, which is enough since a run has at
  least one.

  \<^bold>\<open>Text and input.\<close> \<open>Str\<close> models \<^verbatim>\<open>str.c\<close>; \<open>Keyboard\<close> and \<open>Mouse\<close> the PS/2 drivers, whose rings are queues and
  whose packet decoding inverts the encoding; \<open>Rtc\<close> the clock, whose day count is the Gregorian calendar and which decodes all four
  register formats.

  \<^bold>\<open>Media.\<close> \<open>Qoi\<close> and \<open>Qoa\<close> model the decoders \<^verbatim>\<open>qoi.c\<close> and \<^verbatim>\<open>qoa.c\<close> with every access checked: they are safe and return on every
  file; the image decoder inverts an encoder of the format, and the predictor of the audio decoder does not overflow.

  \<^bold>\<open>Network.\<close> \<open>Net_Wire\<close> has the packet formats and the Internet checksum, \<open>Net_State\<close> the variables of the stack and its
  well-formedness \<^const>\<open>net_ok\<close>, \<open>Net_Ip\<close> Ethernet, ARP, IPv4 and ICMP (\<^verbatim>\<open>net.c\<close>), \<open>Udp\<close> and \<open>Tcp\<close> the transports, \<open>Net_Stack\<close> the input path,
  the poll pump and the reachable states. Whatever arrives, the stack stays well-formed and stores inside its buffers. \<open>Tcp_Stream\<close>
  shows that TCP delivers a prefix of the stream of the peer, and all of it once the end is reported. \<open>Dns\<close> and \<open>Dhcp\<close> are the clients. Waiting
  loops poll the card until a clock that the environment advances passes a deadline; \<open>e_fuel\<close> bounds the rounds, running out of it is \<^const>\<open>None\<close>,
  and C21 shows for a receive that enough of it gives a result.

  \<^bold>\<open>Block cache.\<close> \<open>Bcache\<close> models \<^verbatim>\<open>bcache.c\<close>, \<open>Bcache_Inv\<close> its invariant (the hash chains and the LRU list name each slot once),
  \<open>Bcache_Spec\<close> that it behaves as an array of blocks over a device that accepts writes, and what is lost when it does not, \<open>Bcache_Res\<close> which
  blocks an operation makes resident.

  \<^bold>\<open>File system.\<close> \<open>Cmon\<close> has the computations that can be undefined or panic and their weakest preconditions. \<open>Ext2\<close> and \<open>Ext2_Ops\<close> model the
  read and the write half of \<^verbatim>\<open>ext2.c\<close> over the modelled cache and heap, \<open>Ext2_Pack\<close> has the formats on disk. \<open>fs_at sec L G B s\<close> of
  \<open>Ext2_Inv\<close> says that state \<open>s\<close> has the heap blocks \<open>L\<close> in use, the variables \<open>G\<close> and the disk blocks \<open>B\<close>. \<open>Ext2_Read\<close> specifies the
  lookups, \<open>Ext2_File\<close> whole-file reads, \<open>Ext2_Alloc\<close> the bitmaps and the block allocator, \<open>Ext2_Write\<close> the growing of a file, \<open>Ext2_Inode\<close> the inode table and
  what is stored and read back. \<open>Ext2_Room\<close> bounds the slabs that an operation takes from its heap, so that \<^const>\<open>runs\<close> states both what a run
  does and when it returns; the bounds do not count buffers that were given back and are therefore larger than needed. \<open>Ext2_Image\<close> has a small
  disk for examples. Directories, path resolution, mounting, inode allocation and removal are modelled in full but have no theorem of their own; the
  spin lock is taken by one processor.

  \<^bold>\<open>Not modelled.\<close> Code that acts on the processor or on devices through registers, assembly or DMA (boot, descriptor tables, interrupts, APIC, SMP,
  paging, the scheduler's stack switch, time calibration, performance counters, PCI, NVMe, ATA, xHCI, e1000, AC'97, HDA, serial port, ACPI glue); code that
  draws or interacts (console, terminal, graphics, fonts, widgets, editor, shell); wrappers of libraries in the tree (HTTP, TLS, the C library
  shim, system calls, loading of programs and modules); and those libraries themselves.
\<close>

end
